(* ===== verification/Prelude.thy ===== *)
theory Prelude
  imports Main "HOL-Library.Word"
begin

text \<open>
  Shared vocabulary of the development: the machine integer types of the C and C++ sources,
  byte-order conversions, \<^verbatim>\<open>memcpy\<close> into the middle of an array, and the lemmas on lists,
  folds and words that the component theories use.

  Conventions. A C array is a list whose length is part of the invariant of its owner; a
  loop \<^verbatim>\<open>for (i = a; i < b; ++i) body\<close> is \<open>fold body [a..<b]\<close>; unsigned integers are words
  of their width, so that addition, multiplication and left shift wrap as in C.
\<close>

unbundle bit_operations_syntax

type_synonym u8 = "8 word"
type_synonym u16 = "16 word"
type_synonym u32 = "32 word"
type_synonym u64 = "64 word"

named_theorems len_simps \<open>lengths of the results of operations\<close>
named_theorems rot_simps \<open>the source's spellings of rotations, as library rotations\<close>

subsection \<open>Lists and folds\<close>

lemma fold_length_inv:
  assumes "\<And>x s. x \<in> set xs \<Longrightarrow> length (f x s) = length s"
  shows "length (fold f xs s) = length s"
  using assms by (induction xs arbitrary: s) auto

lemma fold_inv:
  assumes "P s" and "\<And>x s. x \<in> set xs \<Longrightarrow> P s \<Longrightarrow> P (f x s)"
  shows "P (fold f xs s)"
  using assms by (induction xs arbitrary: s) auto

text \<open>A counted loop keeps an indexed invariant.\<close>

lemma fold_upt_inv:
  assumes "P a s" and "a \<le> b"
    and "\<And>i s. a \<le> i \<Longrightarrow> i < b \<Longrightarrow> P i s \<Longrightarrow> P (Suc i) (f i s)"
  shows "P b (fold f [a..<b] s)"
proof -
  have "b' \<le> b \<Longrightarrow> a \<le> b' \<Longrightarrow> P b' (fold f [a..<b'] s)" for b'
  proof (induction b')
    case 0
    then show ?case using assms(1) by simp
  next
    case (Suc b')
    show ?case
    proof (cases "a = Suc b'")
      case True
      then show ?thesis using assms(1) by simp
    next
      case False
      with Suc.prems have le: "a \<le> b'" by simp
      with Suc have "P b' (fold f [a..<b'] s)" by simp
      with assms(3) le Suc.prems have "P (Suc b') (f b' (fold f [a..<b'] s))" by simp
      with le show ?thesis by simp
    qed
  qed
  with assms(2) show ?thesis by simp
qed

text \<open>
  Two loops over the same range, related step by step: the form of every argument that an
  optimised loop computes what the reference loop computes.
\<close>

lemma fold_upt_rel:
  assumes "R a s t" and "a \<le> b"
    and "\<And>i s t. a \<le> i \<Longrightarrow> i < b \<Longrightarrow> R i s t \<Longrightarrow> R (Suc i) (f i s) (g i t)"
  shows "R b (fold f [a..<b] s) (fold g [a..<b] t)"
proof -
  have "R b (fst (fold (\<lambda>i (s, t). (f i s, g i t)) [a..<b] (s, t)))
            (snd (fold (\<lambda>i (s, t). (f i s, g i t)) [a..<b] (s, t)))"
    by (rule fold_upt_inv [where P = "\<lambda>i p. R i (fst p) (snd p)"])
      (use assms in \<open>auto split: prod.splits\<close>)
  moreover have "fold (\<lambda>i (s, t). (f i s, g i t)) xs (s, t) = (fold f xs s, fold g xs t)" for xs s t
    by (induction xs arbitrary: s t) auto
  ultimately show ?thesis by simp
qed

lemma fold_upt_eqI:
  assumes "\<And>i s. a \<le> i \<Longrightarrow> i < b \<Longrightarrow> f i s = g i s"
  shows "fold f [a..<b] s = fold g [a..<b] s"
  by (rule fold_cong) (use assms in auto)

text \<open>The simplifier is not to unroll the loops of the model.\<close>

declare upt_rec_numeral [simp del]

lemma nth_map_upt [simp]: "i < n \<Longrightarrow> map f [0..<n] ! i = f i"
  by simp

text \<open>
  A table built by appending one entry per loop turn: entry \<open>i\<close> is computed from the entries
  before it and is never changed again.
\<close>

lemma append_loop:
  fixes g :: "nat \<Rightarrow> 'a list \<Rightarrow> 'a"
  assumes "length ini = a" and "a \<le> b"
  defines "W \<equiv> fold (\<lambda>i w. w @ [g i w]) [a..<b] ini"
  shows "length W = b" "take a W = ini" "\<And>i. a \<le> i \<Longrightarrow> i < b \<Longrightarrow> W ! i = g i (take i W)"
proof -
  have "length W = b \<and> take a W = ini \<and> (\<forall>i. a \<le> i \<longrightarrow> i < b \<longrightarrow> W ! i = g i (take i W))"
    unfolding W_def
    by (rule fold_upt_inv) (use assms in \<open>auto simp: nth_append less_Suc_eq\<close>)
  then show "length W = b" "take a W = ini" "\<And>i. a \<le> i \<Longrightarrow> i < b \<Longrightarrow> W ! i = g i (take i W)"
    by auto
qed

subsection \<open>Loops that may fail\<close>

fun foldM :: "('b \<Rightarrow> 's \<Rightarrow> 's option) \<Rightarrow> 'b list \<Rightarrow> 's \<Rightarrow> 's option" where
  "foldM f [] s = Some s"
| "foldM f (x # xs) s = Option.bind (f x s) (foldM f xs)"

subsection \<open>Checked array accesses\<close>

text \<open>\<open>None\<close> stands for an access outside the array.\<close>

definition get :: "'a list \<Rightarrow> nat \<Rightarrow> 'a option" where
  "get xs i = (if i < length xs then Some (xs ! i) else None)"

definition put :: "'a list \<Rightarrow> nat \<Rightarrow> 'a \<Rightarrow> 'a list option" where
  "put xs i v = (if i < length xs then Some (xs[i := v]) else None)"

lemma get_in [simp]: "i < length xs \<Longrightarrow> get xs i = Some (xs ! i)"
  by (simp add: get_def)

lemma put_in [simp]: "i < length xs \<Longrightarrow> put xs i v = Some (xs[i := v])"
  by (simp add: put_def)

lemma get_SomeD: "get xs i = Some v \<Longrightarrow> i < length xs \<and> v = xs ! i"
  by (simp add: get_def split: if_splits)

lemma put_SomeD: "put xs i v = Some ys \<Longrightarrow> i < length xs \<and> ys = xs[i := v]"
  by (auto simp: put_def split: if_splits)

subsection \<open>memcpy into an array\<close>

text \<open>
  \<^verbatim>\<open>memcpy(dst + off, src, n)\<close> with \<open>ys\<close> the \<open>n\<close> copied bytes. The source only copies inside
  the destination, which is the premise of the lemmas below.
\<close>

definition blit :: "'a list \<Rightarrow> nat \<Rightarrow> 'a list \<Rightarrow> 'a list" where
  "blit xs off ys = take off xs @ ys @ drop (off + length ys) xs"

lemma length_blit [len_simps, simp]:
  "off + length ys \<le> length xs \<Longrightarrow> length (blit xs off ys) = length xs"
  by (simp add: blit_def)

lemma nth_blit:
  assumes "off + length ys \<le> length xs" and "i < length xs"
  shows "blit xs off ys ! i = (if off \<le> i \<and> i < off + length ys then ys ! (i - off) else xs ! i)"
  using assms by (auto simp: blit_def nth_append min_def)

lemma blit_Nil [simp]: "blit xs off [] = xs"
  by (simp add: blit_def)

lemma take_blit:
  "off + length ys \<le> length xs \<Longrightarrow> take (off + length ys) (blit xs off ys) = take off xs @ ys"
  by (simp add: blit_def)

lemma blit_blit:
  assumes "off + length ys + length zs \<le> length xs"
  shows "blit (blit xs off ys) (off + length ys) zs = blit xs off (ys @ zs)"
proof (rule nth_equalityI)
  show "length (blit (blit xs off ys) (off + length ys) zs) = length (blit xs off (ys @ zs))"
    using assms by simp
  fix i assume "i < length (blit (blit xs off ys) (off + length ys) zs)"
  with assms have "i < length xs" by simp
  with assms show "blit (blit xs off ys) (off + length ys) zs ! i = blit xs off (ys @ zs) ! i"
    by (auto simp: nth_blit nth_append)
qed

subsection \<open>Counters\<close>

lemma unat_inc: "unat x < unat y \<Longrightarrow> unat (x + 1) = Suc (unat x)"
  for x y :: "'a::len word"
proof -
  assume "unat x < unat y"
  moreover have "unat y < 2 ^ LENGTH('a)" by (rule unsigned_less)
  ultimately have "unat x + unat (1 :: 'a word) < 2 ^ LENGTH('a)" by (simp only: unsigned_1)
  then show ?thesis using unat_add_lem [of x 1] by simp
qed

lemma unat_u8_less: "unat x < 256" for x :: u8
  using unsigned_less [of x] by simp

lemma unat_u32_less: "unat x < 4294967296" for x :: u32
  using unsigned_less [of x] by simp

lemma unat_u64_less: "unat x < 18446744073709551616" for x :: u64
  using unsigned_less [of x] by simp

subsection \<open>Rotations\<close>

text \<open>
  Every hash of the program spells a rotation as two shifts and an OR. For a distance
  strictly between 0 and the width this is the library's rotation.
\<close>

lemma shift_or_rotr:
  fixes x :: "'a::len word"
  assumes "0 < n" and "n < LENGTH('a)"
  shows "drop_bit n x OR push_bit (LENGTH('a) - n) x = word_rotr n x"
proof (rule bit_word_eqI)
  fix k assume k: "k < LENGTH('a)"
  have "bit x ((n + k) mod LENGTH('a)) \<longleftrightarrow>
      (if n + k < LENGTH('a) then bit x (n + k) else bit x (n + k - LENGTH('a)))"
    using assms k by (auto simp: mod_if)
  then show "bit (drop_bit n x OR push_bit (LENGTH('a) - n) x) k \<longleftrightarrow> bit (word_rotr n x) k"
    using assms k
    by (auto simp: bit_word_rotr_iff bit_simps not_le not_less add.commute dest: bit_imp_le_length)
qed

lemma shift_or_rotl:
  fixes x :: "'a::len word"
  assumes "0 < n" and "n < LENGTH('a)"
  shows "push_bit n x OR drop_bit (LENGTH('a) - n) x = word_rotl n x"
proof -
  have "push_bit n x OR drop_bit (LENGTH('a) - n) x
      = drop_bit (LENGTH('a) - n) x OR push_bit (LENGTH('a) - (LENGTH('a) - n)) x"
    using assms by (simp add: or.commute)
  also have "\<dots> = word_rotr (LENGTH('a) - n) x"
    using assms by (intro shift_or_rotr) auto
  also have "\<dots> = word_rotl n x"
    using assms by (simp add: word_rotl_eq_word_rotr)
  finally show ?thesis .
qed

subsection \<open>Little-endian and big-endian byte sequences\<close>

text \<open>
  \<open>le_word bs\<close> is the word a little-endian load of \<open>bs\<close> yields, \<open>le_bytes n w\<close> the \<open>n\<close>
  bytes a little-endian store of \<open>w\<close> writes; \<open>be_word\<close> and \<open>be_bytes\<close> are the big-endian
  forms. The loads and stores of the sources are proved equal to these.
\<close>

definition le_word :: "u8 list \<Rightarrow> 'a::len word" where
  "le_word bs = fold (\<lambda>i v. v OR push_bit (8 * i) (ucast (bs ! i))) [0..<length bs] 0"

definition le_bytes :: "nat \<Rightarrow> 'a::len word \<Rightarrow> u8 list" where
  "le_bytes n w = map (\<lambda>i. ucast (drop_bit (8 * i) w)) [0..<n]"

definition be_word :: "u8 list \<Rightarrow> 'a::len word" where
  "be_word bs = le_word (rev bs)"

definition be_bytes :: "nat \<Rightarrow> 'a::len word \<Rightarrow> u8 list" where
  "be_bytes n w = rev (le_bytes n w)"

lemma length_le_bytes [len_simps, simp]: "length (le_bytes n w) = n"
  by (simp add: le_bytes_def)

lemma length_be_bytes [len_simps, simp]: "length (be_bytes n w) = n"
  by (simp add: be_bytes_def)

lemma bit_le_word_prefix:
  "n \<le> length bs \<Longrightarrow>
   bit (fold (\<lambda>i v. v OR push_bit (8 * i) (ucast (bs ! i))) [0..<n] (0 :: 'a::len word)) k \<longleftrightarrow>
   k < LENGTH('a) \<and> k < 8 * n \<and> bit (bs ! (k div 8)) (k mod 8)"
  for bs :: "u8 list"
proof (induction n)
  case 0
  then show ?case by simp
next
  case (Suc n)
  show ?case
  proof (cases "k < 8 * n")
    case True
    with Suc show ?thesis by (auto simp: bit_simps)
  next
    case False
    show ?thesis
    proof (cases "k < 8 * n + 8")
      case True
      with False obtain r where "k = 8 * n + r" "r < 8"
        by (metis add_less_cancel_left le_Suc_ex not_less)
      then have "k div 8 = n" "k mod 8 = k - 8 * n" by simp_all
      with True False Suc show ?thesis by (auto simp: bit_simps)
    next
      case F: False
      then have "\<not> bit (ucast (bs ! n) :: 'a word) (k - 8 * n)"
        using bit_imp_le_length [of "bs ! n" "k - 8 * n"] by (auto simp: bit_simps)
      with F False Suc show ?thesis by (auto simp: bit_simps)
    qed
  qed
qed

lemma bit_le_word:
  "bit (le_word bs :: 'a::len word) k \<longleftrightarrow>
   k < LENGTH('a) \<and> k < 8 * length bs \<and> bit (bs ! (k div 8)) (k mod 8)"
  unfolding le_word_def by (rule bit_le_word_prefix) simp

lemma bit_le_bytes:
  "i < n \<Longrightarrow> bit (le_bytes n w ! i) k \<longleftrightarrow> k < 8 \<and> bit w (8 * i + k)"
  for w :: "'a::len word"
  by (auto simp: le_bytes_def bit_simps add.commute dest: bit_imp_le_length)

lemma le_word_le_bytes [simp]:
  fixes w :: "'a::len word"
  assumes "LENGTH('a) = 8 * n"
  shows "le_word (le_bytes n w) = w"
proof (rule bit_word_eqI)
  fix k assume k: "k < LENGTH('a)"
  with assms have "k div 8 < n" by (simp add: less_mult_imp_div_less mult.commute)
  then show "bit (le_word (le_bytes n w) :: 'a word) k \<longleftrightarrow> bit w k"
    using k assms by (auto simp: bit_le_word bit_le_bytes)
qed

lemma le_bytes_le_word [simp]:
  assumes "LENGTH('a::len) = 8 * length bs"
  shows "le_bytes (length bs) (le_word bs :: 'a word) = bs"
proof (rule nth_equalityI)
  show "length (le_bytes (length bs) (le_word bs :: 'a word)) = length bs" by simp
  fix i assume "i < length (le_bytes (length bs) (le_word bs :: 'a word))"
  then have i: "i < length bs" by simp
  show "le_bytes (length bs) (le_word bs :: 'a word) ! i = bs ! i"
  proof (rule bit_word_eqI)
    fix k assume "k < LENGTH(8)"
    then show "bit (le_bytes (length bs) (le_word bs :: 'a word) ! i) k \<longleftrightarrow> bit (bs ! i) k"
      using i assms by (simp add: bit_le_bytes bit_le_word)
  qed
qed

lemma be_word_be_bytes [simp]:
  "LENGTH('a::len) = 8 * n \<Longrightarrow> be_word (be_bytes n w) = (w :: 'a word)"
  by (simp add: be_word_def be_bytes_def)

lemma be_bytes_be_word [simp]:
  "LENGTH('a::len) = 8 * length bs \<Longrightarrow> be_bytes (length bs) (be_word bs :: 'a word) = bs"
  using le_bytes_le_word [where 'a = 'a, of "rev bs"] by (simp add: be_word_def be_bytes_def)

text \<open>The unrolled 32-bit loads that the sources write with four shifts.\<close>

lemma le_word_4:
  "le_word [a, b, c, d] =
   (ucast a OR push_bit 8 (ucast b) OR push_bit 16 (ucast c) OR push_bit 24 (ucast d) :: 'a::len word)"
  by (simp add: le_word_def ac_simps)

lemma be_word_4:
  "be_word [a, b, c, d] =
   (push_bit 24 (ucast a) OR push_bit 16 (ucast b) OR push_bit 8 (ucast c) OR ucast d :: 'a::len word)"
  by (simp add: be_word_def le_word_4 ac_simps)

lemma be_bytes_4:
  "be_bytes 4 w = [ucast (drop_bit 24 w), ucast (drop_bit 16 w), ucast (drop_bit 8 w), ucast w]"
  by (simp add: be_bytes_def le_bytes_def upt_rec)

subsection \<open>Arrays of equal blocks\<close>

text \<open>\<open>chunk n i xs\<close> is the \<open>i\<close>-th block of \<open>n\<close> elements, \<^verbatim>\<open>p + n * i\<close> read for \<open>n\<close> elements.\<close>

definition chunk :: "nat \<Rightarrow> nat \<Rightarrow> 'a list \<Rightarrow> 'a list" where
  "chunk n i xs = take n (drop (n * i) xs)"

lemma length_chunk [len_simps]: "n * Suc i \<le> length xs \<Longrightarrow> length (chunk n i xs) = n"
  by (simp add: chunk_def)

lemma nth_chunk: "n * Suc i \<le> length xs \<Longrightarrow> j < n \<Longrightarrow> chunk n i xs ! j = xs ! (n * i + j)"
  by (simp add: chunk_def)

lemma chunk_append: "n * Suc i \<le> length xs \<Longrightarrow> chunk n i (xs @ ys) = chunk n i xs"
  by (simp add: chunk_def)

lemma concat_chunks: "length xs = n * m \<Longrightarrow> concat (map (\<lambda>i. chunk n i xs) [0..<m]) = xs"
proof (induction m arbitrary: xs)
  case 0
  then show ?case by simp
next
  case (Suc m)
  let ?ys = "take (n * m) xs"
  have eq: "map (\<lambda>i. chunk n i xs) [0..<m] = map (\<lambda>i. chunk n i ?ys) [0..<m]"
  proof (rule map_cong)
    fix i assume "i \<in> set [0..<m]"
    then have "n * Suc i \<le> n * m" by (intro mult_le_mono2) auto
    then have "n * Suc i \<le> length ?ys" using Suc.prems by simp
    then show "chunk n i xs = chunk n i ?ys"
      by (subst chunk_append [symmetric, where ys = "drop (n * m) xs"]) simp_all
  qed simp
  moreover have "concat (map (\<lambda>i. chunk n i ?ys) [0..<m]) = ?ys"
    using Suc.prems by (intro Suc.IH) simp
  moreover have "chunk n m xs = drop (n * m) xs" using Suc.prems by (simp add: chunk_def)
  ultimately show ?case by (simp add: eq del: map_eq_conv)
qed

lemma chunk_concat:
  assumes "\<And>x. x \<in> set bs \<Longrightarrow> length x = n" and "i < length bs"
  shows "chunk n i (concat bs) = bs ! i"
  using assms
proof (induction bs arbitrary: i)
  case Nil
  then show ?case by simp
next
  case (Cons x bs)
  then have x: "length x = n" by simp
  show ?case
  proof (cases i)
    case 0
    then show ?thesis using x by (simp add: chunk_def)
  next
    case (Suc k)
    then have "chunk n i (concat (x # bs)) = chunk n k (concat bs)" using x by (simp add: chunk_def)
    then show ?thesis using Suc Cons by simp
  qed
qed

lemma length_concat_const:
  "(\<And>x. x \<in> set bs \<Longrightarrow> length x = n) \<Longrightarrow> length (concat bs) = n * length bs"
  by (induction bs) auto

subsection \<open>Numbers written in words, most significant word first\<close>

primrec big_val :: "'a::len word list \<Rightarrow> nat" where
  "big_val [] = 0"
| "big_val (w # ws) = unat w * (2 ^ LENGTH('a)) ^ length ws + big_val ws"

lemma big_val_less: "big_val ws < (2 ^ LENGTH('a)) ^ length ws" for ws :: "'a::len word list"
proof (induction ws)
  case Nil
  then show ?case by simp
next
  case (Cons w ws)
  have "big_val (w # ws) < (unat w + 1) * (2 ^ LENGTH('a)) ^ length ws" using Cons by simp
  also have "\<dots> \<le> 2 ^ LENGTH('a) * (2 ^ LENGTH('a)) ^ length ws"
    using unsigned_less [of w] by (intro mult_le_mono1) (simp add: Suc_le_eq)
  finally show ?case by simp
qed

lemma big_val_Cons_less:
  fixes x y :: "'a::len word"
  assumes "length xs = length ys" and "x < y"
  shows "big_val (x # xs) < big_val (y # ys)"
proof -
  have "big_val (x # xs) < (unat x + 1) * (2 ^ LENGTH('a)) ^ length xs"
    using big_val_less [of xs] by simp
  also have "\<dots> \<le> unat y * (2 ^ LENGTH('a)) ^ length xs"
    using assms(2) by (intro mult_le_mono1) (simp add: word_less_nat_alt)
  finally show ?thesis using assms(1) by simp
qed

lemma big_val_Cons_le:
  fixes x y :: "'a::len word"
  assumes "length xs = length ys"
  shows "big_val (x # xs) \<le> big_val (y # ys) \<longleftrightarrow> x < y \<or> x = y \<and> big_val xs \<le> big_val ys"
proof (cases x y rule: linorder_cases)
  case less
  then show ?thesis using big_val_Cons_less [OF assms less] by simp
next
  case equal
  then show ?thesis using assms by simp
next
  case greater
  have "\<not> big_val (x # xs) \<le> big_val (y # ys)"
    using big_val_Cons_less [OF assms [symmetric] greater] by (simp only: not_le)
  moreover have "\<not> x < y" "x \<noteq> y" using greater by auto
  ultimately show ?thesis by blast
qed

lemma big_val_append: "big_val (xs @ ys) = big_val xs * (2 ^ LENGTH('a)) ^ length ys + big_val ys"
  for xs ys :: "'a::len word list"
  by (induction xs) (simp_all add: algebra_simps power_add)

text \<open>The bytes of a word stand for the number the word stands for.\<close>

lemma big_val_be_bytes_mod: "big_val (be_bytes n w) = unat w mod 2 ^ (8 * n)"
  for w :: "'a::len word"
proof (induction n)
  case 0
  then show ?case by (simp add: be_bytes_def le_bytes_def)
next
  case (Suc n)
  have "be_bytes (Suc n) w = ucast (drop_bit (8 * n) w) # be_bytes n w"
    by (simp add: be_bytes_def le_bytes_def)
  moreover have "unat (ucast (drop_bit (8 * n) w) :: u8) = unat w div 2 ^ (8 * n) mod 256"
    by (simp add: unsigned_ucast_eq unat_drop_bit_eq take_bit_eq_mod flip: drop_bit_eq_div)
  moreover have "unat w mod (2 ^ (8 * n) * 256)
      = 2 ^ (8 * n) * (unat w div 2 ^ (8 * n) mod 256) + unat w mod 2 ^ (8 * n)"
    by (rule mod_mult2_eq)
  moreover have "2 ^ (8 * Suc n) = (2 ^ (8 * n) * 256 :: nat)" "(256 :: nat) ^ n = 2 ^ (8 * n)"
    by (simp_all add: power_add power_mult)
  ultimately show ?case using Suc by (simp add: mult.commute)
qed

lemma big_val_be_bytes: "LENGTH('a) = 8 * n \<Longrightarrow> big_val (be_bytes n w) = unat w"
  for w :: "'a::len word"
  by (metis big_val_be_bytes_mod mod_less unsigned_less)

lemma big_val_concat_be_bytes:
  assumes "LENGTH('a) = 8 * n"
  shows "big_val (concat (map (be_bytes n) ws)) = big_val (ws :: 'a::len word list)"
proof (induction ws)
  case Nil
  then show ?case by simp
next
  case (Cons w ws)
  have "length (concat (map (be_bytes n) ws)) = n * length ws"
    by (simp add: length_concat comp_def sum_list_triv)
  moreover have "(2 ^ LENGTH('a)) ^ k = ((2 ^ 8) ^ (n * k) :: nat)" for k
    by (simp only: assms power_mult)
  ultimately show ?case using Cons assms by (simp add: big_val_append big_val_be_bytes)
qed

lemma unat_and_63: "unat (x AND 63) = unat x mod 64" for x :: "'a::len word"
proof -
  have "(63 :: 'a word) = mask 6" by (simp add: mask_eq_exp_minus_1)
  then have "x AND 63 = take_bit 6 x" by (simp add: take_bit_eq_mask)
  then show ?thesis by (simp only: unsigned_take_bit_eq) (simp add: take_bit_eq_mod)
qed

end
