(* ===== verification/Stream_Hash.thy ===== *)
theory Stream_Hash
  imports Prelude
begin

text \<open>
  The interface of a block hash fed in pieces: a context that holds a chaining state and a
  buffer of bytes not yet compressed, and an update operation that appends input. The
  reference is \<open>absorb\<close>, which cuts the whole input into blocks. The locale \<open>block_stream\<close>
  states what an update routine must do on one partial block; its lemmas give what it does on
  any input, and that the way the input is cut into update calls does not matter.
\<close>

function absorb :: "('s \<Rightarrow> 'b list \<Rightarrow> 's) \<Rightarrow> nat \<Rightarrow> 's \<Rightarrow> 'b list \<Rightarrow> 's \<times> 'b list" where
  "absorb f n s xs =
     (if n = 0 \<or> length xs < n then (s, xs) else absorb f n (f s (take n xs)) (drop n xs))"
  by pat_completeness auto
termination
  by (relation "measure (\<lambda>(f, n, s, xs). length xs)") auto

declare absorb.simps [simp del]

lemma absorb_short [simp]: "length xs < n \<Longrightarrow> absorb f n s xs = (s, xs)"
  by (simp add: absorb.simps)

lemma absorb_block:
  "0 < n \<Longrightarrow> length xs = n \<Longrightarrow> absorb f n s (xs @ ys) = absorb f n (f s xs) ys"
  by (subst absorb.simps) simp

lemma absorb_rest_short: "0 < n \<Longrightarrow> length (snd (absorb f n s xs)) < n"
proof (induction f n s xs rule: absorb.induct)
  case (1 f n s xs)
  then show ?case by (subst absorb.simps) auto
qed

lemma absorb_rest_length: "0 < n \<Longrightarrow> length (snd (absorb f n s xs)) = length xs mod n"
proof (induction f n s xs rule: absorb.induct)
  case (1 f n s xs)
  then show ?case by (subst absorb.simps) (auto simp: le_mod_geq)
qed

text \<open>The blocks of a message whose length is a multiple of the block size.\<close>

lemma absorb_exact:
  assumes "0 < n" and "length xs = n * m"
  shows "absorb f n s xs = (fold (\<lambda>i s. f s (chunk n i xs)) [0..<m] s, [])"
  using assms(2)
proof (induction m arbitrary: s xs)
  case 0
  then show ?case using assms(1) by (simp add: absorb.simps)
next
  case (Suc m)
  have "absorb f n s (take n xs @ drop n xs) = absorb f n (f s (take n xs)) (drop n xs)"
    using Suc.prems assms(1) by (intro absorb_block) auto
  also have "\<dots> = (fold (\<lambda>i s. f s (chunk n i (drop n xs))) [0..<m] (f s (take n xs)), [])"
    using Suc by simp
  also have "fold (\<lambda>i s. f s (chunk n i (drop n xs))) [0..<m] (f s (take n xs))
      = fold (\<lambda>i s. f s (chunk n i xs)) [0..<Suc m] s"
    by (simp add: upt_conv_Cons fold_map chunk_def comp_def add.commute flip: map_Suc_upt del: upt_Suc)
  finally show ?case by simp
qed

locale block_stream =
  fixes update :: "'c \<Rightarrow> 'b list \<Rightarrow> 'c"
    and wf :: "'c \<Rightarrow> bool"
    and chain :: "'c \<Rightarrow> 's"
    and pending :: "'c \<Rightarrow> 'b list"
    and compress :: "'s \<Rightarrow> 'b list \<Rightarrow> 's"
    and bsize :: nat
  assumes bsize_pos: "0 < bsize"
    and pending_short: "wf c \<Longrightarrow> length (pending c) < bsize"
    and update_wf: "wf c \<Longrightarrow> wf (update c xs)"
    and update_fill: "wf c \<Longrightarrow> length (pending c) + length xs < bsize \<Longrightarrow>
      chain (update c xs) = chain c \<and> pending (update c xs) = pending c @ xs"
    and update_block: "wf c \<Longrightarrow> length (pending c) + length xs = bsize \<Longrightarrow>
      chain (update c xs) = compress (chain c) (pending c @ xs) \<and> pending (update c xs) = []"
    and update_split: "wf c \<Longrightarrow> update c (xs @ ys) = update (update c xs) ys"
begin

text \<open>An update on any input absorbs all the full blocks and keeps the rest.\<close>

lemma update_absorb:
  "wf c \<Longrightarrow> (chain (update c xs), pending (update c xs))
     = absorb compress bsize (chain c) (pending c @ xs)"
proof (induction "length xs" arbitrary: c xs rule: less_induct)
  case less
  let ?k = "bsize - length (pending c)"
  have k: "0 < ?k" using pending_short [OF less.prems] by simp
  show ?case
  proof (cases "length xs < ?k")
    case True
    then show ?thesis using update_fill [OF less.prems, of xs] by simp
  next
    case False
    let ?d = "update c (take ?k xs)"
    have len: "length (pending c) + length (take ?k xs) = bsize" using False k by simp
    have d: "wf ?d" "chain ?d = compress (chain c) (pending c @ take ?k xs)" "pending ?d = []"
      using update_block [OF less.prems len] update_wf [OF less.prems] by auto
    have "update c xs = update ?d (drop ?k xs)"
      using update_split [OF less.prems, of "take ?k xs" "drop ?k xs"] by simp
    moreover have "length (drop ?k xs) < length xs" using False k by simp
    ultimately have "(chain (update c xs), pending (update c xs))
        = absorb compress bsize (compress (chain c) (pending c @ take ?k xs)) (drop ?k xs)"
      using less.hyps [OF _ d(1)] d(2,3) by simp
    also have "\<dots> = absorb compress bsize (chain c) ((pending c @ take ?k xs) @ drop ?k xs)"
      using len bsize_pos by (intro absorb_block [symmetric]) simp_all
    finally show ?thesis by simp
  qed
qed

text \<open>Feeding a list of pieces one after the other is feeding their concatenation.\<close>

lemma update_concat:
  "wf c \<Longrightarrow> fold (\<lambda>p c. update c p) ps (update c []) = update c (concat ps)"
proof (induction ps rule: rev_induct)
  case Nil
  then show ?case by simp
next
  case (snoc p ps)
  then show ?case using update_split [of c "concat ps" p] by simp
qed

end

subsection \<open>Lazy block hashes\<close>

text \<open>
  A hash that treats its last block specially compresses a full buffer only when more input
  arrives, so between one and a full block of bytes stays pending.
\<close>

function absorb_lazy :: "('s \<Rightarrow> 'b list \<Rightarrow> 's) \<Rightarrow> nat \<Rightarrow> 's \<Rightarrow> 'b list \<Rightarrow> 's \<times> 'b list" where
  "absorb_lazy f n s xs =
     (if n = 0 \<or> length xs \<le> n then (s, xs) else absorb_lazy f n (f s (take n xs)) (drop n xs))"
  by pat_completeness auto
termination
  by (relation "measure (\<lambda>(f, n, s, xs). length xs)") auto

declare absorb_lazy.simps [simp del]

lemma absorb_lazy_short [simp]: "length xs \<le> n \<Longrightarrow> absorb_lazy f n s xs = (s, xs)"
  by (simp add: absorb_lazy.simps)

lemma absorb_lazy_block:
  "0 < n \<Longrightarrow> length xs = n \<Longrightarrow> ys \<noteq> [] \<Longrightarrow> absorb_lazy f n s (xs @ ys) = absorb_lazy f n (f s xs) ys"
  by (subst absorb_lazy.simps) simp

lemma absorb_lazy_rest_le: "0 < n \<Longrightarrow> length (snd (absorb_lazy f n s xs)) \<le> n"
proof (induction f n s xs rule: absorb_lazy.induct)
  case (1 f n s xs)
  then show ?case by (subst absorb_lazy.simps) auto
qed

lemma absorb_lazy_append:
  "0 < n \<Longrightarrow> absorb_lazy f n s (xs @ ys) = (case absorb_lazy f n s xs of (s', r) \<Rightarrow> absorb_lazy f n s' (r @ ys))"
proof (induction f n s xs rule: absorb_lazy.induct)
  case (1 f n s xs)
  show ?case
  proof (cases "length xs \<le> n")
    case False
    have "absorb_lazy f n s ((take n xs @ drop n xs) @ ys) = absorb_lazy f n (f s (take n xs)) (drop n xs @ ys)"
      unfolding append_assoc using False 1(2) by (intro absorb_lazy_block) auto
    moreover have "absorb_lazy f n s xs = absorb_lazy f n (f s (take n xs)) (drop n xs)"
      using False 1(2) by (subst absorb_lazy.simps) simp
    ultimately show ?thesis using 1 False by simp
  qed simp
qed

locale lazy_stream =
  fixes update :: "'c \<Rightarrow> 'b list \<Rightarrow> 'c"
    and wf :: "'c \<Rightarrow> bool"
    and chain :: "'c \<Rightarrow> 's"
    and pending :: "'c \<Rightarrow> 'b list"
    and compress :: "'s \<Rightarrow> 'b list \<Rightarrow> 's"
    and bsize :: nat
  assumes bsize_pos: "0 < bsize"
    and pending_le: "wf c \<Longrightarrow> length (pending c) \<le> bsize"
    and update_wf: "wf c \<Longrightarrow> wf (update c xs)"
    and update_lazy: "wf c \<Longrightarrow>
      (chain (update c xs), pending (update c xs)) = absorb_lazy compress bsize (chain c) (pending c @ xs)"
begin

text \<open>Feeding pieces one after the other leaves the chaining state and the pending bytes that
  feeding their concatenation would.\<close>

lemma update_pieces:
  "wf c \<Longrightarrow> wf (fold (\<lambda>p c. update c p) ps c) \<and>
     (chain (fold (\<lambda>p c. update c p) ps c), pending (fold (\<lambda>p c. update c p) ps c))
       = absorb_lazy compress bsize (chain c) (pending c @ concat ps)"
proof (induction ps rule: rev_induct)
  case Nil
  then show ?case using pending_le by simp
next
  case (snoc p ps)
  let ?d = "fold (\<lambda>p c. update c p) ps c"
  have d: "wf ?d" "(chain ?d, pending ?d) = absorb_lazy compress bsize (chain c) (pending c @ concat ps)"
    using snoc by auto
  have "absorb_lazy compress bsize (chain ?d) (pending ?d @ p)
      = absorb_lazy compress bsize (chain c) (pending c @ concat (ps @ [p]))"
    using absorb_lazy_append [OF bsize_pos, of compress "chain c" "pending c @ concat ps" p]
    by (simp flip: d(2))
  then show ?case using update_wf [OF d(1)] update_lazy [OF d(1), of p] by simp
qed

end

end
