(* ===== verification/Sha256.thy ===== *)
theory Sha256
  imports Stream_Hash
begin

text \<open>
  SHA-256 as the NeuroMorph code has it (\<^verbatim>\<open>crypto/nm/nm_sha256.h\<close>: a context with a 64-byte
  buffer, fed in pieces) and as the host reference of the CSD gate has it
  (\<^verbatim>\<open>csd_fused_check.cpp\<close>: the whole padded message at once), and the proof that the two agree
  on every message.
\<close>

subsection \<open>nm\_sha256.h\<close>

record nm_sha256_ctx =
  sha_s :: "u32 list"
  sha_len :: u64
  sha_buf :: "u8 list"
  sha_n :: nat

definition NM_K256 :: "u32 list" where
  "NM_K256 = [
    1116352408, 1899447441, 3049323471, 3921009573, 961987163, 1508970993, 2453635748, 2870763221,
    3624381080, 310598401, 607225278, 1426881987, 1925078388, 2162078206, 2614888103, 3248222580,
    3835390401, 4022224774, 264347078, 604807628, 770255983, 1249150122, 1555081692, 1996064986,
    2554220882, 2821834349, 2952996808, 3210313671, 3336571891, 3584528711, 113926993, 338241895,
    666307205, 773529912, 1294757372, 1396182291, 1695183700, 1986661051, 2177026350, 2456956037,
    2730485921, 2820302411, 3259730800, 3345764771, 3516065817, 3600352804, 4094571909, 275423344,
    430227734, 506948616, 659060556, 883997877, 958139571, 1322822218, 1537002063, 1747873779,
    1955562222, 2024104815, 2227730452, 2361852424, 2428436474, 2756734187, 3204031479, 3329325298]"

definition nm_ror :: "u32 \<Rightarrow> nat \<Rightarrow> u32" where
  "nm_ror x n = drop_bit n x OR push_bit (32 - n) x"

type_synonym sha_vars = "u32 \<times> u32 \<times> u32 \<times> u32 \<times> u32 \<times> u32 \<times> u32 \<times> u32"

text \<open>The message schedule \<^verbatim>\<open>w[64]\<close> of \<^verbatim>\<open>nm_sha256_block\<close>: each loop turn appends one word.\<close>

definition nm_schedule :: "u8 list \<Rightarrow> u32 list" where
  "nm_schedule p =
     fold (\<lambda>i w.
       let s0 = nm_ror (w ! (i - 15)) 7 XOR nm_ror (w ! (i - 15)) 18 XOR drop_bit 3 (w ! (i - 15));
           s1 = nm_ror (w ! (i - 2)) 17 XOR nm_ror (w ! (i - 2)) 19 XOR drop_bit 10 (w ! (i - 2))
       in w @ [w ! (i - 16) + s0 + w ! (i - 7) + s1]) [16..<64]
     (map (\<lambda>i. push_bit 24 (ucast (p ! (i * 4))) OR push_bit 16 (ucast (p ! (i * 4 + 1)))
            OR push_bit 8 (ucast (p ! (i * 4 + 2))) OR ucast (p ! (i * 4 + 3))) [0..<16])"

fun nm_round :: "u32 list \<Rightarrow> nat \<Rightarrow> sha_vars \<Rightarrow> sha_vars" where
  "nm_round w i (a, b, cc, d, e, f, g, h) =
     (let S1 = nm_ror e 6 XOR nm_ror e 11 XOR nm_ror e 25;
          ch = (e AND f) XOR (NOT e AND g);
          t1 = h + S1 + ch + NM_K256 ! i + w ! i;
          S0 = nm_ror a 2 XOR nm_ror a 13 XOR nm_ror a 22;
          maj = (a AND b) XOR (a AND cc) XOR (b AND cc);
          t2 = S0 + maj
      in (t1 + t2, a, b, cc, d + t1, e, f, g))"

fun sha_vars_of :: "u32 list \<Rightarrow> sha_vars" where
  "sha_vars_of st = (st ! 0, st ! 1, st ! 2, st ! 3, st ! 4, st ! 5, st ! 6, st ! 7)"

fun sha_add :: "u32 list \<Rightarrow> sha_vars \<Rightarrow> u32 list" where
  "sha_add st (a, b, c, d, e, f, g, h) =
     [st ! 0 + a, st ! 1 + b, st ! 2 + c, st ! 3 + d, st ! 4 + e, st ! 5 + f, st ! 6 + g, st ! 7 + h]"

definition nm_compress :: "u32 list \<Rightarrow> u8 list \<Rightarrow> u32 list" where
  "nm_compress st p =
     sha_add st (fold (nm_round (nm_schedule p)) [0..<64] (sha_vars_of st))"

definition nm_sha256_block :: "nm_sha256_ctx \<Rightarrow> u8 list \<Rightarrow> nm_sha256_ctx" where
  "nm_sha256_block c p = c\<lparr>sha_s := nm_compress (sha_s c) p\<rparr>"

definition nm_sha256_init :: "nm_sha256_ctx \<Rightarrow> nm_sha256_ctx" where
  "nm_sha256_init c = c\<lparr>
     sha_s := [0x6a09e667, 0xbb67ae85, 0x3c6ef372, 0xa54ff53a,
               0x510e527f, 0x9b05688c, 0x1f83d9ab, 0x5be0cd19],
     sha_len := 0, sha_n := 0\<rparr>"

text \<open>
  The loop of \<^verbatim>\<open>nm_sha256_update\<close>: copy up to the end of the buffer (\<open>nm_fill\<close>), compress a
  full buffer (\<open>nm_flush\<close>). The guard \<open>64 \<le> sha_n c\<close> is the state in which the \<^verbatim>\<open>memcpy\<close> of the
  source would write outside the buffer; \<open>nm_sha256_wf\<close> below is kept by every operation and
  excludes it.
\<close>

definition nm_fill :: "nm_sha256_ctx \<Rightarrow> u8 list \<Rightarrow> nm_sha256_ctx" where
  "nm_fill c q = c\<lparr>sha_buf := blit (sha_buf c) (sha_n c) q, sha_n := sha_n c + length q\<rparr>"

definition nm_flush :: "nm_sha256_ctx \<Rightarrow> nm_sha256_ctx" where
  "nm_flush c = (if sha_n c = 64 then (nm_sha256_block c (sha_buf c))\<lparr>sha_n := 0\<rparr> else c)"

function nm_update_loop :: "nm_sha256_ctx \<Rightarrow> u8 list \<Rightarrow> nm_sha256_ctx" where
  "nm_update_loop c p =
     (if p = [] \<or> 64 \<le> sha_n c then c
      else let k = min (64 - sha_n c) (length p)
           in nm_update_loop (nm_flush (nm_fill c (take k p))) (drop k p))"
  by pat_completeness auto
termination
  by (relation "measure (\<lambda>(c, p). length p)") auto

declare nm_update_loop.simps [simp del]

definition nm_sha256_update :: "nm_sha256_ctx \<Rightarrow> u8 list \<Rightarrow> nm_sha256_ctx" where
  "nm_sha256_update c p = nm_update_loop (c\<lparr>sha_len := sha_len c + of_nat (length p)\<rparr>) p"

definition nm_sha256_wf :: "nm_sha256_ctx \<Rightarrow> bool" where
  "nm_sha256_wf c \<longleftrightarrow> sha_n c < 64 \<and> length (sha_buf c) = 64 \<and> length (sha_s c) = 8"

text \<open>What an update does to the fill level, needed for the termination of the padding loop.\<close>

lemma nm_update_one_n:
  "sha_n c < 64 \<Longrightarrow> sha_n (nm_sha256_update c [x]) = (if sha_n c = 63 then 0 else Suc (sha_n c))"
  by (simp add: nm_sha256_update_def nm_update_loop.simps nm_sha256_block_def nm_fill_def nm_flush_def)

text \<open>Both padding loops of this theory count the fill level up to 56, through 63 to 0 if needed.\<close>

definition pad_dist :: "nat \<Rightarrow> nat" where
  "pad_dist n = (if n \<le> 56 then 56 - n else 120 - n)"

lemma pad_dist_Suc:
  "n < 64 \<Longrightarrow> n \<noteq> 56 \<Longrightarrow> pad_dist n = Suc (pad_dist (if n = 63 then 0 else Suc n))"
  by (auto simp: pad_dist_def)

lemmas pad_dist_step = pad_dist_Suc [THEN sym, THEN eq_refl, THEN Suc_le_lessD]

text \<open>
  \<^verbatim>\<open>while (c->n != 56) nm_sha256_update(c, &z, 1)\<close>; the second disjunct is again the state
  outside the invariant.
\<close>

function nm_pad_zero :: "nm_sha256_ctx \<Rightarrow> nm_sha256_ctx" where
  "nm_pad_zero c =
     (if sha_n c = 56 \<or> 64 \<le> sha_n c then c else nm_pad_zero (nm_sha256_update c [0]))"
  by pat_completeness auto
termination
  by (relation "measure (\<lambda>c. pad_dist (sha_n c))") (simp_all add: nm_update_one_n pad_dist_step)

declare nm_pad_zero.simps [simp del]

definition nm_sha256_final :: "nm_sha256_ctx \<Rightarrow> u8 list" where
  "nm_sha256_final c =
     (let bits = sha_len c * 8;
          c1 = nm_sha256_update c [0x80];
          c2 = nm_pad_zero c1;
          L = map (\<lambda>i. ucast (drop_bit (56 - 8 * i) bits)) [0..<8];
          c3 = nm_sha256_update c2 L
      in concat (map (\<lambda>i. [ucast (drop_bit 24 (sha_s c3 ! i)), ucast (drop_bit 16 (sha_s c3 ! i)),
                           ucast (drop_bit 8 (sha_s c3 ! i)), ucast (sha_s c3 ! i)]) [0..<8]))"

text \<open>
  \<^verbatim>\<open>nm_sha256\<close> declares its context on the stack, so the fields \<^verbatim>\<open>nm_sha256_init\<close> does not
  write start with arbitrary contents \<open>c0\<close>.
\<close>

definition nm_sha256_from :: "nm_sha256_ctx \<Rightarrow> u8 list \<Rightarrow> u8 list" where
  "nm_sha256_from c0 p = nm_sha256_final (nm_sha256_update (nm_sha256_init c0) p)"

definition stack_ctx :: nm_sha256_ctx where
  "stack_ctx = \<lparr>sha_s = replicate 8 0, sha_len = 0, sha_buf = replicate 64 0, sha_n = 0\<rparr>"

definition nm_sha256 :: "u8 list \<Rightarrow> u8 list" where
  "nm_sha256 p = nm_sha256_from stack_ctx p"

subsection \<open>The host reference of csd\_fused\_check.cpp\<close>

definition HK :: "u32 list" where
  "HK = [
    1116352408, 1899447441, 3049323471, 3921009573, 961987163, 1508970993, 2453635748, 2870763221,
    3624381080, 310598401, 607225278, 1426881987, 1925078388, 2162078206, 2614888103, 3248222580,
    3835390401, 4022224774, 264347078, 604807628, 770255983, 1249150122, 1555081692, 1996064986,
    2554220882, 2821834349, 2952996808, 3210313671, 3336571891, 3584528711, 113926993, 338241895,
    666307205, 773529912, 1294757372, 1396182291, 1695183700, 1986661051, 2177026350, 2456956037,
    2730485921, 2820302411, 3259730800, 3345764771, 3516065817, 3600352804, 4094571909, 275423344,
    430227734, 506948616, 659060556, 883997877, 958139571, 1322822218, 1537002063, 1747873779,
    1955562222, 2024104815, 2227730452, 2361852424, 2428436474, 2756734187, 3204031479, 3329325298]"

definition rr :: "u32 \<Rightarrow> nat \<Rightarrow> u32" where
  "rr x n = drop_bit n x OR push_bit (32 - n) x"

definition hschedule :: "u8 list \<Rightarrow> u32 list" where
  "hschedule p =
     fold (\<lambda>i w.
       let s0 = rr (w ! (i - 15)) 7 XOR rr (w ! (i - 15)) 18 XOR drop_bit 3 (w ! (i - 15));
           s1 = rr (w ! (i - 2)) 17 XOR rr (w ! (i - 2)) 19 XOR drop_bit 10 (w ! (i - 2))
       in w @ [w ! (i - 16) + s0 + w ! (i - 7) + s1]) [16..<64]
     (map (\<lambda>i. push_bit 24 (ucast (p ! (4 * i))) OR push_bit 16 (ucast (p ! (4 * i + 1)))
            OR push_bit 8 (ucast (p ! (4 * i + 2))) OR ucast (p ! (4 * i + 3))) [0..<16])"

fun hround :: "u32 list \<Rightarrow> nat \<Rightarrow> sha_vars \<Rightarrow> sha_vars" where
  "hround w i (a, b, c, d, e, f, g, h) =
     (let S1 = rr e 6 XOR rr e 11 XOR rr e 25;
          ch = (e AND f) XOR (NOT e AND g);
          t1 = h + S1 + ch + HK ! i + w ! i;
          S0 = rr a 2 XOR rr a 13 XOR rr a 22;
          mj = (a AND b) XOR (a AND c) XOR (b AND c);
          t2 = S0 + mj
      in (t1 + t2, a, b, c, d + t1, e, f, g))"

definition hblock :: "u32 list \<Rightarrow> u8 list \<Rightarrow> u32 list" where
  "hblock st p = sha_add st (fold (hround (hschedule p)) [0..<64] (sha_vars_of st))"

text \<open>\<^verbatim>\<open>while (v.size() % 64 != 56) v.push_back(0)\<close>.\<close>

function hpad_zero :: "u8 list \<Rightarrow> u8 list" where
  "hpad_zero v = (if length v mod 64 \<noteq> 56 then hpad_zero (v @ [0]) else v)"
  by pat_completeness auto
termination
proof (relation "measure (\<lambda>v. pad_dist (length v mod 64))")
  fix v :: "u8 list" assume v: "length v mod 64 \<noteq> 56"
  have "length (v @ [0]) mod 64 = (if length v mod 64 = 63 then 0 else Suc (length v mod 64))"
    by (simp only: length_append_singleton mod_Suc) simp
  with pad_dist_step [OF mod_less_divisor v]
  show "(v @ [0], v) \<in> measure (\<lambda>v. pad_dist (length v mod 64))"
    by (simp only: in_measure zero_less_numeral)
qed (rule wf_measure)

declare hpad_zero.simps [simp del]

definition sha_iv :: "u32 list" where
  "sha_iv = [0x6a09e667, 0xbb67ae85, 0x3c6ef372, 0xa54ff53a,
             0x510e527f, 0x9b05688c, 0x1f83d9ab, 0x5be0cd19]"

definition hsha :: "u8 list \<Rightarrow> u8 list" where
  "hsha m =
     (let v = hpad_zero (m @ [0x80]);
          bl = of_nat (length m) * 8 :: u64;
          v' = v @ map (\<lambda>i. ucast (drop_bit (8 * i) bl)) (rev [0..<8]);
          st = fold (\<lambda>k st. hblock st (chunk 64 k v')) [0..<(length v' + 63) div 64] sha_iv
      in concat (map (\<lambda>i. [ucast (drop_bit 24 (st ! i)), ucast (drop_bit 16 (st ! i)),
                           ucast (drop_bit 8 (st ! i)), ucast (st ! i)]) [0..<8]))"

definition hsha_d :: "u8 list \<Rightarrow> u8 list" where
  "hsha_d m = hsha (hsha m)"

subsection \<open>The two compression functions agree\<close>

lemma nm_ror_rr: "nm_ror = rr"
  by (simp add: fun_eq_iff nm_ror_def rr_def)

lemma HK_NM_K256: "HK = NM_K256"
  by (simp add: HK_def NM_K256_def)

lemma rr_rotr [rot_simps]: "0 < n \<Longrightarrow> n < 32 \<Longrightarrow> rr x n = word_rotr n x"
  using shift_or_rotr [of n x] by (simp add: rr_def)

lemma nm_schedule_hschedule: "nm_schedule = hschedule"
  by (intro ext) (simp only: nm_schedule_def hschedule_def nm_ror_rr mult.commute [of _ 4])

lemma sha_vars_cases:
  fixes v :: sha_vars
  obtains (vars) a b c d e f g h where "v = (a, b, c, d, e, f, g, h)"
  by (rule that [of "fst v" "fst (snd v)" "fst (snd (snd v))" "fst (snd (snd (snd v)))"
        "fst (snd (snd (snd (snd v))))" "fst (snd (snd (snd (snd (snd v)))))"
        "fst (snd (snd (snd (snd (snd (snd v))))))" "snd (snd (snd (snd (snd (snd (snd v))))))"]) simp

lemma nm_round_hround: "nm_round = hround"
proof (intro ext)
  fix w i v show "nm_round w i v = hround w i v"
    by (cases v rule: sha_vars_cases) (simp add: nm_ror_rr HK_NM_K256)
qed

lemma nm_compress_hblock: "nm_compress = hblock"
  by (intro ext) (simp only: nm_compress_def hblock_def nm_schedule_hschedule nm_round_hround)

lemma length_sha_add [len_simps, simp]: "length (sha_add st v) = 8"
  by (cases v rule: sha_vars_cases) simp

lemma length_hblock [len_simps, simp]: "length (hblock st p) = 8"
  by (simp add: hblock_def)

lemma length_nm_compress [len_simps, simp]: "length (nm_compress st p) = 8"
  by (simp add: nm_compress_hblock)

subsection \<open>The context as a block stream\<close>

definition nm_pending :: "nm_sha256_ctx \<Rightarrow> u8 list" where
  "nm_pending c = take (sha_n c) (sha_buf c)"

lemma nm_update_loop_Nil [simp]: "nm_update_loop c [] = c"
  by (simp add: nm_update_loop.simps)

lemma nm_fill_fill:
  "sha_n c + length p + length q \<le> length (sha_buf c) \<Longrightarrow> nm_fill (nm_fill c p) q = nm_fill c (p @ q)"
  by (simp add: nm_fill_def blit_blit add.assoc)

lemma nm_fill_n [simp]: "sha_n (nm_fill c q) = sha_n c + length q"
  by (simp add: nm_fill_def)

lemma nm_flush_not_full [simp]: "sha_n c \<noteq> 64 \<Longrightarrow> nm_flush c = c"
  by (simp add: nm_flush_def)

lemma nm_flush_fill_wf:
  assumes "nm_sha256_wf c" and "sha_n c + length q \<le> 64"
  shows "nm_sha256_wf (nm_flush (nm_fill c q))"
  using assms by (auto simp: nm_sha256_wf_def nm_flush_def nm_fill_def nm_sha256_block_def)

text \<open>A piece that stays inside the block is one fill; a piece that completes it also flushes.\<close>

lemma nm_update_loop_piece:
  assumes "sha_n c < 64" and "sha_n c + length p \<le> 64"
  shows "nm_update_loop c p = nm_flush (nm_fill c p)"
  using assms by (cases "p = []")
    (auto simp: nm_update_loop.simps [of c p] nm_fill_def min_absorb2)

lemma nm_update_loop_block:
  assumes "sha_n c < 64" and "sha_n c + length p = 64"
  shows "nm_update_loop c (p @ q) = nm_update_loop (nm_flush (nm_fill c p)) q"
  using assms by (subst nm_update_loop.simps) auto

lemma nm_update_loop_split:
  "nm_sha256_wf c \<Longrightarrow> nm_update_loop c (p @ q) = nm_update_loop (nm_update_loop c p) q"
proof (induction "length p" arbitrary: c p rule: less_induct)
  case less
  have wf: "sha_n c < 64" "length (sha_buf c) = 64"
    using less.prems by (auto simp: nm_sha256_wf_def)
  consider (inside) "sha_n c + length (p @ q) \<le> 64" "sha_n c + length p < 64"
    | (q_over) "sha_n c + length p < 64" "64 < sha_n c + length (p @ q)"
    | (p_over) "64 \<le> sha_n c + length p"
    by linarith
  then show ?case
  proof cases
    case inside
    then show ?thesis using wf by (simp add: nm_update_loop_piece nm_fill_fill)
  next
    case q_over
    define k where "k = 64 - (sha_n c + length p)"
    have k: "sha_n c + length p + length (take k q) = 64" using q_over by (simp add: k_def)
    have "nm_update_loop c ((p @ take k q) @ drop k q)
        = nm_update_loop (nm_flush (nm_fill c (p @ take k q))) (drop k q)"
      using wf k by (intro nm_update_loop_block) auto
    moreover have "nm_update_loop (nm_fill c p) (take k q @ drop k q)
        = nm_update_loop (nm_flush (nm_fill (nm_fill c p) (take k q))) (drop k q)"
      using q_over k by (intro nm_update_loop_block) auto
    ultimately show ?thesis
      using q_over k wf by (simp add: nm_update_loop_piece nm_fill_fill)
  next
    case p_over
    define k where "k = 64 - sha_n c"
    have k: "sha_n c + length (take k p) = 64" "0 < k" using p_over wf by (simp_all add: k_def)
    let ?d = "nm_flush (nm_fill c (take k p))"
    have "nm_sha256_wf ?d" using less.prems k by (intro nm_flush_fill_wf) auto
    moreover have "length (drop k p) < length p" using k p_over wf by auto
    ultimately have "nm_update_loop ?d (drop k p @ q) = nm_update_loop (nm_update_loop ?d (drop k p)) q"
      using less.hyps by blast
    moreover have "nm_update_loop c (take k p @ r) = nm_update_loop ?d r" for r
      using wf k by (intro nm_update_loop_block) auto
    from this [of "drop k p @ q"] this [of "drop k p"]
    have "nm_update_loop c (p @ q) = nm_update_loop ?d (drop k p @ q)"
      "nm_update_loop c p = nm_update_loop ?d (drop k p)"
      by (simp_all flip: append_assoc)
    ultimately show ?thesis by simp
  qed
qed

lemma nm_update_loop_wf: "nm_sha256_wf c \<Longrightarrow> nm_sha256_wf (nm_update_loop c p)"
proof (induction c p rule: nm_update_loop.induct)
  case (1 c p)
  show ?case
  proof (cases "p = [] \<or> 64 \<le> sha_n c")
    case True
    then show ?thesis using "1.prems" by (simp add: nm_update_loop.simps [of c p])
  next
    case False
    let ?k = "min (64 - sha_n c) (length p)"
    have "nm_sha256_wf (nm_flush (nm_fill c (take ?k p)))"
      using "1.prems" False by (intro nm_flush_fill_wf) auto
    with "1.IH" [OF False refl] False show ?thesis
      by (simp add: nm_update_loop.simps [of c p] Let_def)
  qed
qed

text \<open>The message length field is only carried along by the loop.\<close>

lemma nm_flush_fill_len:
  "nm_flush (nm_fill (c\<lparr>sha_len := l\<rparr>) q) = (nm_flush (nm_fill c q))\<lparr>sha_len := l\<rparr>"
  by (simp add: nm_flush_def nm_fill_def nm_sha256_block_def)

lemma nm_update_loop_len:
  "nm_update_loop (c\<lparr>sha_len := l\<rparr>) p = (nm_update_loop c p)\<lparr>sha_len := l\<rparr>"
proof (induction c p rule: nm_update_loop.induct)
  case (1 c p)
  show ?case
  proof (cases "p = [] \<or> 64 \<le> sha_n c")
    case True
    then show ?thesis
      by (auto simp: nm_update_loop.simps [of c p] nm_update_loop.simps [of "c\<lparr>sha_len := l\<rparr>" p])
  next
    case False
    then show ?thesis using "1.IH" [OF False refl]
      by (simp add: nm_update_loop.simps [of c p] nm_update_loop.simps [of "c\<lparr>sha_len := l\<rparr>" p]
          nm_flush_fill_len Let_def)
  qed
qed

lemma nm_update_loop_sha_len [simp]: "sha_len (nm_update_loop c p) = sha_len c"
  using arg_cong [OF nm_update_loop_len [of "sha_len c" c p], of sha_len] by simp

lemma nm_sha256_update_alt:
  "nm_sha256_update c p = (nm_update_loop c p)\<lparr>sha_len := sha_len c + of_nat (length p)\<rparr>"
  by (simp add: nm_sha256_update_def nm_update_loop_len)

lemma nm_sha256_update_Nil [simp]: "nm_sha256_update c [] = c"
  by (simp add: nm_sha256_update_alt)

lemma nm_wf_len [simp]: "nm_sha256_wf (c\<lparr>sha_len := l\<rparr>) = nm_sha256_wf c"
  by (simp add: nm_sha256_wf_def)

lemma length_nm_pending: "nm_sha256_wf c \<Longrightarrow> length (nm_pending c) = sha_n c"
  by (simp add: nm_pending_def nm_sha256_wf_def)

lemma nm_sha256_update_piece:
  assumes "nm_sha256_wf c" and "sha_n c + length p \<le> 64"
  shows "sha_s (nm_sha256_update c p) = sha_s (nm_flush (nm_fill c p))
    \<and> nm_pending (nm_sha256_update c p) = nm_pending (nm_flush (nm_fill c p))"
  using assms by (simp add: nm_sha256_update_alt nm_update_loop_piece nm_sha256_wf_def nm_pending_def)

interpretation nms: block_stream nm_sha256_update nm_sha256_wf sha_s nm_pending nm_compress 64
proof unfold_locales
  fix c :: nm_sha256_ctx and p q :: "u8 list"
  assume c: "nm_sha256_wf c"
  show "length (nm_pending c) < 64" using c length_nm_pending by (simp add: nm_sha256_wf_def)
  show "nm_sha256_wf (nm_sha256_update c p)" by (simp add: nm_sha256_update_alt nm_update_loop_wf c)
  show "nm_sha256_update c (p @ q) = nm_sha256_update (nm_sha256_update c p) q"
    using c by (simp add: nm_sha256_update_alt nm_update_loop_split nm_update_loop_len add.assoc)
  note piece = nm_sha256_update_piece [OF c, of p]
  have b: "length (sha_buf c) = 64" using c by (simp add: nm_sha256_wf_def)
  show "sha_s (nm_sha256_update c p) = sha_s c \<and> nm_pending (nm_sha256_update c p) = nm_pending c @ p"
    if "length (nm_pending c) + length p < 64"
    using that piece b by (simp add: length_nm_pending [OF c] nm_fill_def nm_pending_def take_blit)
  show "sha_s (nm_sha256_update c p) = nm_compress (sha_s c) (nm_pending c @ p)
      \<and> nm_pending (nm_sha256_update c p) = []"
    if "length (nm_pending c) + length p = 64"
  proof -
    have n: "sha_n c + length p = 64" using that length_nm_pending [OF c] by simp
    then have "blit (sha_buf c) (sha_n c) p = nm_pending c @ p"
      using b take_blit [of "sha_n c" p "sha_buf c"] by (simp add: nm_pending_def)
    then show ?thesis
      using piece n by (simp add: nm_flush_def nm_fill_def nm_sha256_block_def nm_pending_def)
  qed
qed simp

lemma nm_pad_zero_replicate:
  "nm_sha256_wf c \<Longrightarrow> nm_pad_zero c = nm_sha256_update c (replicate (pad_dist (sha_n c)) 0)"
proof (induction c rule: nm_pad_zero.induct)
  case (1 c)
  show ?case
  proof (cases "sha_n c = 56")
    case True
    then show ?thesis by (simp add: nm_pad_zero.simps [of c] pad_dist_def)
  next
    case False
    have n: "sha_n c < 64" using "1.prems" by (simp add: nm_sha256_wf_def)
    let ?d = "nm_sha256_update c [0]"
    have "nm_pad_zero c = nm_sha256_update ?d (replicate (pad_dist (sha_n ?d)) 0)"
      using False n "1.IH" nms.update_wf [OF "1.prems"] by (simp add: nm_pad_zero.simps [of c])
    also have "\<dots> = nm_sha256_update c ([0] @ replicate (pad_dist (sha_n ?d)) 0)"
      by (rule nms.update_split [OF "1.prems", symmetric])
    also have "[0] @ replicate (pad_dist (sha_n ?d)) 0 = replicate (pad_dist (sha_n c)) (0 :: u8)"
      using pad_dist_Suc [OF n False] nm_update_one_n [OF n] by simp
    finally show ?thesis .
  qed
qed

lemma hpad_zero_replicate:
  "hpad_zero v = v @ replicate (pad_dist (length v mod 64)) 0"
proof (induction v rule: hpad_zero.induct)
  case (1 v)
  show ?case
  proof (cases "length v mod 64 = 56")
    case True
    then show ?thesis by (simp add: hpad_zero.simps [of v] pad_dist_def)
  next
    case False
    have "length (v @ [0]) mod 64 = (if length v mod 64 = 63 then 0 else Suc (length v mod 64))"
      by (simp only: length_append_singleton mod_Suc) simp
    with "1.IH" False have "hpad_zero v =
        v @ [0] @ replicate (pad_dist (if length v mod 64 = 63 then 0 else Suc (length v mod 64))) 0"
      by (simp only: hpad_zero.simps [of v] append_assoc if_True simp_thms)
    then show ?thesis
      using pad_dist_Suc [OF mod_less_divisor False] by simp
  qed
qed

lemma nm_init_wf: "length (sha_buf c0) = 64 \<Longrightarrow> nm_sha256_wf (nm_sha256_init c0)"
  by (simp add: nm_sha256_wf_def nm_sha256_init_def)

lemma nm_init_fields [simp]:
  "sha_s (nm_sha256_init c0) = sha_iv" "nm_pending (nm_sha256_init c0) = []"
  "sha_len (nm_sha256_init c0) = 0"
  by (simp_all add: nm_sha256_init_def sha_iv_def nm_pending_def)

text \<open>The padded message, as both routines lay it out.\<close>

definition sha_padded :: "u8 list \<Rightarrow> u8 list" where
  "sha_padded m = m @ [0x80] @ replicate (pad_dist ((length m + 1) mod 64)) 0
     @ be_bytes 8 (of_nat (length m) * 8 :: u64)"

lemma pad_dist_mod: "(x + (pad_dist (x mod 64) + 8)) mod 64 = 0"
proof -
  have "n < 64 \<Longrightarrow> (n + (pad_dist n + 8)) mod 64 = 0" for n
    by (cases "n \<le> 56") (simp_all add: pad_dist_def)
  from this [of "x mod 64"] show ?thesis by (simp only: mod_add_left_eq mod_less_divisor zero_less_numeral)
qed

lemma sha_padded_blocks: "length (sha_padded m) = 64 * (length (sha_padded m) div 64)"
proof -
  have "length (sha_padded m) = (length m + 1) + (pad_dist ((length m + 1) mod 64) + 8)"
    by (simp add: sha_padded_def)
  then have "length (sha_padded m) mod 64 = 0" by (simp only: pad_dist_mod)
  then show ?thesis using mult_div_mod_eq [of 64 "length (sha_padded m)"] by linarith
qed

lemma be_bytes_8:
  "be_bytes 8 (w :: u64) = map (\<lambda>i. ucast (drop_bit (56 - 8 * i) w)) [0..<8]"
  by (simp add: be_bytes_def le_bytes_def upt_rec)

lemma be_bytes_8_rev: "be_bytes 8 (w :: u64) = map (\<lambda>i. ucast (drop_bit (8 * i) w)) (rev [0..<8])"
  by (simp add: be_bytes_def le_bytes_def rev_map)

lemma hsha_absorb:
  "hsha m = (let st = fst (absorb hblock 64 sha_iv (sha_padded m)) in
     concat (map (\<lambda>i. [ucast (drop_bit 24 (st ! i)), ucast (drop_bit 16 (st ! i)),
                       ucast (drop_bit 8 (st ! i)), ucast (st ! i)]) [0..<8]))"
proof -
  have "hpad_zero (m @ [0x80]) @ be_bytes 8 (of_nat (length m) * 8 :: u64) = sha_padded m"
    by (simp add: hpad_zero_replicate sha_padded_def)
  moreover have "(length (sha_padded m) + 63) div 64 = length (sha_padded m) div 64"
    by (subst (1) sha_padded_blocks) simp
  moreover have "absorb hblock 64 sha_iv (sha_padded m)
     = (fold (\<lambda>k st. hblock st (chunk 64 k (sha_padded m))) [0..<length (sha_padded m) div 64] sha_iv, [])"
    by (rule absorb_exact) (simp, rule sha_padded_blocks)
  ultimately show ?thesis by (simp only: hsha_def Let_def be_bytes_8_rev [symmetric] fst_conv)
qed

lemma nm_sha256_from_absorb:
  assumes c0: "length (sha_buf c0) = 64"
  shows "nm_sha256_from c0 m = (let st = fst (absorb nm_compress 64 sha_iv (sha_padded m)) in
     concat (map (\<lambda>i. [ucast (drop_bit 24 (st ! i)), ucast (drop_bit 16 (st ! i)),
                       ucast (drop_bit 8 (st ! i)), ucast (st ! i)]) [0..<8]))"
proof -
  let ?i = "nm_sha256_init c0" and ?L = "be_bytes 8 (of_nat (length m) * 8 :: u64)"
  note wf = nm_init_wf [OF c0]
  note upd = nms.update_split [OF wf, symmetric] and wfs = nms.update_wf [OF wf]
  let ?c1 = "nm_sha256_update ?i (m @ [0x80])"
  have "sha_n ?c1 = (length m + 1) mod 64"
    using length_nm_pending [OF wfs, of "m @ [0x80]"] nms.update_absorb [OF wf, of "m @ [0x80]"]
      absorb_rest_length [of 64 nm_compress sha_iv "m @ [0x80]"]
    by (simp flip: prod.collapse add: prod_eq_iff)
  then have "nm_sha256_update (nm_pad_zero ?c1) ?L = nm_sha256_update ?i (sha_padded m)"
    by (simp add: nm_pad_zero_replicate [OF wfs] upd sha_padded_def)
  moreover have "sha_len (nm_sha256_update ?i m) = of_nat (length m)"
    by (simp add: nm_sha256_update_alt)
  ultimately show ?thesis
    using arg_cong [OF nms.update_absorb [OF wf, of "sha_padded m"], of fst]
    by (simp add: nm_sha256_from_def nm_sha256_final_def upd be_bytes_8 [symmetric] Let_def)
qed

subsection \<open>SHA-256 on words\<close>

text \<open>
  The schedule and the compression as functions of the sixteen big-endian words of a block, and
  the digest of a message from the words of its padded blocks: the form the GPU kernel of
  \<^verbatim>\<open>csd_sha256d.hpp\<close> is compared with.
\<close>

definition sha_next :: "nat \<Rightarrow> u32 list \<Rightarrow> u32" where
  "sha_next i w =
     w ! (i - 16) + (rr (w ! (i - 15)) 7 XOR rr (w ! (i - 15)) 18 XOR drop_bit 3 (w ! (i - 15)))
     + w ! (i - 7) + (rr (w ! (i - 2)) 17 XOR rr (w ! (i - 2)) 19 XOR drop_bit 10 (w ! (i - 2)))"

definition sha_expand :: "u32 list \<Rightarrow> u32 list" where
  "sha_expand ws = fold (\<lambda>i w. w @ [sha_next i w]) [16..<64] ws"

definition sha_block_words :: "u32 list \<Rightarrow> u32 list \<Rightarrow> u32 list" where
  "sha_block_words st ws = sha_add st (fold (hround (sha_expand ws)) [0..<64] (sha_vars_of st))"

definition block_words :: "u8 list \<Rightarrow> u32 list" where
  "block_words p = map (\<lambda>i. be_word (chunk 4 i p)) [0..<16]"

lemma chunk_4: "4 * Suc i \<le> length p \<Longrightarrow>
    chunk 4 i p = [p ! (4 * i), p ! (4 * i + 1), p ! (4 * i + 2), p ! (4 * i + 3)]"
  by (rule nth_equalityI) (auto simp: chunk_def nth_Cons' numeral_eq_Suc less_Suc_eq)

lemma hblock_words: "64 \<le> length p \<Longrightarrow> hblock st p = sha_block_words st (block_words p)"
proof -
  assume p: "64 \<le> length p"
  have "block_words p = map (\<lambda>i. push_bit 24 (ucast (p ! (4 * i))) OR push_bit 16 (ucast (p ! (4 * i + 1)))
            OR push_bit 8 (ucast (p ! (4 * i + 2))) OR ucast (p ! (4 * i + 3))) [0..<16]"
    unfolding block_words_def using p by (intro map_cong) (simp_all add: chunk_4 be_word_4)
  then have "hschedule p = sha_expand (block_words p)"
    by (simp only: hschedule_def sha_expand_def sha_next_def Let_def)
  then show ?thesis by (simp only: hblock_def sha_block_words_def)
qed

lemma block_words_concat:
  assumes "\<And>x. x \<in> set bs \<Longrightarrow> length x = 4" and "length bs = 16"
  shows "block_words (concat bs) = map be_word bs"
  unfolding block_words_def using assms
  by (intro nth_equalityI) (auto simp: chunk_concat)

lemma block_words_take: "block_words (take 64 p) = block_words p"
  unfolding block_words_def by (intro map_cong) (auto simp: chunk_def min_def take_drop)

lemma hblock_take: "64 \<le> length p \<Longrightarrow> hblock st (take 64 p) = hblock st p"
  by (simp add: hblock_words block_words_take)

lemma length_sha_block_words [simp, len_simps]: "length (sha_block_words st ws) = 8"
  by (simp add: sha_block_words_def)

lemma length_fst_absorb_hblock: "length st = 8 \<Longrightarrow> length (fst (absorb hblock 64 st xs)) = 8"
proof (induction hblock "64::nat" st xs rule: absorb.induct)
  case (1 s xs)
  then show ?case by (subst absorb.simps) auto
qed

lemma hsha_digest:
  "hsha m = concat (map (be_bytes 4) (fst (absorb hblock 64 sha_iv (sha_padded m))))"
proof -
  let ?st = "fst (absorb hblock 64 sha_iv (sha_padded m))"
  have "length ?st = 8" by (rule length_fst_absorb_hblock) (simp add: sha_iv_def)
  then have "map (be_bytes 4) ?st = map (\<lambda>i. be_bytes 4 (?st ! i)) [0..<8]"
    by (intro nth_equalityI) simp_all
  then show ?thesis by (simp only: hsha_absorb be_bytes_4 Let_def)
qed

lemma length_hsha [simp, len_simps]: "length (hsha m) = 32"
proof -
  have "length (fst (absorb hblock 64 sha_iv (sha_padded m))) = 8"
    by (rule length_fst_absorb_hblock) (simp add: sha_iv_def)
  then show ?thesis by (simp add: hsha_digest length_concat comp_def sum_list_triv)
qed

text \<open>
  C19. The streaming SHA-256 of nm_sha256.h computes, whatever the context holds when it is created
  and however the message is cut into update calls, the digest that the independent one-shot
  reference of csd_fused_check.cpp gives for the concatenation of the pieces: the padding, the
  length field and the block boundaries included.
\<close>

theorem nm_sha256_pieces:
  assumes "length (sha_buf c0) = 64"
  shows "nm_sha256_final (fold (\<lambda>p c. nm_sha256_update c p) ps (nm_sha256_init c0)) = hsha (concat ps)"
proof -
  have "nm_sha256_final (fold (\<lambda>p c. nm_sha256_update c p) ps (nm_sha256_init c0))
      = nm_sha256_from c0 (concat ps)"
    using nms.update_concat [OF nm_init_wf [OF assms], of ps] by (simp add: nm_sha256_from_def)
  also have "\<dots> = hsha (concat ps)"
    by (simp only: nm_sha256_from_absorb [OF assms] hsha_absorb nm_compress_hblock)
  finally show ?thesis .
qed

theorem nm_sha256_pieces_witness:
  "nm_sha256_final (nm_sha256_update (nm_sha256_update (nm_sha256_init stack_ctx) [1, 2]) [3])
     = hsha [1, 2, 3]"
  using nm_sha256_pieces [of stack_ctx "[[1, 2], [3]]"] by (simp add: stack_ctx_def)

end
