(* ===== verification/Search.thy ===== *)
theory Search
  imports Prelude
begin

text \<open>
  The nonce search that the CSD and the SHA3-256t kernels share: work-item \<open>gid\<close> sweeps
  \<^verbatim>\<open>per\<close> nonces from \<^verbatim>\<open>gid * per\<close>, and every winner takes a slot from an atomic counter and
  stores its nonce there. Work-items run concurrently, so a run is given by a schedule: the
  sequence of work-items that take the next atomic step. The theorems hold for every schedule.
\<close>

subsection \<open>Model\<close>

record search_cfg =
  nonce_base :: u32
  scan_count :: u32
  per_item :: u32
  found_cap :: u32

text \<open>
  A work-item is at the head of its loop with counter \<open>j\<close>, or between its \<^verbatim>\<open>fetch_add\<close>, which
  returned \<open>slot\<close>, and the store of the nonce, or has returned.
\<close>

datatype work_item = At u32 | Put u32 u32 u32 | Done

record search_st =
  items :: "work_item list"
  found_count :: u32
  found :: "u32 list"

text \<open>\<^verbatim>\<open>(count + per - 1) / per\<close> in 32-bit arithmetic.\<close>

definition threads :: "search_cfg \<Rightarrow> u32" where
  "threads cfg = (scan_count cfg + per_item cfg - 1) div per_item cfg"

definition item_idx :: "search_cfg \<Rightarrow> nat \<Rightarrow> u32 \<Rightarrow> u32" where
  "item_idx cfg gid j = of_nat gid * per_item cfg + j"

definition item_step :: "(u32 \<Rightarrow> bool) \<Rightarrow> search_cfg \<Rightarrow> nat \<Rightarrow> search_st \<Rightarrow> search_st" where
  "item_step win cfg gid s =
     (if length (items s) \<le> gid then s
      else case items s ! gid of
        At j \<Rightarrow>
          (if \<not> j < per_item cfg then s\<lparr>items := (items s)[gid := Done]\<rparr>
           else if scan_count cfg \<le> item_idx cfg gid j then s\<lparr>items := (items s)[gid := Done]\<rparr>
           else let nonce = nonce_base cfg + item_idx cfg gid j in
             if win nonce
             then s\<lparr>items := (items s)[gid := Put j (found_count s) nonce],
                    found_count := found_count s + 1\<rparr>
             else s\<lparr>items := (items s)[gid := At (j + 1)]\<rparr>)
      | Put j slot nonce \<Rightarrow>
          s\<lparr>items := (items s)[gid := At (j + 1)],
            found := if slot < found_cap cfg then (found s)[unat slot := nonce] else found s\<rparr>
      | Done \<Rightarrow> s)"

definition launch :: "search_cfg \<Rightarrow> u32 \<Rightarrow> u32 list \<Rightarrow> search_st" where
  "launch cfg cnt fnd =
     \<lparr>items = replicate (unat (threads cfg)) (At 0), found_count = cnt, found = fnd\<rparr>"

definition run_items :: "(u32 \<Rightarrow> bool) \<Rightarrow> search_cfg \<Rightarrow> nat list \<Rightarrow> search_st \<Rightarrow> search_st" where
  "run_items win cfg sched s = fold (item_step win cfg) sched s"

definition all_done :: "search_st \<Rightarrow> bool" where
  "all_done s \<longleftrightarrow> list_all (\<lambda>it. it = Done) (items s)"

text \<open>
  The launch followed by the wait: \<open>None\<close> when the schedule stops before every work-item has
  returned, that is, when the wait does not return.
\<close>

definition run_kernel ::
    "(u32 \<Rightarrow> bool) \<Rightarrow> search_cfg \<Rightarrow> nat list \<Rightarrow> u32 \<Rightarrow> u32 list \<Rightarrow> (u32 \<times> u32 list) option" where
  "run_kernel win cfg sched cnt fnd =
     (let s = run_items win cfg sched (launch cfg cnt fnd)
      in if all_done s then Some (found_count s, found s) else None)"

subsection \<open>Bounds\<close>

text \<open>
  The configurations for which the 32-bit arithmetic of the launch does not wrap, and the array
  has room for the slots below the cap.
\<close>

definition cfg_ok :: "search_cfg \<Rightarrow> bool" where
  "cfg_ok cfg \<longleftrightarrow> per_item cfg \<noteq> 0 \<and> unat (scan_count cfg) + unat (per_item cfg) \<le> 2 ^ 32"

abbreviation nonce_at :: "search_cfg \<Rightarrow> nat \<Rightarrow> u32" where
  "nonce_at cfg k \<equiv> nonce_base cfg + of_nat k"

lemma unat_of_nat_len: "n < 2 ^ 32 \<Longrightarrow> unat (of_nat n :: u32) = n"
  by (simp add: unat_of_nat)

lemma unat_threads:
  assumes "cfg_ok cfg"
  shows "unat (threads cfg)
    = (unat (scan_count cfg) + unat (per_item cfg) - 1) div unat (per_item cfg)"
proof -
  have P: "0 < unat (per_item cfg)" using assms by (simp add: cfg_ok_def unat_gt_0)
  have "scan_count cfg + per_item cfg - 1
      = of_nat (unat (scan_count cfg) + unat (per_item cfg) - 1)"
    using P by (simp add: of_nat_diff)
  then have "unat (scan_count cfg + per_item cfg - 1)
      = unat (scan_count cfg) + unat (per_item cfg) - 1"
    using assms P unat_of_nat_len [of "unat (scan_count cfg) + unat (per_item cfg) - 1"]
    by (simp only: cfg_ok_def) linarith
  then show ?thesis by (simp add: threads_def unat_div)
qed

lemma thread_bounds:
  assumes "cfg_ok cfg" and "gid < unat (threads cfg)"
  shows "gid * unat (per_item cfg) + unat (per_item cfg) < 2 ^ 32"
    and "gid * unat (per_item cfg) < unat (scan_count cfg)"
proof -
  let ?P = "unat (per_item cfg)" and ?N = "unat (scan_count cfg)"
  have P: "0 < ?P" using assms(1) by (simp add: cfg_ok_def unat_gt_0)
  have "Suc gid * ?P \<le> (?N + ?P - 1) div ?P * ?P"
    using assms unat_threads [OF assms(1)] by (intro mult_le_mono1) simp
  also have "\<dots> \<le> ?N + ?P - 1" by (rule div_times_less_eq_dividend)
  finally have "gid * ?P + ?P \<le> ?N + ?P - 1" by simp
  then show "gid * ?P + ?P < 2 ^ 32" "gid * ?P < ?N"
    using P assms(1) unfolding cfg_ok_def by linarith+
qed

lemma unat_item_idx:
  assumes "cfg_ok cfg" and "gid < unat (threads cfg)" and "unat j \<le> unat (per_item cfg)"
  shows "unat (item_idx cfg gid j) = gid * unat (per_item cfg) + unat j"
proof -
  have "item_idx cfg gid j = of_nat (gid * unat (per_item cfg) + unat j)"
    by (simp add: item_idx_def)
  moreover have "gid * unat (per_item cfg) + unat j < 2 ^ 32"
    using thread_bounds(1) [OF assms(1,2)] assms(3) by simp
  ultimately show ?thesis by (simp only: unat_of_nat_len)
qed

lemma covered:
  assumes "cfg_ok cfg" and "k < unat (scan_count cfg)"
  shows "k div unat (per_item cfg) < unat (threads cfg)"
proof -
  let ?P = "unat (per_item cfg)" and ?N = "unat (scan_count cfg)"
  have P: "0 < ?P" using assms(1) by (simp add: cfg_ok_def unat_gt_0)
  have "k div ?P + 1 = (k + ?P) div ?P" using P by (subst div_add_self2) simp_all
  also have "\<dots> \<le> (?N + ?P - 1) div ?P" using assms(2) by (intro div_le_mono) simp
  finally show ?thesis using unat_threads [OF assms(1)] by simp
qed

lemma nonce_at_inj: "n \<le> 2 ^ 32 \<Longrightarrow> inj_on (nonce_at cfg) {..<n}"
proof (rule inj_onI)
  fix x y assume n: "n \<le> 2 ^ 32" "x \<in> {..<n}" "y \<in> {..<n}" and "nonce_at cfg x = nonce_at cfg y"
  then have "unat (of_nat x :: u32) = unat (of_nat y :: u32)" by simp
  with n show "x = y" using unat_of_nat_len [of x] unat_of_nat_len [of y] by simp
qed

subsection \<open>The invariant of a run\<close>

text \<open>
  How many of its nonces a work-item has examined, and the set of winning indices examined so
  far. The proof keeps a log of the winning indices in the order of their \<^verbatim>\<open>fetch_add\<close>: slot \<open>i\<close>
  belongs to the \<open>i\<close>-th entry.
\<close>

definition examined :: "search_cfg \<Rightarrow> work_item \<Rightarrow> nat" where
  "examined cfg it = (case it of At j \<Rightarrow> unat j | Put j _ _ \<Rightarrow> unat j + 1 | Done \<Rightarrow> unat (per_item cfg))"

definition wins :: "(u32 \<Rightarrow> bool) \<Rightarrow> search_cfg \<Rightarrow> nat set" where
  "wins win cfg = {k. k < unat (scan_count cfg) \<and> win (nonce_at cfg k)}"

definition seen_wins :: "(u32 \<Rightarrow> bool) \<Rightarrow> search_cfg \<Rightarrow> work_item list \<Rightarrow> nat set" where
  "seen_wins win cfg its = {k \<in> wins win cfg.
     k mod unat (per_item cfg) < examined cfg (its ! (k div unat (per_item cfg)))}"

definition item_ok :: "search_cfg \<Rightarrow> nat list \<Rightarrow> nat \<Rightarrow> work_item \<Rightarrow> bool" where
  "item_ok cfg log gid it \<longleftrightarrow> (case it of
     At j \<Rightarrow> unat j \<le> unat (per_item cfg)
   | Put j slot nonce \<Rightarrow> unat j < unat (per_item cfg) \<and> unat slot < length log
       \<and> log ! unat slot = gid * unat (per_item cfg) + unat j
       \<and> nonce = nonce_at cfg (log ! unat slot)
   | Done \<Rightarrow> True)"

definition slot_ok :: "search_cfg \<Rightarrow> search_st \<Rightarrow> nat list \<Rightarrow> nat \<Rightarrow> bool" where
  "slot_ok cfg s log i \<longleftrightarrow> found s ! i = nonce_at cfg (log ! i)
     \<or> (\<exists>gid < length (items s). \<exists>j n. items s ! gid = Put j (of_nat i) n)"

definition search_inv :: "(u32 \<Rightarrow> bool) \<Rightarrow> search_cfg \<Rightarrow> nat list \<Rightarrow> search_st \<Rightarrow> bool" where
  "search_inv win cfg log s \<longleftrightarrow>
     length (items s) = unat (threads cfg) \<and> unat (found_cap cfg) \<le> length (found s)
     \<and> found_count s = of_nat (length log) \<and> distinct log
     \<and> set log = seen_wins win cfg (items s)
     \<and> (\<forall>gid < length (items s). item_ok cfg log gid (items s ! gid))
     \<and> (\<forall>i < length log. i < unat (found_cap cfg) \<longrightarrow> slot_ok cfg s log i)"

lemma finite_wins: "finite (wins win cfg)" and card_wins: "card (wins win cfg) \<le> unat (scan_count cfg)"
proof -
  have sub: "wins win cfg \<subseteq> {..<unat (scan_count cfg)}" by (auto simp: wins_def)
  then show "finite (wins win cfg)" by (rule finite_subset) simp
  from card_mono [OF _ sub] show "card (wins win cfg) \<le> unat (scan_count cfg)" by simp
qed

lemma search_inv_log_short:
  assumes "cfg_ok cfg" and "search_inv win cfg log s"
  shows "length log < 2 ^ 32"
proof -
  have "length log = card (set log)" using assms(2) distinct_card [of log] by (simp add: search_inv_def)
  also have "\<dots> \<le> card (wins win cfg)"
    using assms(2) by (intro card_mono finite_wins) (auto simp: search_inv_def seen_wins_def)
  also have "\<dots> \<le> unat (scan_count cfg)" by (rule card_wins)
  also have "\<dots> < 2 ^ 32" using unsigned_less [of "scan_count cfg"] by simp
  finally show ?thesis .
qed

text \<open>How the set of examined winners moves when one work-item moves.\<close>

lemma seen_wins_update:
  assumes "gid < length its"
    and "\<And>k. k \<in> wins win cfg \<Longrightarrow> k div unat (per_item cfg) = gid \<Longrightarrow>
      (k mod unat (per_item cfg) < examined cfg it \<longleftrightarrow>
       k mod unat (per_item cfg) < examined cfg (its ! gid) \<or> k \<in> new)"
    and "\<And>k. k \<in> new \<Longrightarrow> k \<in> wins win cfg \<and> k div unat (per_item cfg) = gid"
  shows "seen_wins win cfg (its[gid := it]) = seen_wins win cfg its \<union> new"
proof (rule set_eqI)
  fix k
  show "k \<in> seen_wins win cfg (its[gid := it]) \<longleftrightarrow> k \<in> seen_wins win cfg its \<union> new"
    using assms by (cases "k div unat (per_item cfg) = gid") (auto simp: seen_wins_def nth_list_update)
qed

lemma search_inv_launch:
  assumes "cfg_ok cfg" and "unat (found_cap cfg) \<le> length fnd"
  shows "search_inv win cfg [] (launch cfg 0 fnd)"
proof -
  have "seen_wins win cfg (items (launch cfg 0 fnd)) = {}"
    using covered [OF assms(1)] by (auto simp: seen_wins_def launch_def examined_def wins_def)
  with assms show ?thesis by (simp add: search_inv_def launch_def item_ok_def)
qed

text \<open>One lemma per kind of step.\<close>

lemma seen_wins_same:
  assumes "gid < length its"
    and "\<And>k. k \<in> wins win cfg \<Longrightarrow> k div unat (per_item cfg) = gid \<Longrightarrow>
      (k mod unat (per_item cfg) < examined cfg it \<longleftrightarrow>
       k mod unat (per_item cfg) < examined cfg (its ! gid))"
  shows "seen_wins win cfg (its[gid := it]) = seen_wins win cfg its"
  using seen_wins_update [of gid its win cfg it "{}"] assms by simp

lemma slot_ok_keep:
  assumes "slot_ok cfg s log i" and "found s' ! i = found s ! i" and "log' ! i = log ! i"
    and "length (items s') = length (items s)"
    and "\<And>g j n. g < length (items s) \<Longrightarrow> items s ! g = Put j (of_nat i) n \<Longrightarrow>
      items s' ! g = Put j (of_nat i) n"
  shows "slot_ok cfg s' log' i"
  using assms unfolding slot_ok_def by metis

text \<open>A step that takes no slot: the work-item moves on and does not hold a slot afterwards.\<close>

lemma search_inv_move:
  assumes inv: "search_inv win cfg log s" and gid: "gid < length (items s)"
    and seen: "seen_wins win cfg ((items s)[gid := it]) = seen_wins win cfg (items s)"
    and it: "item_ok cfg log gid it" and at: "\<And>j slot n. items s ! gid \<noteq> Put j slot n"
  shows "search_inv win cfg log (s\<lparr>items := (items s)[gid := it]\<rparr>)"
proof -
  have "slot_ok cfg (s\<lparr>items := (items s)[gid := it]\<rparr>) log i" if "slot_ok cfg s log i" for i
    using that at gid by (elim slot_ok_keep) (auto simp: nth_list_update)
  with inv seen it gid show ?thesis by (simp add: search_inv_def nth_list_update)
qed

lemma search_inv_put:
  assumes cfg: "cfg_ok cfg" and inv: "search_inv win cfg log s" and gid: "gid < length (items s)"
    and at: "items s ! gid = Put j slot n"
  shows "search_inv win cfg log (s\<lparr>items := (items s)[gid := At (j + 1)],
    found := if slot < found_cap cfg then (found s)[unat slot := n] else found s\<rparr>)"
proof -
  let ?s = "s\<lparr>items := (items s)[gid := At (j + 1)],
    found := if slot < found_cap cfg then (found s)[unat slot := n] else found s\<rparr>"
  have ok: "item_ok cfg log gid (Put j slot n)" using inv gid at by (auto simp: search_inv_def)
  then have j1: "unat (j + 1) = unat j + 1"
    using unat_inc [of j "per_item cfg"] by (simp add: item_ok_def)
  have seen: "seen_wins win cfg ((items s)[gid := At (j + 1)]) = seen_wins win cfg (items s)"
    using gid at j1 by (intro seen_wins_same) (auto simp: examined_def)
  have "slot_ok cfg ?s log i" if i: "i < length log" "i < unat (found_cap cfg)" and s: "slot_ok cfg s log i" for i
  proof (cases "i = unat slot")
    case True
    then have "found ?s ! i = n" using i inv by (simp add: search_inv_def word_less_nat_alt)
    then show ?thesis using ok True by (simp add: slot_ok_def item_ok_def)
  next
    case False
    then have "slot \<noteq> of_nat i"
      using unat_of_nat_len [of i] search_inv_log_short [OF cfg inv] i by auto
    with s False at gid show ?thesis
      by (elim slot_ok_keep) (auto simp: nth_list_update)
  qed
  with inv seen j1 ok gid show ?thesis
    by (auto simp: search_inv_def nth_list_update item_ok_def)
qed

lemma search_inv_take:
  assumes cfg: "cfg_ok cfg" and inv: "search_inv win cfg log s" and gid: "gid < length (items s)"
    and at: "items s ! gid = At j" and j: "unat j < unat (per_item cfg)"
    and k: "k = gid * unat (per_item cfg) + unat j" "k \<in> wins win cfg"
  shows "search_inv win cfg (log @ [k]) (s\<lparr>items := (items s)[gid := Put j (found_count s) (nonce_at cfg k)],
    found_count := found_count s + 1\<rparr>)"
proof -
  let ?it = "Put j (found_count s) (nonce_at cfg k)" and ?P = "unat (per_item cfg)"
  let ?s = "s\<lparr>items := (items s)[gid := ?it], found_count := found_count s + 1\<rparr>"
  have km: "k div ?P = gid" "k mod ?P = unat j" using j k(1) by simp_all
  have new: "k \<notin> set log" using inv km at by (auto simp: search_inv_def seen_wins_def examined_def)
  have fc: "unat (found_count s) = length log"
    using search_inv_log_short [OF cfg inv] inv by (simp add: search_inv_def unat_of_nat_len)
  have seen: "seen_wins win cfg ((items s)[gid := ?it]) = seen_wins win cfg (items s) \<union> {k}"
  proof (rule seen_wins_update)
    fix k' assume "k' div ?P = gid"
    then show "(k' mod ?P < examined cfg ?it) = (k' mod ?P < examined cfg (items s ! gid) \<or> k' \<in> {k})"
      using at km by (auto simp: examined_def less_Suc_eq) (metis div_mult_mod_eq)
  qed (use gid k km in auto)
  have "item_ok cfg (log @ [k]) g (items ?s ! g)" if g: "g < length (items s)" for g
  proof (cases "g = gid")
    case True
    then show ?thesis using gid j k(1) fc by (simp add: item_ok_def)
  next
    case False
    have "item_ok cfg log g (items s ! g)" using inv g by (simp add: search_inv_def)
    with False show ?thesis by (auto simp: item_ok_def nth_append split: work_item.splits)
  qed
  moreover have "slot_ok cfg ?s (log @ [k]) i" if i: "i < Suc (length log)" "i < unat (found_cap cfg)" for i
  proof (cases "i = length log")
    case True
    then have "items ?s ! gid = Put j (of_nat i) (nonce_at cfg k)"
      using gid inv by (simp add: search_inv_def)
    then show ?thesis using gid unfolding slot_ok_def by auto
  next
    case False
    then have "slot_ok cfg s log i" using i inv by (simp add: search_inv_def)
    then show ?thesis
      using at gid False i by (elim slot_ok_keep) (auto simp: nth_append nth_list_update)
  qed
  ultimately show ?thesis using inv seen new by (simp add: search_inv_def)
qed

lemma search_inv_step:
  assumes cfg: "cfg_ok cfg" and inv: "search_inv win cfg log s"
  shows "\<exists>log'. search_inv win cfg log' (item_step win cfg gid s)"
proof (cases "gid < length (items s)")
  case False
  then show ?thesis using inv by (auto simp: item_step_def)
next
  case gid: True
  then have tid: "gid < unat (threads cfg)" using inv by (simp add: search_inv_def)
  show ?thesis
  proof (cases "items s ! gid")
    case (Put j slot n)
    then show ?thesis using search_inv_put [OF cfg inv gid Put] gid by (auto simp: item_step_def)
  next
    case Done
    then show ?thesis using inv gid by (auto simp: item_step_def)
  next
    case (At j)
    let ?P = "unat (per_item cfg)" and ?k = "gid * unat (per_item cfg) + unat j"
    have jP: "unat j \<le> ?P" using inv gid At by (auto simp: search_inv_def item_ok_def)
    have idx: "item_idx cfg gid j = of_nat ?k" by (simp add: item_idx_def)
    have uidx: "unat (item_idx cfg gid j) = ?k" by (rule unat_item_idx [OF cfg tid jP])
    have notput: "items s ! gid \<noteq> Put j' slot n" for j' slot n using At by simp
    consider (fin) "\<not> j < per_item cfg \<or> scan_count cfg \<le> item_idx cfg gid j"
      | (hit) "j < per_item cfg" "\<not> scan_count cfg \<le> item_idx cfg gid j" "win (nonce_at cfg ?k)"
      | (miss) "j < per_item cfg" "\<not> scan_count cfg \<le> item_idx cfg gid j" "\<not> win (nonce_at cfg ?k)"
      by blast
    then show ?thesis
    proof cases
      case fin
      have "seen_wins win cfg ((items s)[gid := Done]) = seen_wins win cfg (items s)"
      proof (rule seen_wins_same [OF gid])
        fix k assume k: "k \<in> wins win cfg" "k div ?P = gid"
        have "?P \<le> unat j \<or> k < ?k"
          using fin k uidx by (auto simp: wins_def word_le_nat_alt word_less_nat_alt)
        moreover have "gid * ?P + k mod ?P = k" using k div_mult_mod_eq [of k ?P] by simp
        moreover have "k mod ?P < ?P" using cfg by (simp add: cfg_ok_def unat_gt_0)
        ultimately have "k mod ?P < unat j" by linarith
        then show "(k mod ?P < examined cfg Done) = (k mod ?P < examined cfg (items s ! gid))"
          using At jP by (simp add: examined_def)
      qed
      then have "search_inv win cfg log (s\<lparr>items := (items s)[gid := Done]\<rparr>)"
        by (intro search_inv_move [OF inv gid] notput) (simp_all add: item_ok_def)
      then show ?thesis using fin gid At by (auto simp: item_step_def)
    next
      case hit
      then have "?k \<in> wins win cfg" using uidx by (simp add: wins_def word_le_nat_alt)
      from search_inv_take [OF cfg inv gid At _ refl this] hit idx show ?thesis
        using gid At by (auto simp: item_step_def word_less_nat_alt Let_def)
    next
      case miss
      then have j1: "unat (j + 1) = Suc (unat j)" by (simp add: unat_inc word_less_nat_alt)
      have "seen_wins win cfg ((items s)[gid := At (j + 1)]) = seen_wins win cfg (items s)"
      proof (rule seen_wins_same [OF gid])
        fix k assume k: "k \<in> wins win cfg" "k div ?P = gid"
        have "win (nonce_at cfg k)" using k(1) by (simp add: wins_def)
        with miss(3) have "k \<noteq> ?k" by metis
        then have "k mod ?P \<noteq> unat j" using k div_mult_mod_eq [of k ?P] by auto
        then show "(k mod ?P < examined cfg (At (j + 1))) = (k mod ?P < examined cfg (items s ! gid))"
          using At j1 by (auto simp: examined_def)
      qed
      moreover have "item_ok cfg log gid (At (j + 1))"
        using miss j1 by (simp add: item_ok_def word_less_nat_alt)
      ultimately have "search_inv win cfg log (s\<lparr>items := (items s)[gid := At (j + 1)]\<rparr>)"
        by (intro search_inv_move [OF inv gid] notput)
      then show ?thesis using miss gid At idx by (auto simp: item_step_def Let_def)
    qed
  qed
qed

lemma search_inv_run:
  assumes "cfg_ok cfg" and "search_inv win cfg log s"
  shows "\<exists>log'. search_inv win cfg log' (run_items win cfg sched s)"
  unfolding run_items_def
  by (rule fold_inv [where P = "\<lambda>s. \<exists>log. search_inv win cfg log s"])
    (use assms search_inv_step in blast)+

text \<open>When every work-item has returned, the log lists the winners and fills the array.\<close>

lemma search_inv_final:
  assumes cfg: "cfg_ok cfg" and inv: "search_inv win cfg log s" and dn: "all_done s"
  shows "set log = wins win cfg" and "found_count s = of_nat (card (wins win cfg))"
    and "i < length log \<Longrightarrow> i < unat (found_cap cfg) \<Longrightarrow> found s ! i = nonce_at cfg (log ! i)"
proof -
  let ?P = "unat (per_item cfg)"
  have done_nth: "items s ! g = Done" if "g < length (items s)" for g
    using dn that by (simp add: all_done_def list_all_length)
  have "k mod ?P < examined cfg (items s ! (k div ?P))" if "k \<in> wins win cfg" for k
    using that covered [OF cfg, of k] inv done_nth cfg
    by (simp add: wins_def search_inv_def examined_def cfg_ok_def unat_gt_0)
  then show set: "set log = wins win cfg" using inv by (auto simp: search_inv_def seen_wins_def)
  then show "found_count s = of_nat (card (wins win cfg))"
    using inv distinct_card [of log] by (auto simp: search_inv_def)
  show "found s ! i = nonce_at cfg (log ! i)" if "i < length log" "i < unat (found_cap cfg)"
  proof -
    have "slot_ok cfg s log i" using inv that by (simp add: search_inv_def)
    then show ?thesis using done_nth by (auto simp: slot_ok_def)
  qed
qed

lemma run_kernel_log:
  assumes cfg: "cfg_ok cfg" and cap: "unat (found_cap cfg) \<le> length fnd"
    and run: "run_kernel win cfg sched 0 fnd = Some (cnt, out)"
  obtains log where "distinct log" "set log = wins win cfg" "unat cnt = length log"
    "unat (found_cap cfg) \<le> length out"
    "\<And>i. i < length log \<Longrightarrow> i < unat (found_cap cfg) \<Longrightarrow> out ! i = nonce_at cfg (log ! i)"
proof -
  let ?s = "run_items win cfg sched (launch cfg 0 fnd)"
  have fin: "all_done ?s" "cnt = found_count ?s" "out = found ?s"
    using run by (auto simp: run_kernel_def Let_def split: if_splits)
  obtain log where inv: "search_inv win cfg log ?s"
    using search_inv_run [OF cfg search_inv_launch [OF cfg cap]] by blast
  have "unat cnt = length log"
    using inv fin(2) search_inv_log_short [OF cfg inv] by (simp add: search_inv_def unat_of_nat_len)
  with inv fin search_inv_final [OF cfg inv fin(1)] show ?thesis
    by (intro that [of log]) (auto simp: search_inv_def)
qed

lemma run_kernel_winners:
  assumes "cfg_ok cfg" and "unat (found_cap cfg) \<le> length fnd"
    and "run_kernel win cfg sched 0 fnd = Some (cnt, out)"
  shows "unat cnt = card (wins win cfg)"
    and "m \<le> unat cnt \<Longrightarrow> m \<le> unat (found_cap cfg) \<Longrightarrow>
      distinct (take m out) \<and> set (take m out) \<subseteq> nonce_at cfg ` wins win cfg"
    and "unat cnt \<le> unat (found_cap cfg) \<Longrightarrow> set (take (unat cnt) out) = nonce_at cfg ` wins win cfg"
proof -
  obtain log where log: "distinct log" "set log = wins win cfg" "unat cnt = length log"
      "unat (found_cap cfg) \<le> length out"
      "\<And>i. i < length log \<Longrightarrow> i < unat (found_cap cfg) \<Longrightarrow> out ! i = nonce_at cfg (log ! i)"
    using run_kernel_log [OF assms] by blast
  have out: "take m out = map (nonce_at cfg) (take m log)"
    if "m \<le> unat cnt" "m \<le> unat (found_cap cfg)" for m
    using log that by (intro nth_equalityI) auto
  have "wins win cfg \<subseteq> {..<unat (scan_count cfg)}" by (auto simp: wins_def)
  then have inj: "inj_on (nonce_at cfg) (wins win cfg)"
    using nonce_at_inj [of "unat (scan_count cfg)" cfg] assms(1) inj_on_subset
    by (auto simp: cfg_ok_def)
  show "unat cnt = card (wins win cfg)" using log(1,2,3) distinct_card [of log] by simp
  show "distinct (take m out) \<and> set (take m out) \<subseteq> nonce_at cfg ` wins win cfg"
    if m: "m \<le> unat cnt" "m \<le> unat (found_cap cfg)"
  proof -
    have sub: "set (take m log) \<subseteq> wins win cfg" using log(2) set_take_subset by fastforce
    show ?thesis
      unfolding out [OF m] distinct_map using log(1) inj_on_subset [OF inj sub] sub by auto
  qed
  show "set (take (unat cnt) out) = nonce_at cfg ` wins win cfg"
    if "unat cnt \<le> unat (found_cap cfg)"
    using that out [of "unat cnt"] log(2,3) by simp
qed

subsection \<open>Every fair schedule ends\<close>

definition item_rank :: "search_cfg \<Rightarrow> work_item \<Rightarrow> nat" where
  "item_rank cfg it = (case it of
     At j \<Rightarrow> 2 * (unat (per_item cfg) - unat j) + 1
   | Put j _ _ \<Rightarrow> 2 * (unat (per_item cfg) - unat j)
   | Done \<Rightarrow> 0)"

lemma length_item_step [simp]: "length (items (item_step win cfg gid s)) = length (items s)"
  by (simp add: item_step_def Let_def split: work_item.splits)

lemma item_step_other: "g \<noteq> gid \<Longrightarrow> items (item_step win cfg gid s) ! g = items s ! g"
  by (simp add: item_step_def Let_def split: work_item.splits)

lemma item_step_rank:
  assumes "search_inv win cfg log s" and "gid < length (items s)"
  shows "item_rank cfg (items (item_step win cfg gid s) ! gid) \<le> item_rank cfg (items s ! gid) - 1"
proof -
  have ok: "item_ok cfg log gid (items s ! gid)" using assms by (simp add: search_inv_def)
  show ?thesis
  proof (cases "items s ! gid")
    case (At j)
    then show ?thesis
      using assms(2) unat_inc [of j "per_item cfg"]
      by (auto simp: item_step_def item_rank_def Let_def word_less_nat_alt)
  next
    case (Put j slot n)
    then show ?thesis
      using assms(2) ok unat_inc [of j "per_item cfg"]
      by (auto simp: item_step_def item_rank_def item_ok_def)
  qed (use assms(2) in \<open>simp add: item_step_def item_rank_def\<close>)
qed

lemma run_items_rank:
  assumes "cfg_ok cfg" and "search_inv win cfg log s" and "gid < length (items s)"
  shows "item_rank cfg (items (run_items win cfg sched s) ! gid)
    \<le> item_rank cfg (items s ! gid) - count_list sched gid"
  using assms(2,3)
proof (induction sched arbitrary: log s)
  case Nil
  then show ?case by (simp add: run_items_def)
next
  case (Cons g sched)
  let ?s = "item_step win cfg g s"
  obtain log' where "search_inv win cfg log' ?s" using search_inv_step [OF assms(1) Cons.prems(1)] by blast
  with Cons have "item_rank cfg (items (run_items win cfg sched ?s) ! gid)
      \<le> item_rank cfg (items ?s ! gid) - count_list sched gid" by simp
  moreover have "item_rank cfg (items ?s ! gid) \<le> item_rank cfg (items s ! gid) - (if g = gid then 1 else 0)"
    using item_step_rank [OF Cons.prems] item_step_other [of gid g] by auto
  ultimately show ?case by (auto simp: run_items_def)
qed

lemma length_run_items [simp]: "length (items (run_items win cfg sched s)) = length (items s)"
  unfolding run_items_def by (rule fold_inv) auto

lemma run_items_done:
  assumes "cfg_ok cfg" and "unat (found_cap cfg) \<le> length fnd"
    and "\<forall>gid < unat (threads cfg). 2 * unat (per_item cfg) + 1 \<le> count_list sched gid"
  shows "all_done (run_items win cfg sched (launch cfg 0 fnd))"
proof -
  let ?s = "run_items win cfg sched (launch cfg 0 fnd)"
  have inv: "search_inv win cfg [] (launch cfg 0 fnd)" by (rule search_inv_launch [OF assms(1,2)])
  obtain log where log: "search_inv win cfg log ?s" using search_inv_run [OF assms(1) inv] by blast
  have "items ?s ! g = Done" if g: "g < length (items ?s)" for g
  proof -
    have g': "g < unat (threads cfg)" using g by (simp add: launch_def)
    have "item_rank cfg (items ?s ! g) \<le> item_rank cfg (At 0) - count_list sched g"
      using run_items_rank [OF assms(1) inv, of g sched] g' by (simp add: launch_def)
    then have "item_rank cfg (items ?s ! g) = 0" using assms(3) g' by (auto simp: item_rank_def)
    moreover have "item_ok cfg log g (items ?s ! g)" using log g by (simp add: search_inv_def)
    ultimately show ?thesis by (auto simp: item_rank_def item_ok_def split: work_item.splits)
  qed
  then show ?thesis by (simp add: all_done_def list_all_length)
qed

lemma run_kernel_length:
  "run_kernel win cfg sched cnt fnd = Some (c, out) \<Longrightarrow> length out = length fnd"
proof -
  have step: "length (found (item_step win cfg g s)) = length (found s)" for g s
    by (simp add: item_step_def Let_def split: work_item.splits)
  have "length (found (run_items win cfg sched s)) = length (found s)" for s
    unfolding run_items_def by (rule fold_inv) (auto simp: step)
  then show "run_kernel win cfg sched cnt fnd = Some (c, out) \<Longrightarrow> length out = length fnd"
    by (auto simp: run_kernel_def launch_def Let_def split: if_splits)
qed

subsection \<open>Targets\<close>

text \<open>
  What a kernel's comparison of a digest with a target promises: it orders them by the numbers
  they stand for. Under this contract the winners are the nonces whose digest does not exceed
  the target, and a larger target never loses a winner.
\<close>

locale share_target =
  fixes le :: "'d \<Rightarrow> 't \<Rightarrow> bool"
    and digest_ok :: "'d \<Rightarrow> bool" and target_ok :: "'t \<Rightarrow> bool"
    and digest_val :: "'d \<Rightarrow> nat" and target_val :: "'t \<Rightarrow> nat"
  assumes le_iff: "digest_ok d \<Longrightarrow> target_ok t \<Longrightarrow> le d t \<longleftrightarrow> digest_val d \<le> target_val t"
begin

lemma wins_iff:
  assumes "\<And>n. digest_ok (h n)" and "target_ok t"
  shows "wins (\<lambda>n. le (h n) t) cfg =
    {k. k < unat (scan_count cfg) \<and> digest_val (h (nonce_at cfg k)) \<le> target_val t}"
  using assms by (simp add: wins_def le_iff)

lemma wins_mono:
  assumes "\<And>n. digest_ok (h n)" and "target_ok t" "target_ok t'" and "target_val t \<le> target_val t'"
  shows "wins (\<lambda>n. le (h n) t) cfg \<subseteq> wins (\<lambda>n. le (h n) t') cfg"
  using assms by (auto simp: wins_iff)

end

subsection \<open>Properties\<close>

text \<open>
  C3. For a range whose launch arithmetic does not wrap in 32 bits (\<^const>\<open>cfg_ok\<close>: the number of nonces
  plus the share of a work-item is at most \<open>2 ^ 32\<close>) and an array with a place for every slot below
  the cap, whatever the interleaving of the work-items, a search that returns reports the exact
  number of winning nonces of the scanned range, the stored slots hold pairwise different winners,
  and when the winners fit under the cap they are exactly the stored ones.
\<close>

theorem run_kernel_reports:
  assumes "cfg_ok cfg" and "unat (found_cap cfg) \<le> length fnd"
    and "run_kernel win cfg sched 0 fnd = Some (cnt, out)"
  shows "unat cnt = card (wins win cfg)
    \<and> distinct (take (min (unat cnt) (unat (found_cap cfg))) out)
    \<and> set (take (min (unat cnt) (unat (found_cap cfg))) out) \<subseteq> nonce_at cfg ` wins win cfg
    \<and> (unat cnt \<le> unat (found_cap cfg) \<longrightarrow> set (take (unat cnt) out) = nonce_at cfg ` wins win cfg)"
  using run_kernel_winners [OF assms]
    run_kernel_winners(2) [OF assms, of "min (unat cnt) (unat (found_cap cfg))"] by simp

theorem run_kernel_reports_witness:
  "unat (2 :: u32) = card (wins (\<lambda>n. n = 5 \<or> n = 6) \<lparr>nonce_base = 4, scan_count = 3, per_item = 2, found_cap = 2\<rparr>)"
proof -
  let ?cfg = "\<lparr>nonce_base = 4, scan_count = 3, per_item = 2, found_cap = 2\<rparr> :: search_cfg"
  have "run_kernel (\<lambda>n. n = 5 \<or> n = 6) ?cfg [0, 1, 0, 1, 0, 1, 1, 0, 0, 1, 0] 0 [0, 0] = Some (2, [6, 5])"
    by code_simp
  from run_kernel_reports [OF _ _ this] show ?thesis by (simp add: cfg_ok_def)
qed

text \<open>
  C18. The search returns: a schedule in which every work-item gets at least two turns per nonce
  of its share and one more runs every work-item to its end.
\<close>

theorem run_kernel_returns:
  assumes "cfg_ok cfg" and "unat (found_cap cfg) \<le> length fnd"
    and "\<forall>gid < unat (threads cfg). 2 * unat (per_item cfg) + 1 \<le> count_list sched gid"
  shows "\<exists>cnt out. run_kernel win cfg sched 0 fnd = Some (cnt, out)"
  using run_items_done [OF assms] by (auto simp: run_kernel_def Let_def)

theorem run_kernel_returns_witness:
  "\<exists>cnt out. run_kernel (\<lambda>n. n = 5) \<lparr>nonce_base = 4, scan_count = 2, per_item = 2, found_cap = 1\<rparr>
     [0, 0, 0, 0, 0] 0 [0] = Some (cnt, out)"
  by (rule run_kernel_returns) (simp_all add: cfg_ok_def threads_def)

text \<open>
  C26. The number of work-items is computed in 32 bits: when the scanned count lies within one
  share of the end of the 32-bit range the sum wraps, no work-item is started at all, and the
  search returns at once with no winner, whatever the range contains.
\<close>

theorem run_kernel_wrap:
  assumes "2 ^ 32 < unat (scan_count cfg) + unat (per_item cfg)"
  shows "threads cfg = 0 \<and> run_kernel win cfg [] 0 fnd = Some (0, fnd)"
proof -
  let ?N = "unat (scan_count cfg)" and ?P = "unat (per_item cfg)"
  have lt: "?N < 2 ^ 32" "?P < 2 ^ 32" using unsigned_less [of "scan_count cfg"] unsigned_less [of "per_item cfg"] by simp_all
  have "unat (scan_count cfg + per_item cfg) = ?N + ?P - 2 ^ 32"
    using assms lt by (simp add: unat_word_ariths le_mod_geq)
  moreover from this have "scan_count cfg + per_item cfg \<noteq> 0" using assms by (auto simp: unat_eq_zero)
  ultimately have "unat (scan_count cfg + per_item cfg - 1) = ?N + ?P - 2 ^ 32 - 1"
    by (simp add: unat_minus_one)
  moreover have "?N + ?P - 2 ^ 32 - 1 < ?P" using assms lt by linarith
  ultimately have "threads cfg = 0"
    by (simp only: threads_def word_unat_eq_iff unat_div div_less unsigned_0)
  then show ?thesis by (simp add: run_kernel_def run_items_def launch_def all_done_def)
qed

theorem run_kernel_wrap_witness:
  "threads \<lparr>nonce_base = 0, scan_count = 0xFFFFFFFF, per_item = 8, found_cap = 4096\<rparr> = 0"
  using run_kernel_wrap [of "\<lparr>nonce_base = 0, scan_count = 0xFFFFFFFF, per_item = 8, found_cap = 4096\<rparr>"]
  by simp

end
