(* ===== verification/Csd.thy ===== *)
theory Csd
  imports Sha256 Search
begin

text \<open>
  The SHA-256d kernel of \<^verbatim>\<open>csd-sha256d/csd_sha256d.hpp\<close>: 64 rounds over a rolling window of
  sixteen schedule words, the double hash of an 84-byte header from the midstate of its first
  block, and the comparison of a digest with the share target. The rolling schedule is proved
  equal to the 64-word schedule, and the kernel's digest to the host reference for every header.
\<close>

subsection \<open>The kernel\<close>

definition kK :: "u32 list" where
  "kK = [
    1116352408, 1899447441, 3049323471, 3921009573, 961987163, 1508970993, 2453635748, 2870763221,
    3624381080, 310598401, 607225278, 1426881987, 1925078388, 2162078206, 2614888103, 3248222580,
    3835390401, 4022224774, 264347078, 604807628, 770255983, 1249150122, 1555081692, 1996064986,
    2554220882, 2821834349, 2952996808, 3210313671, 3336571891, 3584528711, 113926993, 338241895,
    666307205, 773529912, 1294757372, 1396182291, 1695183700, 1986661051, 2177026350, 2456956037,
    2730485921, 2820302411, 3259730800, 3345764771, 3516065817, 3600352804, 4094571909, 275423344,
    430227734, 506948616, 659060556, 883997877, 958139571, 1322822218, 1537002063, 1747873779,
    1955562222, 2024104815, 2227730452, 2361852424, 2428436474, 2756734187, 3204031479, 3329325298]"

definition rotr :: "u32 \<Rightarrow> nat \<Rightarrow> u32" where
  "rotr x n = drop_bit n x OR push_bit (32 - n) x"

text \<open>The schedule part of a round: \<^verbatim>\<open>i & 15\<close> is \<open>i mod 16\<close> on the non-negative counter.\<close>

definition roll_schedule :: "nat \<Rightarrow> u32 list \<Rightarrow> u32 list" where
  "roll_schedule i w =
     (if 16 \<le> i then
        let w15 = w ! ((i + 1) mod 16); w2 = w ! ((i + 14) mod 16);
            s0 = rotr w15 7 XOR rotr w15 18 XOR drop_bit 3 w15;
            s1 = rotr w2 17 XOR rotr w2 19 XOR drop_bit 10 w2
        in w[i mod 16 := w ! (i mod 16) + (s0 + w ! ((i + 9) mod 16) + s1)]
      else w)"

fun csd_round :: "nat \<Rightarrow> sha_vars \<times> u32 list \<Rightarrow> sha_vars \<times> u32 list" where
  "csd_round i ((a, b, c, d, e, f, g, h), w0) =
     (let w = roll_schedule i w0;
          S1 = rotr e 6 XOR rotr e 11 XOR rotr e 25;
          ch = (e AND f) XOR (NOT e AND g);
          t1 = h + S1 + ch + kK ! i + w ! (i mod 16);
          S0 = rotr a 2 XOR rotr a 13 XOR rotr a 22;
          maj = (a AND b) XOR (a AND c) XOR (b AND c);
          t2 = S0 + maj
      in ((t1 + t2, a, b, c, d + t1, e, f, g), w))"

text \<open>\<^verbatim>\<open>rounds\<close> updates both of its array arguments in place.\<close>

definition rounds :: "u32 list \<Rightarrow> u32 list \<Rightarrow> u32 list \<times> u32 list" where
  "rounds st w =
     (case fold csd_round [0..<64] (sha_vars_of st, w) of (v, w') \<Rightarrow> (sha_add st v, w'))"

definition sha256d_tail :: "u32 list \<Rightarrow> u32 list \<Rightarrow> u32 \<Rightarrow> u32 list" where
  "sha256d_tail mid tail5 nonce =
     (let w = [tail5 ! 0, tail5 ! 1, tail5 ! 2, tail5 ! 3, nonce, 0x80000000,
               0, 0, 0, 0, 0, 0, 0, 0, 0, 672];
          st = fst (rounds mid w);
          w2 = map (\<lambda>i. st ! i) [0..<8] @ [0x80000000] @ replicate 6 0 @ [256];
          st2 = [0x6a09e667, 0xbb67ae85, 0x3c6ef372, 0xa54ff53a,
                 0x510e527f, 0x9b05688c, 0x1f83d9ab, 0x5be0cd19]
      in fst (rounds st2 w2))"

text \<open>The comparison loop, with its two early returns, from word \<open>i\<close> on.\<close>

function le_target_from :: "nat \<Rightarrow> u32 list \<Rightarrow> u32 list \<Rightarrow> bool" where
  "le_target_from i h t =
     (if i < 8 then
        if h ! i < t ! i then True
        else if h ! i > t ! i then False
        else le_target_from (Suc i) h t
      else True)"
  by pat_completeness auto
termination
  by (relation "measure (\<lambda>(i, h, t). 8 - i)") auto

declare le_target_from.simps [simp del]

definition le_target :: "u32 list \<Rightarrow> u32 list \<Rightarrow> bool" where
  "le_target h t = le_target_from 0 h t"

text \<open>The inputs the gate program and the managed host derive from a header.\<close>

definition be :: "u8 list \<Rightarrow> nat \<Rightarrow> u32" where
  "be p off = push_bit 24 (ucast (p ! off)) OR push_bit 16 (ucast (p ! (off + 1)))
     OR push_bit 8 (ucast (p ! (off + 2))) OR ucast (p ! (off + 3))"

definition gate_mid :: "u8 list \<Rightarrow> u32 list" where
  "gate_mid hdr = hblock sha_iv hdr"

definition gate_tail :: "u8 list \<Rightarrow> u32 list" where
  "gate_tail hdr = [be hdr 64, be hdr 68, be hdr 72, be hdr 76, 0]"

subsection \<open>The rolling schedule\<close>

lemma rotr_rr: "rotr = rr"
  by (simp add: fun_eq_iff rotr_def rr_def)

lemma kK_HK: "kK = HK"
  by (simp add: kK_def HK_def)

lemma sha_expand_props:
  assumes "length ws = 16"
  shows "length (sha_expand ws) = 64"
    and "i < 16 \<Longrightarrow> sha_expand ws ! i = ws ! i"
    and "16 \<le> i \<Longrightarrow> i < 64 \<Longrightarrow> sha_expand ws ! i = sha_next i (sha_expand ws)"
proof -
  note loop = append_loop [where ini = ws and a = 16 and b = 64 and g = sha_next, OF assms, folded sha_expand_def]
  show "length (sha_expand ws) = 64" using loop(1) by simp
  show "sha_expand ws ! i = ws ! i" if "i < 16"
    using loop(2) that nth_take [of i 16 "sha_expand ws"] by simp
  show "sha_expand ws ! i = sha_next i (sha_expand ws)" if "16 \<le> i" "i < 64"
    using loop(3) [of i] that by (simp add: sha_next_def)
qed

text \<open>Before round \<open>i\<close> the window holds the latest sixteen schedule words.\<close>

definition window :: "u32 list \<Rightarrow> nat \<Rightarrow> u32 list \<Rightarrow> bool" where
  "window W i w \<longleftrightarrow> length w = 16 \<and>
     (\<forall>j < 64. (j < 16 \<or> j < i) \<longrightarrow> i \<le> j + 16 \<longrightarrow> w ! (j mod 16) = W ! j)"

lemma window_nth: "window W i w \<Longrightarrow> j < 64 \<Longrightarrow> j < 16 \<or> j < i \<Longrightarrow> i \<le> j + 16 \<Longrightarrow> w ! (j mod 16) = W ! j"
  unfolding window_def by blast

lemma roll_schedule_word:
  assumes W: "\<And>i. 16 \<le> i \<Longrightarrow> i < 64 \<Longrightarrow> W ! i = sha_next i W"
    and w: "window W i w" and i: "16 \<le> i" "i < 64"
  shows "roll_schedule i w = w[i mod 16 := W ! i]"
proof -
  define k where "k = i - 16"
  have k: "i = k + 16" using i by (simp add: k_def)
  have "(k + 17) mod 16 = (k + 1) mod 16" "(k + 30) mod 16 = (k + 14) mod 16"
    "(k + 25) mod 16 = (k + 9) mod 16" "(k + 16) mod 16 = k mod 16"
    using mod_add_self2 [of "k + 1" 16] mod_add_self2 [of "k + 14" 16] mod_add_self2 [of "k + 9" 16]
    by (simp_all add: add.commute)
  moreover have "w ! (k mod 16) = W ! k" "w ! ((k + 1) mod 16) = W ! (k + 1)"
    "w ! ((k + 9) mod 16) = W ! (k + 9)" "w ! ((k + 14) mod 16) = W ! (k + 14)"
    using i k window_nth [OF w, of k] window_nth [OF w, of "k + 1"]
      window_nth [OF w, of "k + 9"] window_nth [OF w, of "k + 14"] by auto
  ultimately show ?thesis
    using W [OF i] k
    by (simp add: roll_schedule_def sha_next_def Let_def rotr_rr ac_simps)
qed

lemma window_step:
  assumes W: "\<And>i. 16 \<le> i \<Longrightarrow> i < 64 \<Longrightarrow> W ! i = sha_next i W" and w: "window W i w" and i: "i < 64"
  shows "window W (Suc i) (roll_schedule i w) \<and> roll_schedule i w ! (i mod 16) = W ! i"
proof (cases "16 \<le> i")
  case False
  then have "roll_schedule i w = w" by (simp add: roll_schedule_def)
  moreover have "window W (Suc i) w" using w False by (auto simp: window_def)
  ultimately show ?thesis using window_nth [OF w, of i] i False by simp
next
  case True
  have eq: "roll_schedule i w = w[i mod 16 := W ! i]" by (rule roll_schedule_word [OF W w True i])
  have len: "length w = 16" using w by (simp add: window_def)
  have *: "w[i mod 16 := W ! i] ! (j mod 16) = W ! j"
    if "j < 64" "j < Suc i" "Suc i \<le> j + 16" for j
  proof (cases "j = i")
    case False
    with that have "j mod 16 \<noteq> i mod 16"
      using mod_eq_dvd_iff_nat [of j i 16] nat_dvd_not_less [of "i - j" 16] by auto
    then show ?thesis using window_nth [OF w, of j] that False by simp
  qed (simp add: len)
  have "window W (Suc i) (w[i mod 16 := W ! i])"
    unfolding window_def
  proof (intro conjI allI impI)
    fix j assume "j < 64" "j < 16 \<or> j < Suc i" "Suc i \<le> j + 16"
    with True * [of j] show "w[i mod 16 := W ! i] ! (j mod 16) = W ! j" by linarith
  qed (simp add: len)
  then show ?thesis by (simp add: eq len)
qed

lemma rounds_words:
  assumes "length w = 16"
  shows "fst (rounds st w) = sha_block_words st w"
proof -
  let ?W = "sha_expand w"
  note W = sha_expand_props [OF assms]
  have "(\<lambda>i (p :: sha_vars \<times> u32 list) v. fst p = v \<and> window ?W i (snd p)) 64
      (fold csd_round [0..<64] (sha_vars_of st, w)) (fold (hround ?W) [0..<64] (sha_vars_of st))"
  proof (rule fold_upt_rel)
    fix i :: nat and p :: "sha_vars \<times> u32 list" and v
    assume i: "i < 64" and "fst p = v \<and> window ?W i (snd p)"
    then obtain u where p: "p = (v, u)" and u: "window ?W i u" by (metis prod.collapse)
    show "fst (csd_round i p) = hround ?W i v \<and> window ?W (Suc i) (snd (csd_round i p))"
      using window_step [OF W(3) u i] unfolding p
      by (cases v rule: sha_vars_cases) (simp add: rotr_rr kK_HK Let_def)
  qed (use assms W(2) in \<open>auto simp: window_def\<close>)
  then show ?thesis
    by (simp only: rounds_def sha_block_words_def case_prod_beta fst_conv)
qed

subsection \<open>The kernel against the host reference\<close>

lemma be_chunk: "4 * Suc i \<le> length p \<Longrightarrow> be p (4 * i) = be_word (chunk 4 i p)"
  by (simp only: be_def chunk_4 be_word_4)

text \<open>A message whose padded form is one or two explicit blocks of words.\<close>

lemma absorb_one_block:
  assumes "length bs = 16" and "\<And>x. x \<in> set bs \<Longrightarrow> length x = 4"
  shows "fst (absorb hblock 64 st (concat bs)) = sha_block_words st (map be_word bs)"
proof -
  have len: "length (concat bs) = 64" using assms length_concat_const [of bs 4] by simp
  have "fst (absorb hblock 64 st (concat bs @ [])) = hblock st (concat bs)"
    using len by (subst absorb_block) auto
  then show ?thesis using len assms by (simp add: hblock_words block_words_concat)
qed

lemma zeros_23: "replicate 23 (0 :: u8)
    = [0, 0, 0, 0, 0, 0, 0, 0, 0, 0, 0, 0, 0, 0, 0, 0, 0, 0, 0, 0, 0, 0, 0]"
  by (simp add: numeral_eq_Suc)

lemma zeros_35: "replicate 35 (0 :: u8)
    = [0, 0, 0, 0, 0, 0, 0, 0, 0, 0, 0, 0, 0, 0, 0, 0, 0, 0, 0, 0, 0, 0, 0,
       0, 0, 0, 0, 0, 0, 0, 0, 0, 0, 0, 0]"
  by (simp add: numeral_eq_Suc)

lemma sha256_of_words:
  assumes "length ws = 8"
  shows "hsha (concat (map (be_bytes 4) ws)) = concat (map (be_bytes 4)
    (sha_block_words sha_iv (ws @ [0x80000000, 0, 0, 0, 0, 0, 0, 256])))"
proof -
  let ?m = "concat (map (be_bytes 4) ws)"
  have len: "length ?m = 32" using assms by (simp add: length_concat comp_def sum_list_triv)
  have "be_bytes 8 (256 :: u64) = [0, 0, 0, 0] @ [0, 0, 1, 0]"
    by (simp add: be_bytes_8 upt_rec)
  then have pad: "sha_padded ?m = concat (map (be_bytes 4) ws @
      [[0x80, 0, 0, 0], [0, 0, 0, 0], [0, 0, 0, 0], [0, 0, 0, 0], [0, 0, 0, 0], [0, 0, 0, 0],
       [0, 0, 0, 0], [0, 0, 1, 0]])"
    by (simp add: sha_padded_def len pad_dist_def zeros_23)
  have "fst (absorb hblock 64 sha_iv (sha_padded ?m))
      = sha_block_words sha_iv (ws @ [0x80000000, 0, 0, 0, 0, 0, 0, 256])"
    unfolding pad using assms
    by (subst absorb_one_block) (auto simp: comp_def be_word_4)
  then show ?thesis by (simp add: hsha_digest)
qed

lemma hsha_header:
  assumes "length hdr = 84"
  shows "hsha hdr = concat (map (be_bytes 4) (sha_block_words (hblock sha_iv hdr)
    [be hdr 64, be hdr 68, be hdr 72, be hdr 76, be hdr 80, 0x80000000, 0, 0, 0, 0, 0, 0, 0, 0, 0, 672]))"
proof -
  let ?c = "\<lambda>i. chunk 4 i hdr"
  have "be_bytes 8 (672 :: u64) = [0, 0, 0, 0] @ [0, 0, 2, 160]"
    by (simp add: be_bytes_8 upt_rec)
  moreover have "hdr = take 64 hdr @ ?c 16 @ ?c 17 @ ?c 18 @ ?c 19 @ ?c 20"
    using assms append_take_drop_id [of 4 "drop 64 hdr"] append_take_drop_id [of 4 "drop 68 hdr"]
      append_take_drop_id [of 4 "drop 72 hdr"] append_take_drop_id [of 4 "drop 76 hdr"]
      append_take_drop_id [of 64 hdr]
    by (simp add: chunk_def)
  ultimately have pad: "sha_padded hdr = take 64 hdr @ concat ([?c 16, ?c 17, ?c 18, ?c 19, ?c 20] @
      [[0x80, 0, 0, 0], [0, 0, 0, 0], [0, 0, 0, 0], [0, 0, 0, 0], [0, 0, 0, 0], [0, 0, 0, 0],
       [0, 0, 0, 0], [0, 0, 0, 0], [0, 0, 0, 0], [0, 0, 0, 0], [0, 0, 2, 160]])"
    using assms by (simp add: sha_padded_def pad_dist_def zeros_35)
  have be: "be hdr 64 = be_word (?c 16)" "be hdr 68 = be_word (?c 17)" "be hdr 72 = be_word (?c 18)"
    "be hdr 76 = be_word (?c 19)" "be hdr 80 = be_word (?c 20)"
    using assms be_chunk [of 16 hdr] be_chunk [of 17 hdr] be_chunk [of 18 hdr] be_chunk [of 19 hdr]
      be_chunk [of 20 hdr] by simp_all
  have "fst (absorb hblock 64 sha_iv (sha_padded hdr)) = sha_block_words (hblock sha_iv hdr)
    [be hdr 64, be hdr 68, be hdr 72, be hdr 76, be hdr 80, 0x80000000, 0, 0, 0, 0, 0, 0, 0, 0, 0, 672]"
    unfolding pad using assms
    by (subst absorb_block, simp, simp, subst absorb_one_block)
      (auto simp: be_word_4 hblock_take be length_chunk)
  then show ?thesis by (simp add: hsha_digest)
qed

lemma sha256d_tail_words:
  assumes "length hdr = 84"
  shows "concat (map (be_bytes 4) (sha256d_tail (gate_mid hdr) (gate_tail hdr) (be hdr 80))) = hsha_d hdr"
proof -
  define ws where "ws = sha_block_words (gate_mid hdr)
    [be hdr 64, be hdr 68, be hdr 72, be hdr 76, be hdr 80, 0x80000000, 0, 0, 0, 0, 0, 0, 0, 0, 0, 672]"
  have ws: "hsha hdr = concat (map (be_bytes 4) ws)" "length ws = 8"
    using hsha_header [OF assms] by (simp_all add: ws_def gate_mid_def)
  have "map (\<lambda>i. ws ! i) [0..<8] = ws" using map_nth [of ws] ws(2) by simp
  moreover have "replicate 6 (0 :: u32) = [0, 0, 0, 0, 0, 0]" by (simp add: numeral_eq_Suc)
  ultimately have "sha256d_tail (gate_mid hdr) (gate_tail hdr) (be hdr 80)
      = sha_block_words sha_iv (ws @ [0x80000000, 0, 0, 0, 0, 0, 0, 256])"
    using ws(2) by (simp add: sha256d_tail_def gate_tail_def rounds_words ws_def [symmetric] sha_iv_def Let_def)
  then show ?thesis using sha256_of_words [OF ws(2)] ws(1) by (simp add: hsha_d_def)
qed

lemma length_sha256d_tail [simp, len_simps]:
  "length (sha256d_tail mid tail5 nonce) = 8"
proof -
  have "length (fst (rounds st w)) = 8" for st w
    by (simp add: rounds_def split: prod.splits del: sha_add.simps)
  then show ?thesis by (simp add: sha256d_tail_def Let_def)
qed

subsection \<open>The target comparison\<close>

lemma le_target_from_drop:
  "length h = 8 \<Longrightarrow> length t = 8 \<Longrightarrow> i \<le> 8 \<Longrightarrow>
   le_target_from i h t \<longleftrightarrow> big_val (drop i h) \<le> big_val (drop i t)"
proof (induction "8 - i" arbitrary: i)
  case 0
  then show ?case by (subst le_target_from.simps) simp
next
  case (Suc n)
  then have i: "i < 8" by simp
  have "drop i h = h ! i # drop (Suc i) h" "drop i t = t ! i # drop (Suc i) t"
    using i Suc.prems by (simp_all add: Cons_nth_drop_Suc)
  moreover have "le_target_from (Suc i) h t \<longleftrightarrow> big_val (drop (Suc i) h) \<le> big_val (drop (Suc i) t)"
    using Suc i by simp
  ultimately show ?case
    using i Suc.prems big_val_Cons_le [of "drop (Suc i) h" "drop (Suc i) t" "h ! i" "t ! i"]
    by (auto simp: le_target_from.simps [of i] simp del: big_val.simps)
qed

interpretation csd_target: share_target le_target "\<lambda>h. length h = 8" "\<lambda>t. length t = 8" big_val big_val
  by unfold_locales (simp add: le_target_def le_target_from_drop)

text \<open>The kernel of \<^verbatim>\<open>run_search\<close> on a job, as the shared search runs it.\<close>

definition kNoncesPerThread :: u32 where
  "kNoncesPerThread = 8"

definition csd_win :: "u32 list \<Rightarrow> u32 list \<Rightarrow> u32 list \<Rightarrow> u32 \<Rightarrow> bool" where
  "csd_win mid tail5 target nonce = le_target (sha256d_tail mid tail5 nonce) target"

definition csd_run_search ::
    "nat list \<Rightarrow> u32 list \<Rightarrow> u32 list \<Rightarrow> u32 list \<Rightarrow> u32 \<Rightarrow> u32 \<Rightarrow> u32 list \<Rightarrow> u32 \<Rightarrow> u32
     \<Rightarrow> (u32 \<times> u32 list) option" where
  "csd_run_search sched mid tail5 target base count found_out cap found_cnt =
     run_kernel (csd_win mid tail5 target)
       \<lparr>nonce_base = base, scan_count = count, per_item = kNoncesPerThread, found_cap = cap\<rparr>
       sched found_cnt found_out"

text \<open>The header with a nonce in the big-endian word form the kernel counts in.\<close>

definition with_nonce :: "u8 list \<Rightarrow> u32 \<Rightarrow> u8 list" where
  "with_nonce hdr n = take 80 hdr @ be_bytes 4 n"

lemma with_nonce:
  assumes "length hdr = 84"
  shows "length (with_nonce hdr n) = 84" "gate_mid (with_nonce hdr n) = gate_mid hdr"
    "gate_tail (with_nonce hdr n) = gate_tail hdr" "be (with_nonce hdr n) 80 = n"
proof -
  show len: "length (with_nonce hdr n) = 84" using assms by (simp add: with_nonce_def)
  have "hblock sha_iv (take 64 (with_nonce hdr n)) = hblock sha_iv (take 64 hdr)"
    using assms by (simp add: with_nonce_def)
  then show "gate_mid (with_nonce hdr n) = gate_mid hdr"
    using assms len by (simp add: gate_mid_def hblock_take)
  have nth: "with_nonce hdr n ! i = hdr ! i" if "i < 80" for i
    using assms that by (simp add: with_nonce_def nth_append)
  then show "gate_tail (with_nonce hdr n) = gate_tail hdr"
    by (simp add: gate_tail_def be_def)
  have "be (with_nonce hdr n) (4 * 20) = be_word (chunk 4 20 (with_nonce hdr n))"
    using len by (intro be_chunk) simp
  moreover have "chunk 4 20 (with_nonce hdr n) = be_bytes 4 n"
    using assms by (simp add: chunk_def with_nonce_def)
  ultimately show "be (with_nonce hdr n) 80 = n" by simp
qed

lemma csd_win_iff:
  assumes "length hdr = 84" and "length target = 8"
  shows "csd_win (gate_mid hdr) (gate_tail hdr) target n
    \<longleftrightarrow> big_val (hsha_d (with_nonce hdr n)) \<le> big_val target"
proof -
  note wn = with_nonce [OF assms(1), of n]
  have eq: "concat (map (be_bytes 4) (sha256d_tail (gate_mid hdr) (gate_tail hdr) n)) = hsha_d (with_nonce hdr n)"
    using sha256d_tail_words [OF wn(1)] wn by simp
  have "big_val (hsha_d (with_nonce hdr n)) = big_val (sha256d_tail (gate_mid hdr) (gate_tail hdr) n)"
    by (simp add: big_val_concat_be_bytes flip: eq)
  then show ?thesis using csd_target.le_iff assms(2) by (simp add: csd_win_def)
qed

subsection \<open>Properties\<close>

text \<open>
  C4. For every 84-byte header the GPU kernel, started from the midstate of the first block and
  the tail words, returns the words of the reference double SHA-256 of the header: the statement
  that the gate program samples on 64 random headers.
\<close>

theorem csd_kernel_correct:
  assumes "length hdr = 84"
  shows "concat (map (be_bytes 4) (sha256d_tail (gate_mid hdr) (gate_tail hdr) (be hdr 80))) = hsha_d hdr"
  by (rule sha256d_tail_words [OF assms])

theorem csd_kernel_correct_witness:
  "concat (map (be_bytes 4) (sha256d_tail (gate_mid (replicate 84 3)) (gate_tail (replicate 84 3))
     (be (replicate 84 3) 80))) = hsha_d (replicate 84 3)"
  by (rule csd_kernel_correct) simp

end
