(* ===== verification/Gpu_Capi.thy ===== *)
theory Gpu_Capi
  imports Csd
begin

text \<open>
  The C interface of the CSD miner, \<^verbatim>\<open>csd_capi.cpp\<close>: the choice among the devices the SYCL runtime
  lists, opening and closing a device, and the search call with its error codes. The SYCL
  runtime is not part of the sources: what it answers is the argument \<open>rt\<close> of the operations.
  Shared-memory allocations carry an identity, so that what is released can be followed.
\<close>

subsection \<open>The SYCL runtime as the code uses it\<close>

text \<open>A runtime call returns or throws an exception with a message.\<close>

datatype 'a sycl = Ret 'a | Throw string

record gpu_dev =
  dev_level_zero :: bool
  dev_platform :: string
  dev_name :: string

text \<open>
  \<open>rt_devices\<close>: \<^verbatim>\<open>device::get_devices(gpu)\<close>. \<open>rt_queue\<close>: building the context and the in-order
  queue of a device. \<open>rt_malloc\<close>: what the \<open>n\<close>-th \<^verbatim>\<open>malloc_shared\<close> of the process does: it allocates
  (\<open>Ret True\<close>), returns a null pointer (\<open>Ret False\<close>) or throws. \<open>rt_fresh\<close>: contents of new memory.
  \<open>rt_launch\<close>: whether submitting the kernel throws. \<open>rt_sched\<close>: the order in which the work-items
  of a launch take their steps. \<open>rt_async\<close>: the exceptions the asynchronous handler is given while
  the search waits. \<open>rt_wait\<close>: whether the waits throw, which can happen before the work-items end.
\<close>

record sycl_rt =
  rt_devices :: "gpu_dev list sycl"
  rt_queue :: "gpu_dev \<Rightarrow> unit sycl"
  rt_malloc :: "nat \<Rightarrow> bool sycl"
  rt_fresh :: "nat \<Rightarrow> u32"
  rt_launch :: "unit sycl"
  rt_sched :: "search_cfg \<Rightarrow> nat list"
  rt_async :: "string list"
  rt_wait :: "unit sycl"

subsection \<open>State\<close>

record usm_heap =
  usm_next :: nat
  usm_live :: "nat list"

record gpu_ctx =
  ctx_dev :: gpu_dev
  device_name :: string
  d_found :: "(nat \<times> u32 list) option"
  d_count :: "(nat \<times> u32) option"

record capi_st =
  g_ctx :: "gpu_ctx option"
  g_last_error :: string
  g_async_failed :: bool
  g_async_error :: string
  usm :: usm_heap

definition kFoundCap :: u32 where
  "kFoundCap = 4096"

definition malloc_shared :: "sycl_rt \<Rightarrow> usm_heap \<Rightarrow> nat option sycl \<times> usm_heap" where
  "malloc_shared rt h =
     (let n = usm_next h; h1 = h\<lparr>usm_next := Suc n\<rparr>
      in case rt_malloc rt n of
           Throw what \<Rightarrow> (Throw what, h1)
         | Ret ok \<Rightarrow> if ok then (Ret (Some n), h1\<lparr>usm_live := n # usm_live h\<rparr>) else (Ret None, h1))"

definition usm_free :: "nat \<Rightarrow> usm_heap \<Rightarrow> usm_heap" where
  "usm_free a h = h\<lparr>usm_live := removeAll a (usm_live h)\<rparr>"

text \<open>\<^verbatim>\<open>Ctx::ensure\<close> and \<^verbatim>\<open>Ctx::free_all\<close>.\<close>

definition ensure :: "sycl_rt \<Rightarrow> gpu_ctx \<Rightarrow> usm_heap \<Rightarrow> unit sycl \<times> gpu_ctx \<times> usm_heap" where
  "ensure rt c h =
     (if d_found c \<noteq> None then (Ret (), c, h)
      else case malloc_shared rt h of
             (Throw what, h) \<Rightarrow> (Throw what, c, h)
           | (Ret p, h) \<Rightarrow>
               (let c = c\<lparr>d_found := map_option (\<lambda>a. (a, map (rt_fresh rt) [0..<unat kFoundCap])) p\<rparr>
                in case malloc_shared rt h of
                     (Throw what, h) \<Rightarrow> (Throw what, c, h)
                   | (Ret q, h) \<Rightarrow> (Ret (), c\<lparr>d_count := map_option (\<lambda>a. (a, rt_fresh rt 0)) q\<rparr>, h)))"

definition free_all :: "gpu_ctx \<Rightarrow> usm_heap \<Rightarrow> gpu_ctx \<times> usm_heap" where
  "free_all c h =
     (let h1 = (case d_found c of Some (a, _) \<Rightarrow> usm_free a h | None \<Rightarrow> h);
          h2 = (case d_count c of Some (a, _) \<Rightarrow> usm_free a h1 | None \<Rightarrow> h1)
      in (c\<lparr>d_found := None, d_count := None\<rparr>, h2))"

definition AsyncErrorHandler :: "string list \<Rightarrow> capi_st \<Rightarrow> capi_st" where
  "AsyncErrorHandler errs st = fold (\<lambda>what st.
     st\<lparr>g_async_failed := True,
        g_async_error := (if g_async_error st \<noteq> [] then g_async_error st @ ''; '' else g_async_error st) @ what\<rparr>)
     errs st"

subsection \<open>Devices\<close>

text \<open>\<^verbatim>\<open>s.find(pat) != npos\<close>.\<close>

definition contains :: "string \<Rightarrow> string \<Rightarrow> bool" where
  "contains pat s = list_ex (\<lambda>i. take (length pat) (drop i s) = pat) [0..<Suc (length s)]"

definition is_translation_layer :: "gpu_dev \<Rightarrow> bool" where
  "is_translation_layer d \<longleftrightarrow>
     contains ''OpenCLOn12'' (dev_platform d) \<or> contains ''D3D12'' (dev_platform d)"

definition gpu_devices :: "gpu_dev list \<Rightarrow> gpu_dev list" where
  "gpu_devices raw =
     (let (lz, real) = fold (\<lambda>d (lz, real).
            (if dev_level_zero d then lz @ [d] else lz,
             if \<not> is_translation_layer d then real @ [d] else real)) raw ([], [])
      in if lz \<noteq> [] then lz else if real \<noteq> [] then real else raw)"

definition device_count :: "sycl_rt \<Rightarrow> int" where
  "device_count rt = (case rt_devices rt of
     Ret raw \<Rightarrow> int (length (gpu_devices raw)) | Throw _ \<Rightarrow> 0)"

definition device_name_at :: "sycl_rt \<Rightarrow> int \<Rightarrow> string" where
  "device_name_at rt index = (case rt_devices rt of
     Ret raw \<Rightarrow> (let gpus = gpu_devices raw in
       if 0 \<le> index \<and> index < int (length gpus) then dev_name (gpus ! nat index) else [])
   | Throw _ \<Rightarrow> [])"

text \<open>\<^verbatim>\<open>std::to_string\<close> on a size.\<close>

fun to_string :: "nat \<Rightarrow> string" where
  "to_string n =
     (if n < 10 then [char_of (48 + n)] else to_string (n div 10) @ [char_of (48 + n mod 10)])"

declare to_string.simps [simp del]

subsection \<open>Open and close\<close>

definition capi_open :: "sycl_rt \<Rightarrow> int \<Rightarrow> capi_st \<Rightarrow> int \<times> capi_st" where
  "capi_open rt device_index st =
     (case rt_devices rt of
        Throw what \<Rightarrow> (-3, st\<lparr>g_last_error := what, g_ctx := None\<rparr>)
      | Ret raw \<Rightarrow>
          (let gpus = gpu_devices raw in
           if gpus = [] then (-1, st\<lparr>g_last_error := ''no SYCL GPU devices''\<rparr>)
           else if device_index < 0 \<or> int (length gpus) \<le> device_index then
             (-2, st\<lparr>g_last_error :=
                ''device index out of range ('' @ to_string (length gpus) @ '' GPUs)''\<rparr>)
           else let dev = gpus ! nat device_index in
             case rt_queue rt dev of
               Throw what \<Rightarrow> (-3, st\<lparr>g_last_error := what, g_ctx := None\<rparr>)
             | Ret _ \<Rightarrow> (0, st\<lparr>g_ctx := Some \<lparr>ctx_dev = dev, device_name = dev_name dev,
                                              d_found = None, d_count = None\<rparr>\<rparr>)))"

definition capi_device_name :: "capi_st \<Rightarrow> string" where
  "capi_device_name st = (case g_ctx st of Some c \<Rightarrow> device_name c | None \<Rightarrow> [])"

definition capi_close :: "capi_st \<Rightarrow> capi_st" where
  "capi_close st = (case g_ctx st of
     Some c \<Rightarrow> st\<lparr>g_ctx := None, usm := snd (free_all c (usm st))\<rparr> | None \<Rightarrow> st)"

subsection \<open>Search\<close>

text \<open>
  The outcome of a search call: it returns a code, the total and the caller's array; or it
  never returns; or it accesses a null pointer. The allocations of \<open>ensure\<close> are used without a
  check: the host writes \<^verbatim>\<open>d_count[0]\<close>, and the kernel stores its winners through \<^verbatim>\<open>d_found\<close>.
\<close>

datatype outcome = Returns int u32 "u32 list" | Hangs | Null_Access

text \<open>
  The search call of both interfaces, which differ in the message of the unopened case, the
  test of a nonce and the share of a work-item. An exception of any runtime call is caught and
  returned as -3. At the end: the check of the asynchronous errors, and the copy of the kept
  winners into the caller's array.
\<close>

definition search_report ::
    "u32 list \<Rightarrow> u32 \<Rightarrow> u32 \<Rightarrow> u32 list \<Rightarrow> capi_st \<Rightarrow> outcome \<times> capi_st" where
  "search_report found_out cap cnt fnd st =
     (if g_async_failed st
      then (Returns (-3) 0 found_out,
            st\<lparr>g_last_error := ''device kernel error: '' @ g_async_error st\<rparr>)
      else let n = (if cnt < cap then cnt else cap);
               kept = (if n < kFoundCap then n else kFoundCap)
           in (Returns 0 cnt (blit found_out 0 (take (unat kept) fnd)), st))"

text \<open>
  The counter is reset, the kernel submitted, and the call waits. Whatever part of the schedule ran
  has changed the shared memory, also when a wait throws; without an exception the wait returns
  when all work-items have ended.
\<close>

definition search_launch ::
    "(u32 \<Rightarrow> bool) \<Rightarrow> u32 \<Rightarrow> sycl_rt \<Rightarrow> u32 \<Rightarrow> u32 \<Rightarrow> u32 list \<Rightarrow> u32 \<Rightarrow> gpu_ctx \<Rightarrow> capi_st
     \<Rightarrow> outcome \<times> capi_st" where
  "search_launch win per rt base count found_out cap c st =
     (case d_count c of
        None \<Rightarrow> (Null_Access, st)
      | Some (ca, _) \<Rightarrow>
          (case rt_launch rt of
             Throw what \<Rightarrow> (Returns (-3) 0 found_out,
               st\<lparr>g_ctx := Some (c\<lparr>d_count := Some (ca, 0)\<rparr>), g_last_error := what\<rparr>)
           | Ret _ \<Rightarrow>
               (let cfg = \<lparr>nonce_base = base, scan_count = count, per_item = per, found_cap = kFoundCap\<rparr>;
                    xs = (case d_found c of Some (_, xs) \<Rightarrow> xs | None \<Rightarrow> []);
                    s = run_items win cfg (rt_sched rt cfg) (launch cfg 0 xs);
                    st = AsyncErrorHandler (rt_async rt)
                      (st\<lparr>g_ctx := Some (c\<lparr>d_count := Some (ca, found_count s),
                         d_found := map_option (\<lambda>(fa, _). (fa, found s)) (d_found c)\<rparr>)\<rparr>)
                in if d_found c = None \<and> found_count s \<noteq> 0 then (Null_Access, st)
                   else case rt_wait rt of
                     Throw what \<Rightarrow> (Returns (-3) 0 found_out, st\<lparr>g_last_error := what\<rparr>)
                   | Ret _ \<Rightarrow> (case run_kernel win cfg (rt_sched rt cfg) 0 xs of
                       None \<Rightarrow> (Hangs, st)
                     | Some (cnt, fnd) \<Rightarrow> search_report found_out cap cnt fnd st))))"

definition capi_search ::
    "string \<Rightarrow> (u32 \<Rightarrow> bool) \<Rightarrow> u32 \<Rightarrow> sycl_rt \<Rightarrow> u32 \<Rightarrow> u32 \<Rightarrow> u32 list \<Rightarrow> u32 \<Rightarrow> capi_st
     \<Rightarrow> outcome \<times> capi_st" where
  "capi_search not_open win per rt base count found_out cap st =
     (case g_ctx st of
        None \<Rightarrow> (Returns (-1) 0 found_out, st\<lparr>g_last_error := not_open\<rparr>)
      | Some c0 \<Rightarrow>
          if count = 0 then (Returns 0 0 found_out, st)
          else case ensure rt c0 (usm st) of
            (Throw what, c, h) \<Rightarrow> (Returns (-3) 0 found_out, st\<lparr>g_ctx := Some c, usm := h, g_last_error := what\<rparr>)
          | (Ret _, c, h) \<Rightarrow> search_launch win per rt base count found_out cap c
              (st\<lparr>g_ctx := Some c, usm := h, g_async_failed := False, g_async_error := []\<rparr>))"

definition csd_capi_search ::
    "sycl_rt \<Rightarrow> u32 list \<Rightarrow> u32 list \<Rightarrow> u32 list \<Rightarrow> u32 \<Rightarrow> u32 \<Rightarrow> u32 list \<Rightarrow> u32 \<Rightarrow> capi_st
     \<Rightarrow> outcome \<times> capi_st" where
  "csd_capi_search rt mid8 tail5 target8 = capi_search ''csd_capi_open not called''
     (csd_win (take 8 mid8) (take 5 tail5) (take 8 target8)) kNoncesPerThread rt"

subsection \<open>Device choice\<close>

lemma gpu_devices_filter:
  "gpu_devices raw =
     (let lz = filter dev_level_zero raw; real = filter (\<lambda>d. \<not> is_translation_layer d) raw
      in if lz \<noteq> [] then lz else if real \<noteq> [] then real else raw)"
proof -
  have "fold (\<lambda>d (lz, real).
            (if dev_level_zero d then lz @ [d] else lz,
             if \<not> is_translation_layer d then real @ [d] else real)) raw (us, vs)
      = (us @ filter dev_level_zero raw, vs @ filter (\<lambda>d. \<not> is_translation_layer d) raw)" for us vs
    by (induction raw arbitrary: us vs) auto
  then show ?thesis by (simp add: gpu_devices_def)
qed

lemma gpu_devices_Nil [simp]: "gpu_devices raw = [] \<longleftrightarrow> raw = []"
  by (auto simp: gpu_devices_filter Let_def)

lemma gpu_devices_subset: "set (gpu_devices raw) \<subseteq> set raw"
  by (auto simp: gpu_devices_filter Let_def)

subsection \<open>Ownership of shared memory\<close>

text \<open>The allocations a context holds, and the state in which nothing else is allocated.\<close>

definition ctx_ids :: "gpu_ctx \<Rightarrow> nat set" where
  "ctx_ids c = fst ` set_option (d_found c) \<union> fst ` set_option (d_count c)"

definition owned :: "capi_st \<Rightarrow> nat set" where
  "owned st = (case g_ctx st of Some c \<Rightarrow> ctx_ids c | None \<Rightarrow> {})"

definition heap_ok :: "usm_heap \<Rightarrow> bool" where
  "heap_ok h \<longleftrightarrow> (\<forall>a \<in> set (usm_live h). a < usm_next h)"

definition no_leak :: "capi_st \<Rightarrow> bool" where
  "no_leak st \<longleftrightarrow> heap_ok (usm st) \<and> set (usm_live (usm st)) = owned st"

definition ctx_ok :: "gpu_ctx \<Rightarrow> bool" where
  "ctx_ok c \<longleftrightarrow> (\<forall>a xs. d_found c = Some (a, xs) \<longrightarrow> length xs = unat kFoundCap)
     \<and> (d_found c = None \<longleftrightarrow> d_count c = None)"

lemma unat_kFoundCap [simp]: "unat kFoundCap = 4096"
  by (simp add: kFoundCap_def)

lemma async_frame [simp]:
  "g_ctx (AsyncErrorHandler errs st) = g_ctx st" "usm (AsyncErrorHandler errs st) = usm st"
  by (induction errs arbitrary: st) (simp_all add: AsyncErrorHandler_def)

lemma search_report_frame [simp]:
  "g_ctx (snd (search_report out cap cnt fnd st)) = g_ctx st"
  "usm (snd (search_report out cap cnt fnd st)) = usm st"
  by (simp_all add: search_report_def Let_def)

lemma search_launch_frame:
  assumes "g_ctx st = Some c"
  shows "usm (snd (search_launch win per rt base count out cap c st)) = usm st"
    and "\<exists>c'. g_ctx (snd (search_launch win per rt base count out cap c st)) = Some c'
      \<and> map_option fst (d_found c') = map_option fst (d_found c) \<and> map_option fst (d_count c') = map_option fst (d_count c)"
  using assms
  by (auto simp: search_launch_def Let_def option.map_comp comp_def split_beta
      split: option.splits sycl.splits)

lemma ctx_ids_cong:
  "map_option fst (d_found c') = map_option fst (d_found c) \<Longrightarrow> map_option fst (d_count c') = map_option fst (d_count c)
    \<Longrightarrow> ctx_ids c' = ctx_ids c"
  unfolding ctx_ids_def by (metis option.set_map)

text \<open>
  The states a session goes through while no allocation returns a null pointer: the context holds
  everything that is allocated, and a context without its array has no counter.
\<close>

definition no_null :: "sycl_rt \<Rightarrow> bool" where
  "no_null rt \<longleftrightarrow> (\<forall>n. rt_malloc rt n \<noteq> Ret False)"

definition st_ok :: "capi_st \<Rightarrow> bool" where
  "st_ok st \<longleftrightarrow> no_leak st \<and> (\<forall>c. g_ctx st = Some c \<longrightarrow> d_found c = None \<longrightarrow> d_count c = None)"

lemma malloc_shared_no_null:
  assumes "no_null rt"
  shows "malloc_shared rt h = (Ret (Some (usm_next h)), h\<lparr>usm_next := Suc (usm_next h), usm_live := usm_next h # usm_live h\<rparr>)
    \<or> (\<exists>what. malloc_shared rt h = (Throw what, h\<lparr>usm_next := Suc (usm_next h)\<rparr>))"
proof (cases "rt_malloc rt (usm_next h)")
  case (Ret ok)
  then have ok using assms unfolding no_null_def by metis
  then show ?thesis using Ret by (simp add: malloc_shared_def Let_def)
qed (simp add: malloc_shared_def Let_def)

lemma ensure_ids:
  assumes mem: "no_null rt" and c: "d_found c = None \<longrightarrow> d_count c = None"
    and h: "heap_ok h" "set (usm_live h) = ctx_ids c" and e: "ensure rt c h = (r, c', h')"
  shows "heap_ok h' \<and> set (usm_live h') = ctx_ids c' \<and> (d_found c' = None \<longrightarrow> d_count c' = None)"
proof (cases "d_found c")
  case (Some p)
  then show ?thesis using assms by (simp add: ensure_def)
next
  case None
  then have "d_count c = None" using c by simp
  with None h e show ?thesis
    using malloc_shared_no_null [OF mem, of h]
      malloc_shared_no_null [OF mem, of "h\<lparr>usm_next := Suc (usm_next h), usm_live := usm_next h # usm_live h\<rparr>"]
    by (auto simp: ensure_def heap_ok_def ctx_ids_def Let_def)
qed

lemma capi_search_ok:
  assumes mem: "no_null rt" and st: "st_ok st"
  shows "st_ok (snd (capi_search m win per rt base count out cap st))"
proof (cases "g_ctx st")
  case None
  then show ?thesis using st by (simp add: capi_search_def st_ok_def no_leak_def owned_def)
next
  case (Some c0)
  obtain r c h where e: "ensure rt c0 (usm st) = (r, c, h)" by (metis prod_cases3)
  have ok0: "d_found c0 = None \<longrightarrow> d_count c0 = None" "heap_ok (usm st)" "set (usm_live (usm st)) = ctx_ids c0"
    using st Some by (auto simp: st_ok_def no_leak_def owned_def)
  note ids = ensure_ids [OF mem ok0 e]
  let ?st = "st\<lparr>g_ctx := Some c, usm := h, g_async_failed := False, g_async_error := []\<rparr>"
  let ?r = "snd (search_launch win per rt base count out cap c ?st)"
  have g: "g_ctx ?st = Some c" by simp
  obtain c' where c': "g_ctx ?r = Some c'" "map_option fst (d_found c') = map_option fst (d_found c)"
      "map_option fst (d_count c') = map_option fst (d_count c)"
    using search_launch_frame(2) [OF g] by blast
  have "d_found c' = None \<longrightarrow> d_count c' = None" using c'(2,3) ids by (metis option.map_disc_iff)
  then have "st_ok ?r"
    using search_launch_frame(1) [OF g, of win per rt base count out cap] c' ids ctx_ids_cong [OF c'(2,3)]
    by (simp add: st_ok_def no_leak_def owned_def)
  then show ?thesis using Some e st ids by (cases r) (simp_all add: capi_search_def st_ok_def no_leak_def owned_def)
qed

lemma capi_close_live: "set (usm_live (usm (capi_close st))) = set (usm_live (usm st)) - owned st"
  by (auto simp: capi_close_def free_all_def usm_free_def ctx_ids_def owned_def Let_def
      split: option.splits)

lemma capi_close_releases: "no_leak st \<Longrightarrow> usm_live (usm (capi_close st)) = []"
  using capi_close_live [of st] by (simp add: no_leak_def)

lemma capi_open_frame:
  "usm (snd (capi_open rt i st)) = usm st"
  "fst (capi_open rt i st) = 0 \<Longrightarrow>
     \<exists>d. g_ctx (snd (capi_open rt i st)) =
       Some \<lparr>ctx_dev = d, device_name = dev_name d, d_found = None, d_count = None\<rparr>"
  by (auto simp: capi_open_def Let_def split: sycl.splits if_splits)

text \<open>A search with its request, as a step of a session.\<close>

type_synonym request = "sycl_rt \<times> (u32 \<Rightarrow> bool) \<times> u32 \<times> u32 \<times> u32 list \<times> u32"

text \<open>The runtime may answer differently in every call; \<open>None\<close> when a search does not return.\<close>

definition searches :: "string \<Rightarrow> u32 \<Rightarrow> request list \<Rightarrow> capi_st \<Rightarrow> capi_st option" where
  "searches m per reqs st = foldM (\<lambda>(rt, win, base, count, out, cap) st.
     case capi_search m win per rt base count out cap st of
       (Returns _ _ _, st') \<Rightarrow> Some st' | _ \<Rightarrow> None) reqs st"

lemma searches_ok:
  assumes "list_all (\<lambda>(rt, _). no_null rt) reqs" and "st_ok st" and "searches m per reqs st = Some st'"
  shows "st_ok st'"
  using assms
proof (induction reqs arbitrary: st)
  case (Cons q reqs)
  obtain rt win base count out cap where q: "q = (rt, win, base, count, out, cap)" by (cases q) auto
  obtain o' st1 where r: "capi_search m win per rt base count out cap st = (o', st1)" by fastforce
  then have "st_ok st1" using capi_search_ok [of rt st m win per base count out cap] Cons.prems(1,2) q by simp
  moreover have "searches m per reqs st1 = Some st'"
    using Cons.prems(3) r by (auto simp: searches_def q split: outcome.splits)
  ultimately show ?case using Cons.IH Cons.prems(1) by simp
qed (simp add: searches_def)

subsection \<open>A search that succeeds\<close>

definition search_cfg_of :: "u32 \<Rightarrow> u32 \<Rightarrow> u32 \<Rightarrow> search_cfg" where
  "search_cfg_of per base count = \<lparr>nonce_base = base, scan_count = count, per_item = per, found_cap = kFoundCap\<rparr>"

text \<open>A runtime that allocates, reports no error and gives every work-item its turns.\<close>

definition rt_good :: "sycl_rt \<Rightarrow> search_cfg \<Rightarrow> bool" where
  "rt_good rt cfg \<longleftrightarrow> rt_malloc rt = (\<lambda>_. Ret True) \<and> rt_launch rt = Ret () \<and> rt_async rt = [] \<and> rt_wait rt = Ret ()
     \<and> list_all (\<lambda>gid. 2 * unat (per_item cfg) + 1 \<le> count_list (rt_sched rt cfg) gid)
         [0..<unat (threads cfg)]"

lemma min_word_unat: "unat (min a b) = min (unat a) (unat b)" for a b :: "'a::len word"
  by (simp add: min_def word_le_nat_alt)

lemma search_report_good:
  assumes "\<not> g_async_failed st"
  shows "search_report out cap cnt fnd st =
    (Returns 0 cnt (blit out 0 (take (min (min (unat cnt) (unat cap)) 4096) fnd)), st)"
proof -
  have "(if cnt < cap then cnt else cap) = min cnt cap" by (auto simp: min_def)
  moreover have "(if n < kFoundCap then n else kFoundCap) = min n kFoundCap" for n
    by (auto simp: min_def)
  moreover have "unat (min (min cnt cap) kFoundCap) = min (min (unat cnt) (unat cap)) 4096"
    by (simp add: min_word_unat)
  ultimately show ?thesis using assms by (simp add: search_report_def Let_def)
qed

text \<open>
  What the caller gets: the exact number of winners, and in the array as many of them as both
  caps allow, pairwise different.
\<close>

definition report_ok :: "nat set \<Rightarrow> search_cfg \<Rightarrow> u32 \<Rightarrow> u32 \<Rightarrow> u32 list \<Rightarrow> bool" where
  "report_ok W cfg cap cnt arr \<longleftrightarrow>
     (let m = min (min (unat cnt) (unat cap)) 4096 in
      unat cnt = card W \<and> distinct (take m arr) \<and> set (take m arr) \<subseteq> nonce_at cfg ` W
      \<and> (card W \<le> unat cap \<and> card W \<le> 4096 \<longrightarrow> set (take m arr) = nonce_at cfg ` W))"

lemma ensure_allocated:
  assumes "rt_malloc rt = (\<lambda>_. Ret True)" and "ctx_ok c"
  obtains c' h' fa xs ca v where "ensure rt c h = (Ret (), c', h')" "d_found c' = Some (fa, xs)"
    "length xs = 4096" "d_count c' = Some (ca, v)"
proof (cases "d_found c")
  case None
  then show ?thesis using assms by (intro that) (auto simp: ensure_def malloc_shared_def Let_def)
next
  case (Some p)
  then obtain ca v where "d_count c = Some (ca, v)" using assms(2) by (auto simp: ctx_ok_def)
  then show ?thesis using assms(2) Some by (cases p) (auto intro!: that simp: ensure_def ctx_ok_def)
qed

lemma capi_search_winners:
  assumes opn: "g_ctx st = Some c0" "ctx_ok c0" and count: "count \<noteq> 0"
    and cfg: "cfg = search_cfg_of per base count" "cfg_ok cfg" and rt: "rt_good rt cfg"
    and out: "length out = unat cap"
  shows "\<exists>cnt arr st'. capi_search m win per rt base count out cap st = (Returns 0 cnt arr, st')
    \<and> report_ok (wins win cfg) cfg cap cnt arr"
proof -
  obtain c h fa xs ca v where e: "ensure rt c0 (usm st) = (Ret (), c, h)" and c: "d_found c = Some (fa, xs)"
      "length xs = 4096" "d_count c = Some (ca, v)"
    using ensure_allocated [of rt c0 "usm st" thesis] opn(2) rt unfolding rt_good_def by blast
  have cap: "unat (found_cap cfg) = 4096" using cfg(1) by (simp add: search_cfg_of_def)
  have fair: "\<forall>gid < unat (threads cfg). 2 * unat (per_item cfg) + 1 \<le> count_list (rt_sched rt cfg) gid"
    using rt by (simp add: rt_good_def list_all_iff)
  obtain cnt fnd where k: "run_kernel win cfg (rt_sched rt cfg) 0 xs = Some (cnt, fnd)"
    using run_items_done [OF cfg(2) _ fair, of xs win] c(2) cap by (auto simp: run_kernel_def Let_def)
  let ?m = "min (min (unat cnt) (unat cap)) 4096"
  let ?arr = "blit out 0 (take ?m fnd)"
  have len: "length fnd = 4096" using run_kernel_length [OF k] c(2) by simp
  then have arr: "take ?m ?arr = take ?m fnd" using out by (simp add: blit_def)
  note w = run_kernel_winners [OF cfg(2) _ k]
  have "report_ok (wins win cfg) cfg cap cnt ?arr"
    using w(1,3) w(2) [of ?m] cap c(2) arr by (auto simp: report_ok_def Let_def)
  moreover have "\<exists>st'. capi_search m win per rt base count out cap st = (Returns 0 cnt ?arr, st')"
    using opn(1) count e c k rt cfg(1)
    by (simp add: capi_search_def search_launch_def search_report_good AsyncErrorHandler_def rt_good_def search_cfg_of_def Let_def)
  ultimately show ?thesis by blast
qed

text \<open>A runtime and an opened context to instantiate the properties with.\<close>

definition demo_rt :: sycl_rt where
  "demo_rt = \<lparr>rt_devices = Ret [\<lparr>dev_level_zero = True, dev_platform = ''L0'', dev_name = ''B580''\<rparr>],
     rt_queue = (\<lambda>_. Ret ()), rt_malloc = (\<lambda>_. Ret True), rt_fresh = (\<lambda>_. 0), rt_launch = Ret (),
     rt_sched = (\<lambda>cfg. replicate 17 0), rt_async = [], rt_wait = Ret ()\<rparr>"

definition demo_st :: capi_st where
  "demo_st = \<lparr>g_ctx = None, g_last_error = [], g_async_failed = False, g_async_error = [],
     usm = \<lparr>usm_next = 0, usm_live = []\<rparr>\<rparr>"

definition demo_ctx :: gpu_ctx where
  "demo_ctx = \<lparr>ctx_dev = \<lparr>dev_level_zero = True, dev_platform = ''L0'', dev_name = ''B580''\<rparr>,
     device_name = ''B580'', d_found = None, d_count = None\<rparr>"

lemma demo_good:
  "rt_good demo_rt (search_cfg_of 8 0 1)" "rt_good demo_rt (search_cfg_of 4 0 1)" "ctx_ok demo_ctx"
proof -
  have c: "count_list (replicate 17 (0 :: nat)) 0 = 17" by (simp add: numeral_eq_Suc)
  show "rt_good demo_rt (search_cfg_of 8 0 1)" "rt_good demo_rt (search_cfg_of 4 0 1)"
    by (simp_all add: rt_good_def demo_rt_def search_cfg_of_def threads_def list_all_iff c)
  show "ctx_ok demo_ctx" by (simp add: ctx_ok_def demo_ctx_def)
qed

lemma demo_open: "capi_open demo_rt 0 demo_st = (0, demo_st\<lparr>g_ctx := Some demo_ctx\<rparr>)"
  by (simp add: capi_open_def demo_rt_def demo_ctx_def gpu_devices_filter Let_def)

subsection \<open>Properties\<close>

text \<open>
  C1. On an opened device, with a runtime that allocates, reports no error and lets every work-item
  run to its end, and for a \<open>count\<close> of at most \<open>2 ^ 32 - 8\<close>, a CSD search returns 0, the number of
  nonces of the range whose header, hashed twice with the reference SHA-256, gives a number not
  above the target, and as many of these nonces, all different, as the caller's array and the
  device array of 4096 places hold (all of them, when they fit): the midstate, the tail words, the
  rolling kernel, the word-wise comparison, the concurrent slots and the copy included.
\<close>

theorem csd_capi_search_finds:
  assumes "length hdr = 84" and "length target = 8"
    and "g_ctx st = Some c" and "ctx_ok c" and "count \<noteq> 0" and "unat count + 8 \<le> 2 ^ 32"
    and "rt_good rt (search_cfg_of 8 base count)" and "length out = unat cap"
  shows "\<exists>cnt arr st'.
    csd_capi_search rt (gate_mid hdr) (gate_tail hdr) target base count out cap st = (Returns 0 cnt arr, st')
    \<and> report_ok {k. k < unat count \<and> big_val (hsha_d (with_nonce hdr (base + of_nat k))) \<le> big_val target}
        (search_cfg_of 8 base count) cap cnt arr"
proof -
  let ?cfg = "search_cfg_of 8 base count"
  have t: "take 8 (gate_mid hdr) = gate_mid hdr" "take 5 (gate_tail hdr) = gate_tail hdr" "take 8 target = target"
    using assms(2) by (simp_all add: gate_mid_def gate_tail_def)
  have "cfg_ok ?cfg" using assms(6) by (simp add: cfg_ok_def search_cfg_of_def)
  moreover have "wins (csd_win (gate_mid hdr) (gate_tail hdr) target) ?cfg
      = {k. k < unat count \<and> big_val (hsha_d (with_nonce hdr (base + of_nat k))) \<le> big_val target}"
    by (simp add: wins_def csd_win_iff [OF assms(1,2)] search_cfg_of_def)
  ultimately show ?thesis
    using capi_search_winners [OF assms(3,4,5) refl _ assms(7,8),
        of "''csd_capi_open not called''" "csd_win (gate_mid hdr) (gate_tail hdr) target"]
    by (simp add: csd_capi_search_def t kNoncesPerThread_def)
qed

theorem csd_capi_search_finds_witness:
  "\<exists>cnt arr st'. csd_capi_search demo_rt (gate_mid (replicate 84 0)) (gate_tail (replicate 84 0))
       (replicate 8 0xFFFFFFFF) 0 1 [0] 1 (demo_st\<lparr>g_ctx := Some demo_ctx\<rparr>) = (Returns 0 cnt arr, st')
     \<and> report_ok {k. k < unat (1 :: u32) \<and>
           big_val (hsha_d (with_nonce (replicate 84 0) (0 + of_nat k))) \<le> big_val (replicate 8 (0xFFFFFFFF :: u32))}
         (search_cfg_of 8 0 1) 1 cnt arr"
  by (rule csd_capi_search_finds [of _ _ _ demo_ctx]) (simp_all add: demo_good demo_st_def)

text \<open>
  C20. A session releases what it allocated: after opening a device from the closed state, any
  number of searches, and the close, no shared memory is left allocated. In every search the runtime
  may answer differently: allocations, the launch and the waits may throw, and errors may be
  reported asynchronously. Assumed is that no allocation returns a null pointer (what happens then
  is stated below) and that every search returns.
\<close>

theorem session_releases:
  assumes "g_ctx st = None" and "usm_live (usm st) = []" and "capi_open rt i st = (0, st1)"
    and "list_all (\<lambda>(rt, _). no_null rt) reqs" and "searches m per reqs st1 = Some st2"
  shows "usm_live (usm (capi_close st2)) = []"
proof -
  obtain d where "g_ctx st1 = Some \<lparr>ctx_dev = d, device_name = dev_name d, d_found = None, d_count = None\<rparr>"
    and "usm st1 = usm st"
    using capi_open_frame [of rt i st] assms(3) by auto
  then have "st_ok st1" using assms(2) by (simp add: st_ok_def no_leak_def owned_def heap_ok_def ctx_ids_def)
  then have "st_ok st2" using searches_ok assms(4,5) by blast
  then show ?thesis by (intro capi_close_releases) (simp add: st_ok_def)
qed

text \<open>A session whose first search fails on its second allocation, and which is then closed.\<close>

definition throwing_rt :: sycl_rt where
  "throwing_rt = demo_rt\<lparr>rt_malloc := (\<lambda>n. if n = 1 then Throw ''no shared memory'' else Ret True)\<rparr>"

lemma throwing_search:
  "capi_search m win per throwing_rt base 1 out cap (demo_st\<lparr>g_ctx := Some demo_ctx\<rparr>) = (Returns (-3) 0 out,
     demo_st\<lparr>g_ctx := Some (demo_ctx\<lparr>d_found := Some (0, map (\<lambda>_. 0) [0..<4096])\<rparr>),
       usm := \<lparr>usm_next = 2, usm_live = [0]\<rparr>, g_last_error := ''no shared memory''\<rparr>)"
  by (simp add: capi_search_def ensure_def malloc_shared_def throwing_rt_def demo_rt_def demo_st_def demo_ctx_def Let_def)

theorem session_releases_witness:
  "usm_live (usm (capi_close (demo_st\<lparr>g_ctx := Some (demo_ctx\<lparr>d_found := Some (0, map (\<lambda>_. 0) [0..<4096])\<rparr>),
       usm := \<lparr>usm_next = 2, usm_live = [0]\<rparr>, g_last_error := ''no shared memory''\<rparr>))) = []"
proof (rule session_releases [OF _ _ demo_open])
  let ?reqs = "[(throwing_rt, \<lambda>n. True, 0, 1, [0], 1)] :: request list"
  show "list_all (\<lambda>(rt, _). no_null rt) ?reqs" by (simp add: no_null_def throwing_rt_def)
  show "searches ''x'' 8 ?reqs (demo_st\<lparr>g_ctx := Some demo_ctx\<rparr>)
      = Some (demo_st\<lparr>g_ctx := Some (demo_ctx\<lparr>d_found := Some (0, map (\<lambda>_. 0) [0..<4096])\<rparr>),
       usm := \<lparr>usm_next = 2, usm_live = [0]\<rparr>, g_last_error := ''no shared memory''\<rparr>)"
    by (simp add: searches_def throwing_search)
qed (simp_all add: demo_st_def)

text \<open>
  C21. Opening a device again without closing loses the arrays of the first context: the new
  context starts without buffers, and the memory of the old one is still allocated after the
  final close.
\<close>

theorem reopen_leaks:
  assumes "g_ctx st = Some c" and "no_leak st" and "capi_open rt i st = (0, st1)"
  shows "set (usm_live (usm (capi_close st1))) = ctx_ids c"
proof -
  obtain d where "g_ctx st1 = Some \<lparr>ctx_dev = d, device_name = dev_name d, d_found = None, d_count = None\<rparr>"
    and "usm st1 = usm st"
    using capi_open_frame [of rt i st] assms(3) by auto
  then show ?thesis
    using capi_close_live [of st1] assms(1,2) by (simp add: no_leak_def owned_def ctx_ids_def)
qed

theorem reopen_leaks_witness:
  "set (usm_live (usm (capi_close (demo_st\<lparr>g_ctx := Some demo_ctx, usm := \<lparr>usm_next = 2, usm_live = [1, 0]\<rparr>\<rparr>))))
     = {0, 1}"
proof -
  let ?c = "demo_ctx\<lparr>d_found := Some (0, replicate 4096 0), d_count := Some (1, 0)\<rparr>"
  let ?st = "demo_st\<lparr>g_ctx := Some ?c, usm := \<lparr>usm_next = 2, usm_live = [1, 0]\<rparr>\<rparr>"
  have ids: "ctx_ids ?c = {0, 1}" by (auto simp: ctx_ids_def)
  have "no_leak ?st" unfolding no_leak_def owned_def using ids by (auto simp: heap_ok_def)
  moreover have "capi_open demo_rt 0 ?st
      = (0, demo_st\<lparr>g_ctx := Some demo_ctx, usm := \<lparr>usm_next = 2, usm_live = [1, 0]\<rparr>\<rparr>)"
    by (simp add: capi_open_def demo_rt_def demo_ctx_def gpu_devices_filter Let_def)
  ultimately show ?thesis using reopen_leaks [of ?st ?c demo_rt 0] ids by simp
qed

text \<open>
  C25. The device functions agree: a device can be opened exactly when its index is below the
  reported count, given that its queue can be built, and the opened device carries the name
  reported for that index.
\<close>

theorem capi_open_index:
  assumes "\<forall>d. rt_queue rt d = Ret ()"
  shows "(fst (capi_open rt i st) = 0 \<longleftrightarrow> 0 \<le> i \<and> i < device_count rt)
    \<and> (fst (capi_open rt i st) = 0 \<longrightarrow>
      capi_device_name (snd (capi_open rt i st)) = device_name_at rt i)"
proof (cases "rt_devices rt")
  case (Throw what)
  then show ?thesis by (simp add: capi_open_def device_count_def)
next
  case (Ret raw)
  then show ?thesis using assms gpu_devices_Nil [of raw]
    by (auto simp: capi_open_def device_count_def capi_device_name_def device_name_at_def Let_def
        simp del: gpu_devices_Nil)
qed

theorem capi_open_index_witness:
  "fst (capi_open demo_rt 0 demo_st) = 0
    \<and> capi_device_name (snd (capi_open demo_rt 0 demo_st)) = device_name_at demo_rt 0"
proof -
  have "\<forall>d. rt_queue demo_rt d = Ret ()" by (simp add: demo_rt_def)
  moreover have "0 < device_count demo_rt"
    by (simp add: device_count_def demo_rt_def gpu_devices_filter Let_def)
  ultimately show ?thesis using capi_open_index [of demo_rt 0 demo_st] by simp
qed

text \<open>
  C22. A search that returns an error code hands nothing to the caller: the total is 0, the
  caller's array is as it was, and the last error is the reason: the unopened device, the
  exception of the runtime call that threw (one of the two allocations, the launch or the waits),
  or the collected asynchronous errors.
\<close>

theorem capi_search_error:
  assumes "capi_search m win per rt base count out cap st = (Returns code cnt arr, st')"
    and "code \<noteq> 0"
  shows "cnt = 0 \<and> arr = out
    \<and> (code = -1 \<and> g_ctx st = None \<and> g_last_error st' = m
       \<or> code = -3 \<and> Throw (g_last_error st') \<in> {rt_launch rt, rt_wait rt}
       \<or> code = -3 \<and> Throw (g_last_error st') \<in> {rt_malloc rt (usm_next (usm st)), rt_malloc rt (Suc (usm_next (usm st)))}
       \<or> code = -3 \<and> rt_async rt \<noteq> [] \<and> g_last_error st' = ''device kernel error: '' @ g_async_error st')"
proof (cases "g_ctx st")
  case None
  then show ?thesis using assms by (auto simp: capi_search_def)
next
  case (Some c0)
  obtain r c h where e: "ensure rt c0 (usm st) = (r, c, h)" by (metis prod_cases3)
  have count: "count \<noteq> 0" using assms Some by (auto simp: capi_search_def)
  show ?thesis
  proof (cases r)
    case (Throw what)
    have "what = w \<Longrightarrow> Throw w \<in> {rt_malloc rt (usm_next (usm st)), rt_malloc rt (Suc (usm_next (usm st)))}" for w
      using e Throw by (auto simp: ensure_def malloc_shared_def Let_def split: if_splits sycl.splits)
    then show ?thesis using assms Some e count Throw by (auto simp: capi_search_def)
  next
    case (Ret u)
    let ?st = "st\<lparr>g_ctx := Some c, usm := h, g_async_failed := False, g_async_error := []\<rparr>"
    have "search_launch win per rt base count out cap c ?st = (Returns code cnt arr, st')"
      using assms(1) Some e count Ret by (simp add: capi_search_def)
    moreover have "rt_async rt \<noteq> []" if "g_async_failed (AsyncErrorHandler (rt_async rt) s)" "\<not> g_async_failed s" for s
      using that by (auto simp: AsyncErrorHandler_def)
    ultimately show ?thesis using assms(2)
      by (auto simp: search_launch_def search_report_def Let_def split: option.splits prod.splits if_splits sycl.splits)
  qed
qed

theorem capi_search_error_witness:
  "(0 :: u32) = 0 \<and> [7 :: u32] = [7] \<and> fst (capi_search ''x'' (\<lambda>n. True) 8 throwing_rt 0 1 [7] 1
       (demo_st\<lparr>g_ctx := Some demo_ctx\<rparr>)) = Returns (-3) 0 [7]"
proof -
  have "(-3 :: int) \<noteq> 0" by simp
  from capi_search_error [OF throwing_search this, of "[7]"]
  show ?thesis using throwing_search [of "''x''" "\<lambda>n. True" 8 0 "[7]" 1] by simp
qed

text \<open>
  C23. An exception of the second allocation leaves the context half built, and the next search
  does not notice: the failing search returns -3 with the message of the exception, and every
  later search of a non-empty range on that context writes the counter through a null pointer,
  whatever the runtime answers by then.
\<close>

theorem counter_exception_then_null:
  assumes "g_ctx st = Some c" and "d_found c = None" and "d_count c = None" and "count \<noteq> 0"
    and "rt_malloc rt (usm_next (usm st)) = Ret True" and "rt_malloc rt (Suc (usm_next (usm st))) = Throw what"
  shows "\<exists>st1. capi_search m win per rt base count out cap st = (Returns (-3) 0 out, st1) \<and> g_last_error st1 = what
    \<and> (\<forall>win' rt' base' count' out' cap'. count' \<noteq> 0 \<longrightarrow>
        fst (capi_search m win' per rt' base' count' out' cap' st1) = Null_Access)"
  using assms
  by (simp add: capi_search_def ensure_def malloc_shared_def search_launch_def Let_def)

theorem counter_exception_then_null_witness:
  "\<exists>st1. capi_search ''x'' (\<lambda>n. True) 8 throwing_rt 0 1 [0] 1 (demo_st\<lparr>g_ctx := Some demo_ctx\<rparr>) = (Returns (-3) 0 [0], st1)
    \<and> fst (capi_search ''x'' (\<lambda>n. True) 8 demo_rt 0 1 [0] 1 st1) = Null_Access"
proof -
  let ?st = "demo_st\<lparr>g_ctx := Some demo_ctx\<rparr>"
  have "g_ctx ?st = Some demo_ctx" "d_found demo_ctx = None" "d_count demo_ctx = None" "(1 :: u32) \<noteq> 0"
    "rt_malloc throwing_rt (usm_next (usm ?st)) = Ret True"
    "rt_malloc throwing_rt (Suc (usm_next (usm ?st))) = Throw ''no shared memory''"
    by (simp_all add: demo_ctx_def demo_st_def throwing_rt_def)
  from counter_exception_then_null [OF this] show ?thesis by force
qed

text \<open>
  C24. A null array loses the counter: when the first allocation returns a null pointer and the
  second succeeds, a search without winners returns 0 as if nothing had happened; the next search
  allocates both again, and after the close exactly the first counter is still allocated.
\<close>

theorem null_found_leaks_counter:
  assumes st: "g_ctx st = Some c" "d_found c = None" "d_count c = None" "usm_live (usm st) = []" "usm_next (usm st) = n"
    and rt: "rt_malloc rt n = Ret False" "rt_malloc rt (Suc n) = Ret True"
      "rt_launch rt = Ret ()" "rt_async rt = []" "rt_wait rt = Ret ()"
    and run: "run_kernel win (search_cfg_of per base count) (rt_sched rt (search_cfg_of per base count)) 0 [] = Some (0, [])"
    and next_search: "rt_malloc rt' = (\<lambda>_. Ret True)" "count \<noteq> 0" "count' \<noteq> 0"
  shows "\<exists>st1. capi_search m win per rt base count out cap st = (Returns 0 0 out, st1)
    \<and> (\<forall>win' base' out' cap' code cnt arr st2.
        capi_search m win' per rt' base' count' out' cap' st1 = (Returns code cnt arr, st2)
        \<longrightarrow> set (usm_live (usm (capi_close st2))) = {Suc n})"
proof -
  have "found_count (run_items win (search_cfg_of per base count) (rt_sched rt (search_cfg_of per base count))
      (launch (search_cfg_of per base count) 0 [])) = 0"
    using run by (auto simp: run_kernel_def Let_def split: if_splits)
  note first = this run [unfolded search_cfg_of_def]
  let ?c1 = "c\<lparr>d_found := None, d_count := Some (Suc n, 0)\<rparr>"
  define st1 where "st1 = st\<lparr>g_ctx := Some ?c1, usm := \<lparr>usm_next = Suc (Suc n), usm_live = [Suc n]\<rparr>,
    g_async_failed := False, g_async_error := []\<rparr>"
  have e: "ensure rt c (usm st) = (Ret (), c\<lparr>d_found := None, d_count := Some (Suc n, rt_fresh rt 0)\<rparr>,
      \<lparr>usm_next = Suc (Suc n), usm_live = [Suc n]\<rparr>)"
    using st rt by (cases "usm st") (simp add: ensure_def malloc_shared_def Let_def)
  have s1: "capi_search m win per rt base count out cap st = (Returns 0 0 out, st1)"
    using st(1) rt(3-5) first next_search(2)
    by (simp add: capi_search_def e search_launch_def search_report_def AsyncErrorHandler_def search_cfg_of_def
        st1_def Let_def)
  have "set (usm_live (usm (capi_close st2))) = {Suc n}"
    if "capi_search m win' per rt' base' count' out' cap' st1 = (Returns code cnt arr, st2)"
    for win' base' out' cap' code cnt arr st2
  proof -
    let ?c = "?c1\<lparr>d_found := Some (Suc (Suc n), map (rt_fresh rt') [0..<unat kFoundCap]),
      d_count := Some (Suc (Suc (Suc n)), rt_fresh rt' 0)\<rparr>"
    let ?h = "\<lparr>usm_next = Suc (Suc (Suc (Suc n))), usm_live = [Suc (Suc (Suc n)), Suc (Suc n), Suc n]\<rparr>"
    let ?st = "st1\<lparr>g_ctx := Some ?c, usm := ?h, g_async_failed := False, g_async_error := []\<rparr>"
    have "ensure rt' ?c1 \<lparr>usm_next = Suc (Suc n), usm_live = [Suc n]\<rparr> = (Ret (), ?c, ?h)"
      using next_search(1) by (simp add: ensure_def malloc_shared_def Let_def)
    then have "capi_search m win' per rt' base' count' out' cap' st1 = search_launch win' per rt' base' count' out' cap' ?c ?st"
      using next_search(3) by (simp add: capi_search_def st1_def)
    then have l: "st2 = snd (search_launch win' per rt' base' count' out' cap' ?c ?st)" using that by (metis snd_conv)
    have "g_ctx ?st = Some ?c" by simp
    from search_launch_frame [OF this, of win' per rt' base' count' out' cap'] l
    obtain c2 where "g_ctx st2 = Some c2" "ctx_ids c2 = ctx_ids ?c" "usm st2 = usm ?st"
      by (metis ctx_ids_cong)
    then show ?thesis by (auto simp: capi_close_live owned_def ctx_ids_def)
  qed
  then show ?thesis using s1 by blast
qed

text \<open>A runtime whose first allocation returns a null pointer.\<close>

definition null_rt :: sycl_rt where
  "null_rt = demo_rt\<lparr>rt_malloc := (\<lambda>n. Ret (n \<noteq> 0))\<rparr>"

lemma null_run:
  "run_kernel (\<lambda>n. False) (search_cfg_of 8 0 1) (rt_sched null_rt (search_cfg_of 8 0 1)) 0 [] = Some (0, [])"
  by code_simp

theorem null_found_leaks_counter_witness:
  "\<exists>st1. capi_search ''x'' (\<lambda>n. False) 8 null_rt 0 1 [7] 1 (demo_st\<lparr>g_ctx := Some demo_ctx\<rparr>) = (Returns 0 0 [7], st1)
    \<and> (\<forall>win base out cap code cnt arr st2.
        capi_search ''x'' win 8 demo_rt base 1 out cap st1 = (Returns code cnt arr, st2)
        \<longrightarrow> set (usm_live (usm (capi_close st2))) = {Suc 0})"
  by (rule null_found_leaks_counter [where c = demo_ctx, OF _ _ _ _ _ _ _ _ _ _ null_run])
    (simp_all add: demo_ctx_def demo_st_def null_rt_def demo_rt_def)

end
