(* ===== verification/Sha3t.thy ===== *)
theory Sha3t
  imports Gpu_Capi
begin

text \<open>
  The SHA3-256t kernel of \<^verbatim>\<open>sha3t-keccak/sha3t_keccak.hpp\<close> and its C interface \<^verbatim>\<open>sha3t_capi.cpp\<close>.
  The permutation of the code, whose rho and pi steps walk one displacement cycle in place, is
  proved equal to Keccak-f written lane by lane; the three fused passes are proved equal to three
  applications of the sponge SHA3-256 to bytes.
\<close>

subsection \<open>The permutation\<close>

definition kRC :: "u64 list" where
  "kRC = [1, 32898, 9223372036854808714, 9223372039002292224, 32907, 2147483649,
    9223372039002292353, 9223372036854808585, 138, 136, 2147516425, 2147483658, 2147516555,
    9223372036854775947, 9223372036854808713, 9223372036854808579, 9223372036854808578,
    9223372036854775936, 32778, 9223372039002259466, 9223372039002292353, 9223372036854808704,
    2147483649, 9223372039002292232]"

definition kRotc :: "nat list" where
  "kRotc = [1, 3, 6, 10, 15, 21, 28, 36, 45, 55, 2, 14, 27, 41, 56, 8, 25, 43, 62, 18, 39, 61, 20, 44]"

definition kPiln :: "nat list" where
  "kPiln = [10, 7, 11, 17, 18, 3, 5, 16, 8, 21, 24, 4, 15, 23, 19, 13, 12, 2, 20, 14, 22, 9, 6, 1]"

definition rol :: "u64 \<Rightarrow> nat \<Rightarrow> u64" where
  "rol x n = push_bit n x OR drop_bit (64 - n) x"

definition chi :: "u64 \<Rightarrow> u64 \<Rightarrow> u64 \<Rightarrow> u64" where
  "chi a b c = a XOR (NOT b AND c)"

definition keccak_theta :: "u64 list \<Rightarrow> u64 list" where
  "keccak_theta a =
     (let c0 = a ! 0 XOR a ! 5 XOR a ! 10 XOR a ! 15 XOR a ! 20;
          c1 = a ! 1 XOR a ! 6 XOR a ! 11 XOR a ! 16 XOR a ! 21;
          c2 = a ! 2 XOR a ! 7 XOR a ! 12 XOR a ! 17 XOR a ! 22;
          c3 = a ! 3 XOR a ! 8 XOR a ! 13 XOR a ! 18 XOR a ! 23;
          c4 = a ! 4 XOR a ! 9 XOR a ! 14 XOR a ! 19 XOR a ! 24;
          d0 = c4 XOR rol c1 1; d1 = c0 XOR rol c2 1; d2 = c1 XOR rol c3 1;
          d3 = c2 XOR rol c4 1; d4 = c3 XOR rol c0 1
      in fold (\<lambda>i a. a[i + 0 := a ! (i + 0) XOR d0, i + 1 := a ! (i + 1) XOR d1,
                       i + 2 := a ! (i + 2) XOR d2, i + 3 := a ! (i + 3) XOR d3,
                       i + 4 := a ! (i + 4) XOR d4]) [0, 5, 10, 15, 20] a)"

definition keccak_rho_pi :: "u64 list \<Rightarrow> u64 list" where
  "keccak_rho_pi a =
     fst (fold (\<lambda>t (a, last). (a[kPiln ! t := rol last (kRotc ! t)], a ! (kPiln ! t))) [0..<24] (a, a ! 1))"

definition keccak_chi :: "u64 list \<Rightarrow> u64 list" where
  "keccak_chi a =
     fold (\<lambda>y a. let b0 = a ! (y + 0); b1 = a ! (y + 1); b2 = a ! (y + 2); b3 = a ! (y + 3); b4 = a ! (y + 4)
        in a[y + 0 := chi b0 b1 b2, y + 1 := chi b1 b2 b3, y + 2 := chi b2 b3 b4,
             y + 3 := chi b3 b4 b0, y + 4 := chi b4 b0 b1]) [0, 5, 10, 15, 20] a"

definition keccak_iota :: "nat \<Rightarrow> u64 list \<Rightarrow> u64 list" where
  "keccak_iota r a = a[0 := a ! 0 XOR kRC ! r]"

definition keccakf :: "u64 list \<Rightarrow> u64 list" where
  "keccakf a = fold (\<lambda>r a. keccak_iota r (keccak_chi (keccak_rho_pi (keccak_theta a)))) [0..<24] a"

definition kRateEndBit :: u64 where
  "kRateEndBit = 0x8000000000000000"

record Digest4 =
  l0 :: u64
  l1 :: u64
  l2 :: u64
  l3 :: u64

text \<open>The three passes; the array \<^verbatim>\<open>a\<close> is written completely before the first permutation.\<close>

definition sha3t_absorb :: "u64 list \<Rightarrow> u32 \<Rightarrow> u64 list" where
  "sha3t_absorb hdr10 nonce =
     (let a = map (\<lambda>i. hdr10 ! i) [0..<9]
            @ [(hdr10 ! 9 AND 0x00000000ffffffff) OR push_bit 32 (ucast nonce)]
            @ [0x06] @ replicate 14 0
      in a[16 := a ! 16 OR kRateEndBit])"

definition sha3t_reabsorb :: "u64 list \<Rightarrow> u64 list" where
  "sha3t_reabsorb a = (let b = a[4 := 0x06] in (take 5 b @ replicate 20 0)[16 := kRateEndBit])"

definition sha3t_hash :: "u64 list \<Rightarrow> u32 \<Rightarrow> Digest4" where
  "sha3t_hash hdr10 nonce =
     (let a = fold (\<lambda>pass a. keccakf (sha3t_reabsorb a)) [0..<2] (keccakf (sha3t_absorb hdr10 nonce))
      in \<lparr>l0 = a ! 0, l1 = a ! 1, l2 = a ! 2, l3 = a ! 3\<rparr>)"

definition sha3t_le_target :: "Digest4 \<Rightarrow> u64 list \<Rightarrow> bool" where
  "sha3t_le_target h t =
     (if l3 h \<noteq> t ! 3 then l3 h < t ! 3
      else if l2 h \<noteq> t ! 2 then l2 h < t ! 2
      else if l1 h \<noteq> t ! 1 then l1 h < t ! 1
      else l0 h \<le> t ! 0)"

subsection \<open>Keccak-f lane by lane\<close>

text \<open>
  The reference: lane \<open>(x, y)\<close> is entry \<open>x + 5 * y\<close>. The rotation offsets are the triangular
  numbers along the walk \<open>(x, y) \<mapsto> (y, 2x + 3y)\<close> from lane \<open>(1, 0)\<close>. The round constants come
  from the shift register of the standard, with feedback polynomial \<open>x^8 + x^6 + x^5 + x^4 + 1\<close>: bit
  \<open>2^j - 1\<close> of the constant of round \<open>r\<close> is the output of the register after \<open>j + 7r\<close> steps.
\<close>

primrec rho_walk :: "nat \<Rightarrow> nat \<times> nat" where
  "rho_walk 0 = (1, 0)"
| "rho_walk (Suc t) = (case rho_walk t of (x, y) \<Rightarrow> (y, (2 * x + 3 * y) mod 5))"

definition rho_offset :: "nat \<Rightarrow> nat \<Rightarrow> nat" where
  "rho_offset x y = (case List.find (\<lambda>t. rho_walk t = (x, y)) [0..<24] of
     Some t \<Rightarrow> ((t + 1) * (t + 2) div 2) mod 64 | None \<Rightarrow> 0)"

definition lanes :: "(nat \<Rightarrow> nat \<Rightarrow> u64) \<Rightarrow> u64 list" where
  "lanes f = map (\<lambda>i. f (i mod 5) (i div 5)) [0..<25]"

definition spec_theta :: "u64 list \<Rightarrow> u64 list" where
  "spec_theta a =
     (let A = (\<lambda>x y. a ! (x + 5 * y));
          C = (\<lambda>x. A x 0 XOR A x 1 XOR A x 2 XOR A x 3 XOR A x 4);
          D = (\<lambda>x. C ((x + 4) mod 5) XOR word_rotl 1 (C ((x + 1) mod 5)))
      in lanes (\<lambda>x y. A x y XOR D x))"

definition spec_rho_pi :: "u64 list \<Rightarrow> u64 list" where
  "spec_rho_pi a = lanes (\<lambda>x y.
     word_rotl (rho_offset ((x + 3 * y) mod 5) x) (a ! ((x + 3 * y) mod 5 + 5 * x)))"

definition spec_chi :: "u64 list \<Rightarrow> u64 list" where
  "spec_chi a = lanes (\<lambda>x y.
     a ! (x + 5 * y) XOR (NOT (a ! ((x + 1) mod 5 + 5 * y)) AND a ! ((x + 2) mod 5 + 5 * y)))"

definition rc_step :: "bool list \<Rightarrow> bool list" where
  "rc_step reg =
     (let R = False # reg; out = R ! 8
      in take 8 (R[0 := R ! 0 \<noteq> out, 4 := R ! 4 \<noteq> out, 5 := R ! 5 \<noteq> out, 6 := R ! 6 \<noteq> out]))"

primrec rc_outputs :: "nat \<Rightarrow> bool list \<Rightarrow> bool list" where
  "rc_outputs 0 reg = []"
| "rc_outputs (Suc n) reg = hd reg # rc_outputs n (rc_step reg)"

definition spec_RC :: "int list" where
  "spec_RC =
     (let rc = rc_outputs 168 [True, False, False, False, False, False, False, False]
      in map (\<lambda>r. \<Sum>j\<leftarrow>[0..<7]. if rc ! (j + 7 * r) then 2 ^ (2 ^ j - 1) else 0) [0..<24])"

definition spec_round :: "nat \<Rightarrow> u64 list \<Rightarrow> u64 list" where
  "spec_round r a = (let b = spec_chi (spec_rho_pi (spec_theta a)) in b[0 := b ! 0 XOR word_of_int (spec_RC ! r)])"

definition keccak_f :: "u64 list \<Rightarrow> u64 list" where
  "keccak_f a = fold spec_round [0..<24] a"

lemma upt_25: "[0..<25] = [0, 1, 2, 3, 4, 5, 6, 7, 8, 9, 10, 11, 12, 13, 14, 15, 16, 17, 18, 19, 20, 21, 22, 23, 24]"
  by code_simp

lemma upt_24: "[0..<24] = [0, 1, 2, 3, 4, 5, 6, 7, 8, 9, 10, 11, 12, 13, 14, 15, 16, 17, 18, 19, 20, 21, 22, 23]"
  by code_simp

lemma spec_RC_table:
  "spec_RC = [1, 32898, 9223372036854808714, 9223372039002292224, 32907, 2147483649,
    9223372039002292353, 9223372036854808585, 138, 136, 2147516425, 2147483658, 2147516555,
    9223372036854775947, 9223372036854808713, 9223372036854808579, 9223372036854808578,
    9223372036854775936, 32778, 9223372039002259466, 9223372039002292353, 9223372036854808704,
    2147483649, 9223372039002292232]"
  by code_simp

lemma kRC_spec: "r < 24 \<Longrightarrow> kRC ! r = word_of_int (spec_RC ! r)"
proof -
  assume r: "r < 24"
  have len: "length spec_RC = 24" by (simp add: spec_RC_def Let_def)
  have "kRC = map word_of_int spec_RC" unfolding spec_RC_table kRC_def by simp
  then show ?thesis using nth_map [of r spec_RC] r len by metis
qed

lemma length_lanes [simp, len_simps]: "length (lanes f) = 25"
  by (simp add: lanes_def)

lemma list25:
  assumes "length a = 25"
  obtains a0 a1 a2 a3 a4 a5 a6 a7 a8 a9 a10 a11 a12 a13 a14 a15 a16 a17 a18 a19 a20 a21 a22 a23 a24 where
    "a = [a0, a1, a2, a3, a4, a5, a6, a7, a8, a9, a10, a11, a12, a13, a14, a15, a16, a17, a18, a19, a20, a21, a22, a23, a24]"
  using assms by (auto simp: length_Suc_conv numeral_eq_Suc)

lemma rol_rotl [rot_simps]: "0 < n \<Longrightarrow> n < 64 \<Longrightarrow> rol x n = word_rotl n x"
  using shift_or_rotl [of n x] by (simp add: rol_def)

lemma lanes_25: "lanes f =
   [f 0 0, f 1 0, f 2 0, f 3 0, f 4 0, f 0 1, f 1 1, f 2 1, f 3 1, f 4 1, f 0 2, f 1 2, f 2 2, f 3 2, f 4 2,
    f 0 3, f 1 3, f 2 3, f 3 3, f 4 3, f 0 4, f 1 4, f 2 4, f 3 4, f 4 4]"
  unfolding lanes_def upt_25 by simp

lemma theta_eq: "length a = 25 \<Longrightarrow> keccak_theta a = spec_theta a"
  by (elim list25) (simp add: keccak_theta_def spec_theta_def lanes_25 rol_rotl Let_def)

lemma chi_eq: "length a = 25 \<Longrightarrow> keccak_chi a = spec_chi a"
  by (elim list25) (simp add: keccak_chi_def spec_chi_def lanes_25 chi_def Let_def)

lemma rho_offsets:
  "map (\<lambda>i. rho_offset (i mod 5) (i div 5)) [0..<25] =
    [0, 1, 62, 28, 27, 36, 44, 6, 55, 20, 3, 10, 43, 25, 39, 41, 45, 15, 21, 8, 18, 2, 61, 56, 14]"
  by code_simp

lemmas rho_offset_table = rho_offsets [unfolded upt_25, simplified]

lemma word_rotl_none: "word_rotl 0 x = x" for x :: "'a::len word"
  by (rule bit_word_eqI) (simp add: bit_word_rotl_iff)

lemma rho_pi_eq: "length a = 25 \<Longrightarrow> keccak_rho_pi a = spec_rho_pi a"
  by (elim list25)
    (simp add: keccak_rho_pi_def upt_24 kPiln_def kRotc_def spec_rho_pi_def lanes_25 rol_rotl rho_offset_table
      word_rotl_none flip: numeral_2_eq_2)

lemma keccakf_keccak_f: "length a = 25 \<Longrightarrow> keccakf a = keccak_f a"
proof -
  assume a: "length a = 25"
  have step: "keccak_iota r (keccak_chi (keccak_rho_pi (keccak_theta b))) = spec_round r b"
    if "length b = 25" "r < 24" for r b
    using that by (simp add: keccak_iota_def spec_round_def kRC_spec theta_eq rho_pi_eq chi_eq spec_theta_def
        spec_rho_pi_def Let_def)
  have "(\<lambda>i b c. b = c \<and> length c = 25) 24 (keccakf a) (keccak_f a)"
    unfolding keccakf_def keccak_f_def
    by (rule fold_upt_rel) (use a in \<open>auto simp: step\<close>, auto simp: spec_round_def spec_chi_def Let_def)
  then show ?thesis by simp
qed

lemma length_keccak_f [simp, len_simps]: "length a = 25 \<Longrightarrow> length (keccak_f a) = 25"
  unfolding keccak_f_def by (rule fold_inv) (auto simp: spec_round_def spec_chi_def Let_def)

subsection \<open>SHA3-256 as a sponge over bytes\<close>

definition sponge_block :: "u64 list \<Rightarrow> u8 list \<Rightarrow> u64 list" where
  "sponge_block a blk =
     keccak_f (map (\<lambda>i. a ! i XOR (if i < 17 then le_word (chunk 8 i blk) else 0)) [0..<25])"

definition sha3_pad :: "u8 list \<Rightarrow> u8 list" where
  "sha3_pad m =
     (let q = 136 - length m mod 136
      in if q = 1 then m @ [0x86] else m @ [0x06] @ replicate (q - 2) 0 @ [0x80])"

definition sha3_256 :: "u8 list \<Rightarrow> u8 list" where
  "sha3_256 m =
     take 32 (concat (map (le_bytes 8) (fst (absorb sponge_block 136 (replicate 25 0) (sha3_pad m)))))"

lemma length_concat_le_bytes [simp]: "length (concat (map (le_bytes n) ws)) = n * length ws"
  by (induction ws) simp_all

lemma take_concat_le_bytes: "take (n * k) (concat (map (le_bytes n) ws)) = concat (map (le_bytes n) (take k ws))"
proof (induction k arbitrary: ws)
  case (Suc k)
  then show ?case by (cases ws) simp_all
qed simp

lemma sha3_pad_lanes:
  assumes "length ws < 16"
  shows "sha3_pad (concat (map (le_bytes 8) ws))
    = concat (map (le_bytes 8) (ws @ [6] @ replicate (15 - length ws) 0 @ [kRateEndBit :: u64]))"
proof -
  let ?n = "length ws"
  have z: "concat (replicate k (replicate 8 (0 :: u8))) = replicate (8 * k) 0" for k
    by (induction k) (simp_all flip: replicate_add)
  have e: "le_bytes 8 (6 :: u64) = 6 # replicate 7 0" "le_bytes 8 (0 :: u64) = replicate 8 0"
    "le_bytes 8 kRateEndBit = replicate 7 0 @ [0x80]"
    by code_simp+
  have "134 - 8 * ?n = 7 + (8 * (15 - ?n) + 7)" using assms by simp
  then have "replicate (134 - 8 * ?n) (0 :: u8) = replicate 7 0 @ replicate (8 * (15 - ?n)) 0 @ replicate 7 0"
    by (simp only: replicate_add)
  moreover have "8 * ?n mod 136 = 8 * ?n" using assms by simp
  ultimately show ?thesis
    using assms e z [of "15 - ?n"] by (simp add: sha3_pad_def map_replicate Let_def)
qed

lemma sponge_block_zero:
  assumes "length ws = 17"
  shows "sponge_block (replicate 25 0) (concat (map (le_bytes 8) ws)) = keccak_f (ws @ replicate 8 0)"
proof -
  have "chunk 8 i (concat (map (le_bytes 8) ws)) = le_bytes 8 (ws ! i)" if "i < 17" for i
    using that assms by (subst chunk_concat) auto
  then have "map (\<lambda>i. replicate 25 0 ! i XOR
      (if i < 17 then le_word (chunk 8 i (concat (map (le_bytes 8) ws))) else 0)) [0..<25] = ws @ replicate 8 0"
    using assms by (intro nth_equalityI) (auto simp: nth_append)
  then show ?thesis by (simp only: sponge_block_def)
qed

text \<open>SHA3-256 of a message of fewer than sixteen lanes is one permutation.\<close>

lemma sha3_256_lanes:
  assumes "length ws < 16"
  shows "sha3_256 (concat (map (le_bytes 8) ws)) = concat (map (le_bytes 8)
    (take 4 (keccak_f (ws @ [6] @ replicate (15 - length ws) 0 @ [kRateEndBit] @ replicate 8 0))))"
proof -
  let ?l = "ws @ [6] @ replicate (15 - length ws) 0 @ [kRateEndBit]"
  have l: "length ?l = 17" using assms by simp
  have "absorb sponge_block 136 (replicate 25 0) (concat (map (le_bytes 8) ?l) @ [])
      = absorb sponge_block 136 (sponge_block (replicate 25 0) (concat (map (le_bytes 8) ?l))) []"
    using l by (intro absorb_block) (simp_all del: concat_append map_append)
  then have "fst (absorb sponge_block 136 (replicate 25 0) (sha3_pad (concat (map (le_bytes 8) ws))))
      = keccak_f (?l @ replicate 8 0)"
    unfolding sha3_pad_lanes [OF assms] using sponge_block_zero [OF l] by simp
  then show ?thesis using take_concat_le_bytes [of 8 4] by (simp add: sha3_256_def)
qed

subsection \<open>The three passes\<close>

text \<open>The header as lanes: \<^verbatim>\<open>memcpy\<close> on a little-endian host, as the gate program does it.\<close>

definition hdr_lanes :: "u8 list \<Rightarrow> u64 list" where
  "hdr_lanes hdr = map (\<lambda>i. le_word (chunk 8 i hdr)) [0..<10]"

definition digest_bytes :: "Digest4 \<Rightarrow> u8 list" where
  "digest_bytes d = concat (map (le_bytes 8) [l0 d, l1 d, l2 d, l3 d])"

lemma nonce_lane:
  "le_bytes 8 ((h AND 0x00000000ffffffff) OR push_bit 32 (ucast n)) = take 4 (le_bytes 8 h) @ le_bytes 4 n"
  for h :: u64 and n :: u32
proof (rule nth_equalityI)
  have m: "(0x00000000ffffffff :: u64) = mask 32" by (simp add: mask_eq_exp_minus_1)
  fix i assume "i < length (le_bytes 8 ((h AND 0x00000000ffffffff) OR push_bit 32 (ucast n)))"
  then have i: "i < 8" by simp
  show "le_bytes 8 ((h AND 0x00000000ffffffff) OR push_bit 32 (ucast n)) ! i
      = (take 4 (le_bytes 8 h) @ le_bytes 4 n) ! i"
  proof (rule bit_word_eqI)
    fix k assume k: "k < LENGTH(8)"
    show "bit (le_bytes 8 ((h AND 0x00000000ffffffff) OR push_bit 32 (ucast n)) ! i) k
        \<longleftrightarrow> bit ((take 4 (le_bytes 8 h) @ le_bytes 4 n) ! i) k"
    proof (cases "i < 4")
      case True
      then show ?thesis using i k unfolding m by (auto simp: bit_le_bytes bit_simps nth_append)
    next
      case False
      then have "8 * (i - 4) + k = 8 * i + k - 32" by simp
      then show ?thesis using i k False unfolding m
        by (auto simp: bit_le_bytes bit_simps nth_append)
    qed
  qed
qed simp

lemma header_lanes:
  fixes n :: u32
  assumes "length hdr = 80"
  shows "concat (map (le_bytes 8) (take 9 (hdr_lanes hdr)
      @ [(hdr_lanes hdr ! 9 AND 0x00000000ffffffff) OR push_bit 32 (ucast n)]))
    = take 76 hdr @ le_bytes 4 n"
proof -
  have b: "le_bytes 8 (le_word (chunk 8 i hdr) :: u64) = chunk 8 i hdr" if "i < 10" for i
    using le_bytes_le_word [where 'a = 64, of "chunk 8 i hdr"] length_chunk [of 8 i hdr] assms that by simp
  have "map (le_bytes 8) (take 9 (hdr_lanes hdr)) = map (\<lambda>i. chunk 8 i hdr) [0..<9]"
    using b by (intro nth_equalityI) (auto simp: hdr_lanes_def)
  then have "concat (map (le_bytes 8) (take 9 (hdr_lanes hdr))) = concat (map (\<lambda>i. chunk 8 i hdr) [0..<9])"
    by (rule arg_cong)
  also have "\<dots> = concat (map (\<lambda>i. chunk 8 i (take 72 hdr)) [0..<9])"
    by (intro arg_cong [where f = concat] map_cong) (auto simp: chunk_def take_drop min_def)
  also have "\<dots> = take 72 hdr" using assms by (intro concat_chunks) simp
  finally have "concat (map (le_bytes 8) (take 9 (hdr_lanes hdr))) = take 72 hdr" .
  moreover have "take 4 (le_bytes 8 (hdr_lanes hdr ! 9)) = take 4 (drop 72 hdr)"
    using b [of 9] by (simp add: hdr_lanes_def chunk_def)
  moreover have "take 72 hdr @ take 4 (drop 72 hdr) = take 76 hdr"
    using take_add [of 72 4 hdr] by simp
  ultimately show ?thesis by (simp add: nonce_lane flip: append_assoc)
qed

lemma sha3t_absorb_lanes:
  assumes "length hdr10 = 10"
  shows "sha3t_absorb hdr10 n = (take 9 hdr10 @ [(hdr10 ! 9 AND 0x00000000ffffffff) OR push_bit 32 (ucast n)])
    @ [6] @ replicate 5 0 @ [kRateEndBit] @ replicate 8 0"
proof -
  have "map (\<lambda>i. hdr10 ! i) [0..<9] = take 9 hdr10" using assms by (intro nth_equalityI) auto
  moreover have "replicate 14 (0 :: u64) = replicate 5 0 @ [0] @ replicate 8 0" by code_simp
  ultimately show ?thesis
    using assms by (simp add: sha3t_absorb_def Let_def list_update_append nth_append)
qed

lemma sha3t_reabsorb_lanes:
  assumes "length a = 25"
  shows "sha3t_reabsorb a = take 4 a @ [6] @ replicate 11 0 @ [kRateEndBit] @ replicate 8 0"
proof -
  have "replicate 20 (0 :: u64) = replicate 11 0 @ [0] @ replicate 8 0" by code_simp
  moreover have "take 5 (a[4 := 6]) = take 4 a @ [6]"
    using assms by (elim list25) simp
  ultimately show ?thesis
    using assms by (simp add: sha3t_reabsorb_def Let_def list_update_append)
qed

lemma sha3t_pass:
  assumes "length a = 25" and "concat (map (le_bytes 8) (take 4 a)) = d"
  shows "length (keccakf (sha3t_reabsorb a)) = 25
    \<and> concat (map (le_bytes 8) (take 4 (keccakf (sha3t_reabsorb a)))) = sha3_256 d"
  using assms sha3_256_lanes [of "take 4 a"]
  by (auto simp: sha3t_reabsorb_lanes keccakf_keccak_f)

lemma sha3t_hash_sha3:
  assumes "length hdr = 80"
  shows "digest_bytes (sha3t_hash (hdr_lanes hdr) n)
    = sha3_256 (sha3_256 (sha3_256 (take 76 hdr @ le_bytes 4 n)))"
proof -
  let ?a = "keccakf (sha3t_absorb (hdr_lanes hdr) n)"
  have h: "length (hdr_lanes hdr) = 10" by (simp add: hdr_lanes_def)
  let ?ws = "take 9 (hdr_lanes hdr) @ [(hdr_lanes hdr ! 9 AND 0x00000000ffffffff) OR push_bit 32 (ucast n)]"
  have "length ?ws = 10" using h by simp
  then have "length ?a = 25 \<and> concat (map (le_bytes 8) (take 4 ?a)) = sha3_256 (take 76 hdr @ le_bytes 4 n)"
    using sha3_256_lanes [of ?ws] h header_lanes [OF assms, of n]
    by (simp add: sha3t_absorb_lanes [OF h] keccakf_keccak_f)
  then have 1: "length ?a = 25" "concat (map (le_bytes 8) (take 4 ?a)) = sha3_256 (take 76 hdr @ le_bytes 4 n)"
    by auto
  let ?b = "keccakf (sha3t_reabsorb (keccakf (sha3t_reabsorb ?a)))"
  have 2: "length ?b = 25" "concat (map (le_bytes 8) (take 4 ?b))
      = sha3_256 (sha3_256 (sha3_256 (take 76 hdr @ le_bytes 4 n)))"
    using sha3t_pass [OF 1] sha3t_pass by blast+
  have "fold (\<lambda>pass a. keccakf (sha3t_reabsorb a)) [0..<2] ?a = ?b" by (simp add: upt_rec)
  moreover have "take 4 ?b = [?b ! 0, ?b ! 1, ?b ! 2, ?b ! 3]"
    using 2(1) by (elim list25) simp
  ultimately show ?thesis using 2(2) by (simp add: digest_bytes_def sha3t_hash_def Let_def)
qed

subsection \<open>The target\<close>

text \<open>Digest and target as little-endian numbers: the last byte, or lane, is the most significant.\<close>

definition le_val :: "'a::len word list \<Rightarrow> nat" where
  "le_val ws = big_val (rev ws)"

lemma le_val_digest: "le_val (digest_bytes d) = big_val [l3 d, l2 d, l1 d, l0 d]"
proof -
  have "rev (digest_bytes d) = concat (map (be_bytes 8) [l3 d, l2 d, l1 d, l0 d])"
    by (simp add: digest_bytes_def be_bytes_def)
  moreover have "LENGTH(64) = 8 * 8" by simp
  ultimately show ?thesis by (simp only: le_val_def big_val_concat_be_bytes)
qed

interpretation sha3t_target: share_target sha3t_le_target "\<lambda>_. True" "\<lambda>t. length t = 4"
  "\<lambda>d. le_val (digest_bytes d)" le_val
proof unfold_locales
  fix d :: Digest4 and t :: "u64 list"
  assume "length t = 4"
  then obtain t0 t1 t2 t3 where t: "t = [t0, t1, t2, t3]"
    by (auto simp: length_Suc_conv numeral_eq_Suc)
  have v: "le_val t = big_val [t3, t2, t1, t0]" by (simp add: t le_val_def)
  have "le_val (digest_bytes d) \<le> le_val t \<longleftrightarrow>
      l3 d < t3 \<or> l3 d = t3 \<and> (l2 d < t2 \<or> l2 d = t2 \<and> (l1 d < t1 \<or> l1 d = t1 \<and> (l0 d < t0 \<or> l0 d = t0)))"
    unfolding le_val_digest v by (simp add: big_val_Cons_le del: big_val.simps(2))
  moreover have "l0 d \<le> t0 \<longleftrightarrow> l0 d < t0 \<or> l0 d = t0" by (rule order.order_iff_strict)
  ultimately show "sha3t_le_target d t \<longleftrightarrow> le_val (digest_bytes d) \<le> le_val t"
    by (auto simp: sha3t_le_target_def t)
qed

subsection \<open>The C interface\<close>

text \<open>\<^verbatim>\<open>atoi\<close>: white space, a sign, and the digits that follow.\<close>

definition is_digit :: "char \<Rightarrow> bool" where
  "is_digit c \<longleftrightarrow> 48 \<le> (of_char c :: nat) \<and> (of_char c :: nat) \<le> 57"

definition is_space :: "char \<Rightarrow> bool" where
  "is_space c \<longleftrightarrow> c = CHR '' '' \<or> 9 \<le> (of_char c :: nat) \<and> (of_char c :: nat) \<le> 13"

definition digits_val :: "string \<Rightarrow> int" where
  "digits_val s = foldl (\<lambda>n c. 10 * n + (int (of_char c) - 48)) 0 (takeWhile is_digit s)"

definition atoi :: "string \<Rightarrow> int" where
  "atoi s = (case dropWhile is_space s of
     [] \<Rightarrow> 0
   | c # cs \<Rightarrow> if c = CHR ''-'' then - digits_val cs
              else if c = CHR ''+'' then digits_val cs
              else digits_val (c # cs))"

text \<open>The two tuning variables; \<open>None\<close> is a variable that is not set.\<close>

definition nonces_per_thread :: "string option \<Rightarrow> u32" where
  "nonces_per_thread env = (case env of
     Some v \<Rightarrow> let n = atoi v in if 1 \<le> n \<and> n \<le> 256 then of_int n else 4
   | None \<Rightarrow> 4)"

definition want_large_grf :: "string option \<Rightarrow> bool" where
  "want_large_grf env = (case env of Some v \<Rightarrow> 256 \<le> atoi v | None \<Rightarrow> False)"

text \<open>
  The launch: the two kernels have the same body and differ in a property of the device code,
  so the choice does not show in the result.
\<close>

definition sha3t_win :: "u64 list \<Rightarrow> u64 list \<Rightarrow> u32 \<Rightarrow> bool" where
  "sha3t_win hdr target nonce = sha3t_le_target (sha3t_hash hdr nonce) target"

definition sha3t_run_search ::
    "nat list \<Rightarrow> u64 list \<Rightarrow> u64 list \<Rightarrow> search_cfg \<Rightarrow> u32 \<Rightarrow> u32 list \<Rightarrow> bool \<Rightarrow> (u32 \<times> u32 list) option" where
  "sha3t_run_search sched hdr target cfg cnt fnd large_grf = run_kernel (sha3t_win hdr target) cfg sched cnt fnd"

definition sha3t_capi_search ::
    "string option \<Rightarrow> sycl_rt \<Rightarrow> u64 list \<Rightarrow> u64 list \<Rightarrow> u32 \<Rightarrow> u32 \<Rightarrow> u32 list \<Rightarrow> u32 \<Rightarrow> capi_st
     \<Rightarrow> outcome \<times> capi_st" where
  "sha3t_capi_search env rt hdr10 target4 = capi_search ''sha3t_capi_open not called''
     (sha3t_win (take 10 hdr10) (take 4 target4)) (nonces_per_thread env) rt"

text \<open>The device functions repeat the text of \<^verbatim>\<open>csd_capi.cpp\<close>.\<close>

definition sha3t_capi_device_count :: "sycl_rt \<Rightarrow> int" where
  "sha3t_capi_device_count = device_count"

definition sha3t_capi_open :: "sycl_rt \<Rightarrow> int \<Rightarrow> capi_st \<Rightarrow> int \<times> capi_st" where
  "sha3t_capi_open = capi_open"

definition sha3t_capi_device_name :: "capi_st \<Rightarrow> string" where
  "sha3t_capi_device_name = capi_device_name"

definition sha3t_capi_device_name_at :: "sycl_rt \<Rightarrow> int \<Rightarrow> string" where
  "sha3t_capi_device_name_at = device_name_at"

definition sha3t_capi_close :: "capi_st \<Rightarrow> capi_st" where
  "sha3t_capi_close = capi_close"

text \<open>\<^verbatim>\<open>sha3t_capi_hash_one\<close>: its buffer is released only when nothing throws.\<close>

datatype hash_outcome = Hash_Returns int "u64 list" | Hash_Null

definition sha3t_capi_hash_one ::
    "sycl_rt \<Rightarrow> u64 list \<Rightarrow> u32 \<Rightarrow> u64 list \<Rightarrow> capi_st \<Rightarrow> hash_outcome \<times> capi_st" where
  "sha3t_capi_hash_one rt hdr10 nonce out4 st =
     (case g_ctx st of
        None \<Rightarrow> (Hash_Returns (-1) out4, st\<lparr>g_last_error := ''sha3t_capi_open not called''\<rparr>)
      | Some c \<Rightarrow>
          (case malloc_shared rt (usm st) of
             (Throw what, h) \<Rightarrow> (Hash_Returns (-3) out4, st\<lparr>usm := h, g_last_error := what\<rparr>)
           | (Ret None, h) \<Rightarrow> (Hash_Null, st\<lparr>usm := h\<rparr>)
           | (Ret (Some buf), h) \<Rightarrow>
               (case rt_launch rt of
                  Throw what \<Rightarrow> (Hash_Returns (-3) out4, st\<lparr>usm := h, g_last_error := what\<rparr>)
                | Ret _ \<Rightarrow>
                    (let d = sha3t_hash (take 10 hdr10) nonce; st = AsyncErrorHandler (rt_async rt) st in
                     case rt_wait rt of
                       Throw what \<Rightarrow> (Hash_Returns (-3) out4, st\<lparr>usm := h, g_last_error := what\<rparr>)
                     | Ret _ \<Rightarrow> (Hash_Returns 0 [l0 d, l1 d, l2 d, l3 d], st\<lparr>usm := usm_free buf h\<rparr>)))))"

lemma nonces_per_thread_bounds: "1 \<le> unat (nonces_per_thread env) \<and> unat (nonces_per_thread env) \<le> 256"
proof -
  have u: "unat (of_int n :: u32) = nat n" if "1 \<le> n" "n \<le> 256" for n
  proof -
    have "(of_int n :: u32) = of_nat (nat n)" using that by simp
    moreover have "nat n < 2 ^ 32" using that by simp
    ultimately show ?thesis by (simp only: unat_of_nat_len)
  qed
  show ?thesis
  proof (cases env)
    case None
    then show ?thesis by (simp add: nonces_per_thread_def)
  next
    case (Some v)
    then show ?thesis using u [of "atoi v"] by (auto simp: nonces_per_thread_def Let_def)
  qed
qed

subsection \<open>Properties\<close>

text \<open>
  C9. For every 80-byte header and nonce the fused kernel computes SHA3-256 applied three times
  to the header with the nonce in its last four bytes, the byte order of lanes, the padding and
  the in-place permutation included.
\<close>

theorem sha3t_hash_correct:
  assumes "length hdr = 80"
  shows "digest_bytes (sha3t_hash (hdr_lanes hdr) n)
    = sha3_256 (sha3_256 (sha3_256 (take 76 hdr @ le_bytes 4 n)))"
  by (rule sha3t_hash_sha3 [OF assms])

theorem sha3t_hash_correct_witness:
  "digest_bytes (sha3t_hash (hdr_lanes (replicate 80 1)) 723721353)
    = sha3_256 (sha3_256 (sha3_256 (take 76 (replicate 80 1) @ le_bytes 4 (723721353 :: u32))))"
  by (rule sha3t_hash_correct) simp

text \<open>
  C2. On an opened device, with a runtime that allocates, reports no error and lets every work-item
  run to its end, and for a \<open>count\<close> of at most \<open>2 ^ 32 - 256\<close>, a SHA3-256t search returns 0, the
  number of nonces of the range for which the triple SHA3-256 of the header, read as a little-endian
  number, does not exceed the target, and as many of these nonces, all different, as the caller's
  array and the device array of 4096 places hold, whatever value the tuning variable for the share
  of a work-item has.
\<close>

theorem sha3t_capi_search_finds:
  assumes "length hdr = 80" and "length target = 4"
    and "g_ctx st = Some c" and "ctx_ok c" and "count \<noteq> 0" and "unat count + 256 \<le> 2 ^ 32"
    and "cfg = search_cfg_of (nonces_per_thread env) base count"
    and "rt_good rt cfg" and "length out = unat cap"
  shows "\<exists>cnt arr st'.
    sha3t_capi_search env rt (hdr_lanes hdr) target base count out cap st = (Returns 0 cnt arr, st')
    \<and> report_ok {k. k < unat count \<and>
         le_val (sha3_256 (sha3_256 (sha3_256 (take 76 hdr @ le_bytes 4 (base + of_nat k))))) \<le> le_val target}
        cfg cap cnt arr"
proof -
  have t: "take 10 (hdr_lanes hdr) = hdr_lanes hdr" "take 4 target = target"
    using assms(2) by (simp_all add: hdr_lanes_def)
  have "cfg_ok cfg"
    using assms(6,7) nonces_per_thread_bounds [of env]
    by (auto simp: cfg_ok_def search_cfg_of_def unat_eq_zero)
  moreover have "wins (sha3t_win (hdr_lanes hdr) target) cfg = {k. k < unat count \<and>
         le_val (sha3_256 (sha3_256 (sha3_256 (take 76 hdr @ le_bytes 4 (base + of_nat k))))) \<le> le_val target}"
    unfolding sha3t_win_def using sha3t_target.wins_iff [where h = "sha3t_hash (hdr_lanes hdr)" and t = target and cfg = cfg] assms(2,7)
    by (simp add: sha3t_hash_sha3 [OF assms(1)] search_cfg_of_def)
  ultimately show ?thesis
    using capi_search_winners [OF assms(3,4,5,7) _ assms(8,9),
        of "''sha3t_capi_open not called''" "sha3t_win (hdr_lanes hdr) target"]
    by (simp add: sha3t_capi_search_def t)
qed

theorem sha3t_capi_search_finds_witness:
  "\<exists>cnt arr st'. sha3t_capi_search None demo_rt (hdr_lanes (replicate 80 0)) [0, 0, 0, 1] 0 1 [0] 1
       (demo_st\<lparr>g_ctx := Some demo_ctx\<rparr>) = (Returns 0 cnt arr, st')
    \<and> report_ok {k. k < unat (1 :: u32) \<and>
         le_val (sha3_256 (sha3_256 (sha3_256 (take 76 (replicate 80 0) @ le_bytes 4 (0 + of_nat k :: u32)))))
           \<le> le_val [0, 0, 0, 1 :: u64]}
        (search_cfg_of 4 0 1) 1 cnt arr"
  by (rule sha3t_capi_search_finds [of _ _ _ demo_ctx])
    (simp_all add: demo_good demo_st_def nonces_per_thread_def)

end
