(* ===== verification/Nm_Params.thy ===== *)
theory Nm_Params
  imports Sha256
begin

text \<open>
  The parameters of a NeuroMorph epoch, \<^verbatim>\<open>crypto/nm/nm_params.c\<close>: program size, loop count, masks,
  keys and the table that maps a byte to an opcode, all derived from a 32-byte seed with tagged
  hashes.
\<close>

subsection \<open>Model\<close>

definition NM_NUM_OPS :: nat where
  "NM_NUM_OPS = 15"

record nm_params =
  prog_size :: nat
  loops :: nat
  branch_mask :: u64
  rot_salt :: u64
  aes_key :: "u8 list"
  dataset_key :: "u8 list"
  op_table :: "u8 list"

definition le16 :: "u8 list \<Rightarrow> u16" where
  "le16 b = ucast (b ! 0) OR push_bit 8 (ucast (b ! 1))"

definition le64 :: "u8 list \<Rightarrow> u64" where
  "le64 b = fold (\<lambda>i v. v OR push_bit (8 * i) (ucast (b ! i))) [0..<8] 0"

text \<open>The bytes of a C string without its terminator.\<close>

definition bytes_of :: "string \<Rightarrow> u8 list" where
  "bytes_of s = map of_char s"

definition hash_tagged :: "string \<Rightarrow> u8 list \<Rightarrow> u8 list" where
  "hash_tagged prefix seed =
     nm_sha256_final (nm_sha256_update (nm_sha256_update (nm_sha256_init stack_ctx) (bytes_of prefix)) (take 32 seed))"

text \<open>
  The weights, and the filling of the table. The index \<^verbatim>\<open>idx\<close> of the source is the length of the
  part written so far; every entry is written before the function ends.
\<close>

definition op_weights :: "u8 list \<Rightarrow> nat list" where
  "op_weights wh = map (\<lambda>i. 1 + unat (wh ! i mod 8)) [0..<NM_NUM_OPS]"

definition fill_op :: "nat list \<Rightarrow> nat \<Rightarrow> u8 list \<Rightarrow> u8 list" where
  "fill_op weights op tbl =
     (let idx = length tbl;
          n = weights ! op * 256 div sum_list weights;
          n' = (if op = NM_NUM_OPS - 1 then 256 - idx else n)
      in tbl @ replicate (min n' (256 - idx)) (of_nat op))"

definition fill_rest :: "u8 list \<Rightarrow> u8 list \<Rightarrow> u8 list" where
  "fill_rest wh tbl = fold (\<lambda>idx t. t @ [wh ! (idx mod 32) mod of_nat NM_NUM_OPS]) [length tbl..<256] tbl"

definition nm_op_table :: "u8 list \<Rightarrow> u8 list" where
  "nm_op_table wh = fill_rest wh (fold (fill_op (op_weights wh)) [0..<NM_NUM_OPS] [])"

definition nm_derive_params :: "u8 list \<Rightarrow> nm_params" where
  "nm_derive_params seed =
     (let h = hash_tagged ''nm-params|'' seed;
          dk = hash_tagged ''nm-dataset|'' seed;
          wh = hash_tagged ''nm-weights|'' seed
      in \<lparr>prog_size = 384 + unat (le16 h mod 385),
          loops = 32 + unat (h ! 2 mod 33),
          branch_mask = push_bit (unat (h ! 3 mod 24)) 0xFF,
          rot_salt = le64 (drop 4 h),
          aes_key = take 16 (drop 12 h),
          dataset_key = take 16 dk,
          op_table = nm_op_table wh\<rparr>)"

subsection \<open>The hashes\<close>

lemma hash_tagged_hsha: "length seed = 32 \<Longrightarrow> hash_tagged prefix seed = hsha (bytes_of prefix @ seed)"
proof -
  assume seed: "length seed = 32"
  have c: "length (sha_buf stack_ctx) = 64" by (simp add: stack_ctx_def)
  have "hash_tagged prefix seed = nm_sha256_from stack_ctx (bytes_of prefix @ seed)"
    using seed nms.update_split [OF nm_init_wf [OF c]] by (simp add: hash_tagged_def nm_sha256_from_def)
  then show ?thesis by (simp only: nm_sha256_from_absorb [OF c] hsha_absorb nm_compress_hblock)
qed

lemma le64_le_word: "8 \<le> length b \<Longrightarrow> le64 b = le_word (take 8 b)"
proof -
  assume "8 \<le> length b"
  then have "length (take 8 b) = 8" by simp
  then show ?thesis unfolding le64_def le_word_def by (simp only:) (rule fold_upt_eqI, simp)
qed

subsection \<open>The opcode table\<close>

lemma sum_weights_bounds: "length (op_weights wh) = 15" "i < 15 \<Longrightarrow> 1 \<le> op_weights wh ! i \<and> op_weights wh ! i \<le> 8"
proof -
  show "length (op_weights wh) = 15" by (simp add: op_weights_def NM_NUM_OPS_def)
  have "unat (wh ! i mod 8) < 8" by (simp add: unat_mod_distrib)
  then show "i < 15 \<Longrightarrow> 1 \<le> op_weights wh ! i \<and> op_weights wh ! i \<le> 8"
    by (simp add: op_weights_def NM_NUM_OPS_def)
qed

lemma sum_weights_le: "sum_list (op_weights wh) \<le> 120"
proof -
  have "sum_list (map (\<lambda>i. 1 + unat (wh ! i mod 8)) [0..<15]) \<le> sum_list (map (\<lambda>i. 8) [0..<15 :: nat])"
    by (rule sum_list_mono) (simp add: unat_mod_distrib Suc_le_eq)
  then show ?thesis by (simp add: op_weights_def NM_NUM_OPS_def sum_list_triv)
qed

lemma count_list_replicate: "count_list (replicate n x) y = (if x = y then n else 0)"
  by (induction n) auto

text \<open>
  Before opcode \<open>k\<close> the written part takes no more than the share of the first \<open>k\<close> weights, so it
  never overruns the table; it holds every earlier opcode at least twice and nothing else.
\<close>

definition ops_ok :: "nat list \<Rightarrow> nat \<Rightarrow> u8 list \<Rightarrow> bool" where
  "ops_ok ws k tbl \<longleftrightarrow> length tbl * sum_list ws \<le> 256 * sum_list (take k ws)
     \<and> set tbl \<subseteq> of_nat ` {..<k} \<and> (\<forall>op < k. 2 \<le> count_list tbl (of_nat op))"

lemma fill_op_ok:
  assumes ws: "length ws = 15" "\<And>i. i < 15 \<Longrightarrow> 1 \<le> ws ! i" "sum_list ws \<le> 120"
    and k: "k < 14" and ok: "ops_ok ws k tbl"
  shows "ops_ok ws (Suc k) (fill_op ws k tbl)"
proof -
  let ?t = "sum_list ws" and ?n = "ws ! k * 256 div sum_list ws"
  have w: "1 \<le> ws ! k" using ws(2) k by simp
  have take: "sum_list (take (Suc k) ws) = sum_list (take k ws) + ws ! k"
    using ws(1) k by (simp add: take_Suc_conv_app_nth)
  have le_t: "sum_list (take (Suc k) ws) \<le> ?t"
    using append_take_drop_id [of "Suc k" ws] by (metis le_add1 sum_list_append)
  have t: "0 < ?t" using take le_t w by simp
  have "?n * ?t \<le> ws ! k * 256" by (rule div_times_less_eq_dividend)
  then have len: "(length tbl + ?n) * ?t \<le> 256 * sum_list (take (Suc k) ws)"
    using ok take unfolding ops_ok_def add_mult_distrib by linarith
  also have "\<dots> \<le> 256 * ?t" using le_t by simp
  finally have "length tbl + ?n \<le> 256" using t by simp
  then have fill: "fill_op ws k tbl = tbl @ replicate ?n (of_nat k)"
    using k by (simp add: fill_op_def NM_NUM_OPS_def Let_def)
  have "2 * ?t div ?t \<le> ?n" using ws(3) w by (intro div_le_mono) simp
  then have "2 \<le> ?n" using t by simp
  then show ?thesis
    using ok len by (auto simp: ops_ok_def fill count_list_replicate less_Suc_eq)
qed

lemma last_op_ok:
  assumes ws: "length ws = 15" "\<And>i. i < 15 \<Longrightarrow> 1 \<le> ws ! i" "sum_list ws \<le> 120" and ok: "ops_ok ws 14 tbl"
  shows "length (fill_op ws 14 tbl) = 256 \<and> set (fill_op ws 14 tbl) \<subseteq> of_nat ` {..<15}
    \<and> (\<forall>op < 15. 2 \<le> count_list (fill_op ws 14 tbl) (of_nat op))"
proof -
  let ?t = "sum_list ws" and ?r = "256 - length tbl"
  have w: "1 \<le> ws ! 14" using ws(2) by simp
  have "sum_list (take (Suc 14) ws) = sum_list (take 14 ws) + ws ! 14"
    using ws(1) by (subst take_Suc_conv_app_nth) simp_all
  then have take: "?t = sum_list (take 14 ws) + ws ! 14" using ws(1) by simp
  have "length tbl * ?t \<le> 256 * sum_list (take 14 ws)" using ok by (simp add: ops_ok_def)
  then have len: "length tbl * ?t + 256 \<le> 256 * ?t" using take w by simp
  have "length tbl < 256"
  proof (rule ccontr)
    assume "\<not> length tbl < 256"
    then have "256 * ?t \<le> length tbl * ?t" by (intro mult_le_mono1) simp
    with len show False by simp
  qed
  then have "256 * ?t = length tbl * ?t + ?r * ?t" by (simp flip: add_mult_distrib)
  with len have "2 * ?t < ?r * ?t" using ws(3) by linarith
  then have r: "2 \<le> ?r" by simp
  have fill: "fill_op ws 14 tbl = tbl @ replicate ?r 14" by (simp add: fill_op_def NM_NUM_OPS_def Let_def)
  have "2 \<le> count_list (fill_op ws 14 tbl) (of_nat op)" if "op < 15" for op
    using that ok r by (cases "op = 14") (auto simp: ops_ok_def fill count_list_replicate)
  moreover have "{..<15 :: nat} = insert 14 {..<14}" by auto
  ultimately show ?thesis
    using ok r \<open>length tbl < 256\<close> by (auto simp: ops_ok_def fill)
qed

lemma nm_op_table_props:
  "nm_op_table wh = fold (fill_op (op_weights wh)) [0..<15] []"
  "length (nm_op_table wh) = 256" "set (nm_op_table wh) \<subseteq> of_nat ` {..<15}"
  "op < 15 \<Longrightarrow> 2 \<le> count_list (nm_op_table wh) (of_nat op)"
proof -
  let ?ws = "op_weights wh"
  have ws: "length ?ws = 15" "\<And>i. i < 15 \<Longrightarrow> 1 \<le> ?ws ! i" "sum_list ?ws \<le> 120"
    using sum_weights_bounds sum_weights_le by auto
  have "ops_ok ?ws 14 (fold (fill_op ?ws) [0..<14] [])"
    by (rule fold_upt_inv) (simp add: ops_ok_def, simp, blast intro: fill_op_ok [OF ws])
  moreover have "[0..<15] = [0..<14] @ [14 :: nat]" using upt_Suc_append [of 0 14] by simp
  ultimately have all: "length (fold (fill_op ?ws) [0..<15] []) = 256"
    "set (fold (fill_op ?ws) [0..<15] []) \<subseteq> of_nat ` {..<15}"
    "\<forall>op < 15. 2 \<le> count_list (fold (fill_op ?ws) [0..<15] []) (of_nat op)"
    using last_op_ok [OF ws, of "fold (fill_op ?ws) [0..<14] []"] by simp_all
  then show eq: "nm_op_table wh = fold (fill_op ?ws) [0..<15] []"
    by (simp add: nm_op_table_def fill_rest_def NM_NUM_OPS_def)
  show "length (nm_op_table wh) = 256" "set (nm_op_table wh) \<subseteq> of_nat ` {..<15}"
    "op < 15 \<Longrightarrow> 2 \<le> count_list (nm_op_table wh) (of_nat op)"
    using all unfolding eq by simp_all
qed

subsection \<open>Well-formed parameters\<close>

definition params_ok :: "nm_params \<Rightarrow> bool" where
  "params_ok p \<longleftrightarrow> 384 \<le> prog_size p \<and> prog_size p \<le> 768 \<and> 32 \<le> loops p \<and> loops p \<le> 64
     \<and> length (aes_key p) = 16 \<and> length (dataset_key p) = 16 \<and> length (op_table p) = 256
     \<and> (\<forall>op \<in> set (op_table p). unat op < NM_NUM_OPS)"

lemma derive_params_ok:
  assumes "length seed = 32"
  shows "params_ok (nm_derive_params seed)"
proof -
  have "unat (le16 h mod 385) \<le> 384" "unat (h ! 2 mod 33) \<le> 32" for h :: "u8 list"
    by (simp_all add: unat_mod_distrib less_Suc_eq_le [symmetric])
  moreover have "unat op < 15" if "op \<in> set (nm_op_table wh)" for op wh
    using that nm_op_table_props(3) [of wh] by (auto simp: unat_of_nat)
  ultimately show ?thesis
    using nm_op_table_props(2)
    by (simp add: params_ok_def nm_derive_params_def hash_tagged_hsha [OF assms] NM_NUM_OPS_def Let_def)
qed

subsection \<open>Properties\<close>

text \<open>
  C33. The parameters derived from any seed are in range: between 384 and 768 instructions, 32 to
  64 loops, full keys, and a table of 256 entries in which every entry is an opcode and each of
  the fifteen opcodes occurs at least twice. The loop that would complete the table from the
  hash bytes never runs.
\<close>

theorem nm_derive_params_ok:
  assumes "length seed = 32"
  shows "params_ok (nm_derive_params seed)
    \<and> list_all (\<lambda>op. 2 \<le> count_list (op_table (nm_derive_params seed)) (of_nat op)) [0..<15]
    \<and> nm_op_table wh = fold (fill_op (op_weights wh)) [0..<NM_NUM_OPS] []"
proof -
  have "op_table (nm_derive_params seed) = nm_op_table (hash_tagged ''nm-weights|'' seed)"
    by (simp add: nm_derive_params_def Let_def)
  then show ?thesis
    using derive_params_ok [OF assms] nm_op_table_props(4) nm_op_table_props(1) [of wh]
    by (simp add: list_all_iff NM_NUM_OPS_def)
qed

theorem nm_derive_params_ok_witness:
  "params_ok (nm_derive_params (replicate 32 0))
    \<and> list_all (\<lambda>op. 2 \<le> count_list (op_table (nm_derive_params (replicate 32 0))) (of_nat op)) [0..<15]
    \<and> nm_op_table [] = fold (fill_op (op_weights [])) [0..<NM_NUM_OPS] []"
  by (rule nm_derive_params_ok) simp

end
