(* ===== verification/Nm_Aes.thy ===== *)
theory Nm_Aes
  imports Prelude
begin

text \<open>
  AES-128 as \<^verbatim>\<open>crypto/nm/nm_aes.h\<close> has it: the key schedule, the portable encryption, and the
  two forms of the eight-block batch, in a loop over the portable routine and with the AES
  instructions. The instructions are not in the sources: they are arguments of the definitions
  that use them, with their documented effect on a state and a round key as a hypothesis.
\<close>

subsection \<open>Key schedule and portable encryption\<close>

definition NM_SBOX :: "u8 list" where
  "NM_SBOX = [
    99, 124, 119, 123, 242, 107, 111, 197, 48, 1, 103, 43, 254, 215, 171, 118,
    202, 130, 201, 125, 250, 89, 71, 240, 173, 212, 162, 175, 156, 164, 114, 192,
    183, 253, 147, 38, 54, 63, 247, 204, 52, 165, 229, 241, 113, 216, 49, 21,
    4, 199, 35, 195, 24, 150, 5, 154, 7, 18, 128, 226, 235, 39, 178, 117,
    9, 131, 44, 26, 27, 110, 90, 160, 82, 59, 214, 179, 41, 227, 47, 132,
    83, 209, 0, 237, 32, 252, 177, 91, 106, 203, 190, 57, 74, 76, 88, 207,
    208, 239, 170, 251, 67, 77, 51, 133, 69, 249, 2, 127, 80, 60, 159, 168,
    81, 163, 64, 143, 146, 157, 56, 245, 188, 182, 218, 33, 16, 255, 243, 210,
    205, 12, 19, 236, 95, 151, 68, 23, 196, 167, 126, 61, 100, 93, 25, 115,
    96, 129, 79, 220, 34, 42, 144, 136, 70, 238, 184, 20, 222, 94, 11, 219,
    224, 50, 58, 10, 73, 6, 36, 92, 194, 211, 172, 98, 145, 149, 228, 121,
    231, 200, 55, 109, 141, 213, 78, 169, 108, 86, 244, 234, 101, 122, 174, 8,
    186, 120, 37, 46, 28, 166, 180, 198, 232, 221, 116, 31, 75, 189, 139, 138,
    112, 62, 181, 102, 72, 3, 246, 14, 97, 53, 87, 185, 134, 193, 29, 158,
    225, 248, 152, 17, 105, 217, 142, 148, 155, 30, 135, 233, 206, 85, 40, 223,
    140, 161, 137, 13, 191, 230, 66, 104, 65, 153, 45, 15, 176, 84, 187, 22]"

definition sbox :: "u8 \<Rightarrow> u8" where
  "sbox x = NM_SBOX ! unat x"

definition rcon :: "u8 list" where
  "rcon = [1, 2, 4, 8, 16, 32, 64, 128, 27, 54]"

text \<open>
  The \<^verbatim>\<open>while (bytes < 176)\<close> loop advances by four bytes per turn, so turn \<open>k\<close> starts at
  \<open>16 + 4 * k\<close>, and \<^verbatim>\<open>rconi\<close> has counted the earlier multiples of 16.
\<close>

definition expand_turn :: "nat \<Rightarrow> u8 list \<Rightarrow> u8 list" where
  "expand_turn k rk =
     (let bytes = 16 + 4 * k;
          t = [rk ! (bytes - 4), rk ! (bytes - 3), rk ! (bytes - 2), rk ! (bytes - 1)];
          t' = (if bytes mod 16 = 0
                then [sbox (t ! 1) XOR rcon ! (bytes div 16 - 1), sbox (t ! 2), sbox (t ! 3), sbox (t ! 0)]
                else t)
      in fold (\<lambda>i rk. rk @ [rk ! (bytes + i - 16) XOR t' ! i]) [0..<4] rk)"

definition nm_aes128_expand :: "u8 list \<Rightarrow> u8 list" where
  "nm_aes128_expand key = fold expand_turn [0..<40] (take 16 key)"

definition nm_xtime :: "u8 \<Rightarrow> u8" where
  "nm_xtime x = push_bit 1 x XOR (drop_bit 7 x AND 1) * 0x1b"

definition add_key :: "u8 list \<Rightarrow> nat \<Rightarrow> u8 list \<Rightarrow> u8 list" where
  "add_key rk off s = map (\<lambda>i. s ! i XOR rk ! (off + i)) [0..<16]"

definition sub_bytes :: "u8 list \<Rightarrow> u8 list" where
  "sub_bytes s = map (\<lambda>i. sbox (s ! i)) [0..<16]"

text \<open>\<^verbatim>\<open>t[r+4*c] = s[r+4*((c+r)&3)]\<close>, listed by the index of \<^verbatim>\<open>t\<close>.\<close>

definition shift_rows :: "u8 list \<Rightarrow> u8 list" where
  "shift_rows s = map (\<lambda>i. s ! (i mod 4 + 4 * ((i div 4 + i mod 4) mod 4))) [0..<16]"

definition mix_col :: "u8 \<Rightarrow> u8 \<Rightarrow> u8 \<Rightarrow> u8 \<Rightarrow> u8 list" where
  "mix_col a0 a1 a2 a3 =
     [nm_xtime a0 XOR (nm_xtime a1 XOR a1) XOR a2 XOR a3,
      a0 XOR nm_xtime a1 XOR (nm_xtime a2 XOR a2) XOR a3,
      a0 XOR a1 XOR nm_xtime a2 XOR (nm_xtime a3 XOR a3),
      (nm_xtime a0 XOR a0) XOR a1 XOR a2 XOR nm_xtime a3]"

definition mix_columns :: "u8 list \<Rightarrow> u8 list" where
  "mix_columns s =
     concat (map (\<lambda>c. mix_col (s ! (4 * c)) (s ! (4 * c + 1)) (s ! (4 * c + 2)) (s ! (4 * c + 3))) [0..<4])"

definition nm_aes128_encrypt_sw :: "u8 list \<Rightarrow> u8 list \<Rightarrow> u8 list" where
  "nm_aes128_encrypt_sw rk inp =
     (let s0 = add_key rk 0 inp;
          s = fold (\<lambda>round s. add_key rk (16 * round) (mix_columns (shift_rows (sub_bytes s)))) [1..<10] s0
      in add_key rk 160 (shift_rows (sub_bytes s)))"

text \<open>The batch of eight blocks, portable form.\<close>

definition nm_aes128_encrypt8 :: "u8 list \<Rightarrow> u8 list \<Rightarrow> u8 list" where
  "nm_aes128_encrypt8 rk inp = concat (map (\<lambda>j. nm_aes128_encrypt_sw rk (chunk 16 j inp)) [0..<8])"

subsection \<open>With the AES instructions\<close>

definition xor_block :: "u8 list \<Rightarrow> u8 list \<Rightarrow> u8 list" where
  "xor_block a b = map2 (\<lambda>x y. x XOR y) a b"

definition nm_aes128_encrypt_ni ::
    "(u8 list \<Rightarrow> u8 list \<Rightarrow> u8 list) \<Rightarrow> (u8 list \<Rightarrow> u8 list \<Rightarrow> u8 list) \<Rightarrow> u8 list \<Rightarrow> u8 list \<Rightarrow> u8 list" where
  "nm_aes128_encrypt_ni aesenc aesenclast rk inp =
     (let m0 = xor_block inp (chunk 16 0 rk);
          m = fold (\<lambda>r m. aesenc m (chunk 16 r rk)) [1..<10] m0
      in aesenclast m (chunk 16 10 rk))"

text \<open>Eight states advance together, round by round.\<close>

definition nm_aes128_encrypt8_ni ::
    "(u8 list \<Rightarrow> u8 list \<Rightarrow> u8 list) \<Rightarrow> (u8 list \<Rightarrow> u8 list \<Rightarrow> u8 list) \<Rightarrow> u8 list \<Rightarrow> u8 list \<Rightarrow> u8 list" where
  "nm_aes128_encrypt8_ni aesenc aesenclast rk inp =
     (let rks = map (\<lambda>r. chunk 16 r rk) [0..<11];
          m0 = map (\<lambda>j. xor_block (chunk 16 j inp) (rks ! 0)) [0..<8];
          m = fold (\<lambda>r m. map (\<lambda>x. aesenc x (rks ! r)) m) [1..<10] m0
      in concat (map (\<lambda>x. aesenclast x (rks ! 10)) m))"

text \<open>
  The documented effect of the instructions is the round of the AES standard, written down here
  without the tables and routines of the code. A byte is an element of \<open>GF(2^8)\<close>, a polynomial over
  the bits (lowest coefficient first) modulo \<open>x^8 + x^4 + x^3 + x + 1\<close>.
\<close>

fun gf_add :: "bool list \<Rightarrow> bool list \<Rightarrow> bool list" where
  "gf_add (x # a) (y # b) = (if x then \<not> y else y) # gf_add a b"
| "gf_add _ _ = []"

definition gf_xtime :: "bool list \<Rightarrow> bool list" where
  "gf_xtime b = (if last b then gf_add (False # butlast b) [True, True, False, True, True, False, False, False]
     else False # butlast b)"

primrec gf_mul :: "bool list \<Rightarrow> bool list \<Rightarrow> bool list" where
  "gf_mul [] b = replicate 8 False"
| "gf_mul (x # a) b = (if x then gf_add b (gf_mul a (gf_xtime b)) else gf_mul a (gf_xtime b))"

text \<open>The inverse is the power 254, the product of the powers 2, 4, \<open>\<dots>\<close>, 128; of zero it is zero.\<close>

definition gf_one :: "bool list" where
  "gf_one = [True, False, False, False, False, False, False, False]"

primrec gf_squares :: "nat \<Rightarrow> bool list \<Rightarrow> bool list \<Rightarrow> bool list" where
  "gf_squares 0 p r = r"
| "gf_squares (Suc n) p r = gf_squares n (gf_mul p p) (gf_mul p r)"

definition gf_inv :: "bool list \<Rightarrow> bool list" where
  "gf_inv a = gf_squares 7 (gf_mul a a) gf_one"

text \<open>The S-box: the inverse followed by the affine map with constant 99.\<close>

definition gf_affine :: "bool list \<Rightarrow> bool list" where
  "gf_affine b = map (\<lambda>i. (((((b ! i \<noteq> b ! ((i + 4) mod 8)) \<noteq> b ! ((i + 5) mod 8)) \<noteq> b ! ((i + 6) mod 8)) \<noteq> b ! ((i + 7) mod 8))
     \<noteq> [True, True, False, False, False, True, True, False] ! i)) [0..<8]"

definition gf_bits :: "u8 \<Rightarrow> bool list" where
  "gf_bits x = map (bit x) [0..<8]"

definition gf_byte :: "bool list \<Rightarrow> u8" where
  "gf_byte bs = horner_sum of_bool 2 bs"

definition spec_sbox :: "u8 \<Rightarrow> u8" where
  "spec_sbox x = gf_byte (gf_affine (gf_inv (gf_bits x)))"

definition gf_times :: "u8 \<Rightarrow> u8 \<Rightarrow> u8" where
  "gf_times c x = gf_byte (gf_mul (gf_bits c) (gf_bits x))"

text \<open>
  The byte of row \<open>r\<close> and column \<open>c\<close> of the state is entry \<open>r + 4 * c\<close>. Row \<open>j\<close> of the shifted state
  comes from \<open>j\<close> columns further, and each column is multiplied by the circulant matrix of 2, 3, 1, 1.
\<close>

definition aesenc_spec :: "u8 list \<Rightarrow> u8 list \<Rightarrow> u8 list" where
  "aesenc_spec s k = map (\<lambda>i.
     let r = i mod 4; c = i div 4;
         term = (\<lambda>j. gf_times ([2, 3, 1, 1] ! ((j + 4 - r) mod 4)) (spec_sbox (s ! (j + 4 * ((c + j) mod 4)))))
     in term 0 XOR term 1 XOR term 2 XOR term 3 XOR k ! i) [0..<16]"

definition aesenclast_spec :: "u8 list \<Rightarrow> u8 list \<Rightarrow> u8 list" where
  "aesenclast_spec s k = map (\<lambda>i. spec_sbox (s ! (i mod 4 + 4 * ((i div 4 + i mod 4) mod 4))) XOR k ! i) [0..<16]"

subsection \<open>Lengths\<close>

lemma length_aes [len_simps, simp]:
  "length (add_key rk off s) = 16" "length (sub_bytes s) = 16" "length (shift_rows s) = 16"
  "length (mix_columns s) = 16"
proof -
  show "length (mix_columns s) = 16"
    by (simp add: mix_columns_def mix_col_def length_concat comp_def sum_list_triv)
qed (simp_all add: add_key_def sub_bytes_def shift_rows_def)

lemma length_encrypt_sw [len_simps, simp]: "length (nm_aes128_encrypt_sw rk inp) = 16"
  by (simp add: nm_aes128_encrypt_sw_def Let_def)

lemma length_encrypt8 [len_simps, simp]: "length (nm_aes128_encrypt8 rk inp) = 128"
  by (simp add: nm_aes128_encrypt8_def length_concat comp_def sum_list_triv)

lemma length_expand_turn [len_simps, simp]: "length (expand_turn k rk) = length rk + 4"
proof -
  have "length (fold (\<lambda>i rk. rk @ [g i rk]) xs rk) = length rk + length xs" for g and xs :: "nat list" and rk :: "u8 list"
    by (induction xs arbitrary: rk) simp_all
  then show ?thesis by (simp only: expand_turn_def Let_def) simp
qed

lemma length_expand [len_simps]: "16 \<le> length key \<Longrightarrow> length (nm_aes128_expand key) = 176"
proof -
  have "length (fold expand_turn ks rk) = length rk + 4 * length ks" for ks rk
    by (induction ks arbitrary: rk) simp_all
  then show "16 \<le> length key \<Longrightarrow> length (nm_aes128_expand key) = 176"
    by (simp add: nm_aes128_expand_def)
qed

lemma list16:
  assumes "length s = 16"
  obtains s0 s1 s2 s3 s4 s5 s6 s7 s8 s9 s10 s11 s12 s13 s14 s15 where "s = [s0, s1, s2, s3, s4, s5, s6, s7, s8, s9, s10, s11, s12, s13, s14, s15]"
  using assms by (auto simp: length_Suc_conv numeral_eq_Suc)

lemma upt_16: "[0..<16] = [0, 1, 2, 3, 4, 5, 6, 7, 8, 9, 10, 11, 12, 13, 14, 15]"
  by code_simp

subsection \<open>The round of the standard in the terms of the code\<close>

lemma upt_4: "[0..<4] = [0, 1, 2, 3]"
  by code_simp

lemma nm_xtime_bit: "bit (nm_xtime x) n \<longleftrightarrow>
    (n < 8 \<and> 0 < n \<and> bit x (n - 1)) \<noteq> (bit x 7 \<and> bit (0x1b :: u8) n)"
proof -
  have "bit (push_bit m x) n \<longleftrightarrow> m \<le> n \<and> n < 8 \<and> bit x (n - m)" for m
    by (auto simp: bit_simps dest: bit_imp_le_length)
  from this [of 1] have p: "bit (push_bit 1 x) n \<longleftrightarrow> n < 8 \<and> 0 < n \<and> bit x (n - 1)"
    by (simp only: Suc_le_eq One_nat_def) blast
  have "drop_bit 7 x AND 1 = of_bool (bit x 7)"
    by (simp add: bit_iff_and_drop_bit_eq_1 and_one_eq bit_iff_odd_drop_bit)
  then have "(drop_bit 7 x AND 1) * 0x1b = (if bit x 7 then 0x1b else 0)" by simp
  then show ?thesis unfolding nm_xtime_def bit_xor_iff p by simp
qed

lemma gf_byte_bits [simp]: "gf_byte (gf_bits x) = x"
  by (simp add: gf_byte_def gf_bits_def horner_sum_bit_eq_take_bit take_bit_word_eq_self)

lemma gf_add_nth: "length a = length b \<Longrightarrow> gf_add a b = map (\<lambda>i. a ! i \<noteq> b ! i) [0..<length a]"
proof (induction a b rule: gf_add.induct)
  case (1 x a y b)
  then show ?case by (simp del: upt_Suc add: upt_conv_Cons map_Suc_upt [symmetric] comp_def)
qed auto

lemma bit_gf_byte: "bit (gf_byte bs) n \<longleftrightarrow> n < 8 \<and> n < length bs \<and> bs ! n"
  by (simp add: gf_byte_def bit_horner_sum_bit_word_iff)

lemma gf_byte_add: "length a = length b \<Longrightarrow> gf_byte (gf_add a b) = gf_byte a XOR gf_byte b"
  by (rule bit_word_eqI) (auto simp: bit_gf_byte bit_xor_iff gf_add_nth)

lemma length_gf_add [simp]: "length (gf_add a b) = min (length a) (length b)"
  by (induction a b rule: gf_add.induct) auto

lemma length_gf_bits [simp]: "length (gf_bits x) = 8"
  by (simp add: gf_bits_def)

lemma gf_xtime_bits: "gf_xtime (gf_bits x) = gf_bits (nm_xtime x)"
proof -
  have "[0..<8] = [0, 1, 2, 3, 4, 5, 6, 7 :: nat]" by code_simp
  then show ?thesis by (simp add: gf_xtime_def gf_bits_def nm_xtime_bit numeral_eq_Suc)
qed

lemma gf_times_small: "gf_times 1 x = x" "gf_times 2 x = nm_xtime x" "gf_times 3 x = nm_xtime x XOR x"
proof -
  have u: "[0..<8] = [0, 1, 2, 3, 4, 5, 6, 7 :: nat]" by code_simp
  have b: "gf_bits 1 = [True, False, False, False, False, False, False, False]"
    "gf_bits 2 = [False, True, False, False, False, False, False, False]"
    "gf_bits 3 = [True, True, False, False, False, False, False, False]"
    by (simp_all add: gf_bits_def u)
  have z: "gf_add (gf_bits y) (replicate 8 False) = gf_bits y" for y
    by (simp add: gf_add_nth gf_bits_def)
  show "gf_times 1 x = x" "gf_times 2 x = nm_xtime x" "gf_times 3 x = nm_xtime x XOR x"
    by (simp_all add: gf_times_def b gf_xtime_bits z gf_byte_add xor.commute)
qed


text \<open>
  The table of the code entry by entry: the computed inverse is an inverse, and its affine image is
  the entry.
\<close>

primrec int_bits :: "nat \<Rightarrow> int \<Rightarrow> bool list" where
  "int_bits 0 k = []"
| "int_bits (Suc n) k = odd k # int_bits n (k div 2)"

lemma int_bits_bit: "int_bits n k = map (bit k) [0..<n]"
  by (induction n arbitrary: k)
    (simp_all del: upt_Suc add: upt_conv_Cons map_Suc_upt [symmetric] comp_def bit_0 bit_Suc)

definition sbox_pair :: "bool list \<Rightarrow> bool list \<Rightarrow> bool list \<times> bool list" where
  "sbox_pair a b = (gf_mul a b, gf_affine b)"

definition sbox_entry :: "int \<Rightarrow> bool list \<times> bool list" where
  "sbox_entry a = sbox_pair (int_bits 8 a) (gf_inv (int_bits 8 a))"

lemma sbox_entries_0: "map sbox_entry (map int [0..<64])
  = map (Pair (replicate 8 False)) (map (int_bits 8) [99]) @ map (Pair gf_one) (map (int_bits 8) (map uint (take 63 (drop 1 NM_SBOX))))"
  unfolding NM_SBOX_def by code_simp

lemma sbox_entries_1: "map sbox_entry (map int [64..<128]) = map (Pair gf_one) (map (int_bits 8) (map uint (take 64 (drop 64 NM_SBOX))))"
  unfolding NM_SBOX_def by code_simp

lemma sbox_entries_2: "map sbox_entry (map int [128..<192]) = map (Pair gf_one) (map (int_bits 8) (map uint (take 64 (drop 128 NM_SBOX))))"
  unfolding NM_SBOX_def by code_simp

lemma sbox_entries_3: "map sbox_entry (map int [192..<256]) = map (Pair gf_one) (map (int_bits 8) (map uint (take 64 (drop 192 NM_SBOX))))"
  unfolding NM_SBOX_def by code_simp

lemma sbox_entry_nth:
  assumes "a < 256"
  shows "sbox_entry (int a) = (if a = 0 then replicate 8 False else gf_one, int_bits 8 (uint (NM_SBOX ! a)))"
proof -
  have l: "length NM_SBOX = 256" by (simp add: NM_SBOX_def)
  have z: "uint (NM_SBOX ! 0) = 99" by (simp add: NM_SBOX_def)
  have n: "sbox_entry (int (k + i)) = (gf_one, int_bits 8 (uint (NM_SBOX ! (k + i))))"
    if "map sbox_entry (map int [k..<k + m]) = map (Pair gf_one) (map (int_bits 8) (map uint (take m (drop k NM_SBOX))))"
      "i < m" "k + m \<le> 256" for k i m
    using arg_cong [OF that(1), of "\<lambda>xs. xs ! i"] that(2,3) l by simp
  consider "a = 0" | "0 < a" "a < 64" | "64 \<le> a" "a < 128" | "128 \<le> a" "a < 192" | "192 \<le> a" using assms by linarith
  then show ?thesis
  proof cases
    case 1
    then show ?thesis using arg_cong [OF sbox_entries_0, of hd] z by (simp add: upt_rec)
  next
    case 2
    then show ?thesis using arg_cong [OF sbox_entries_0, of "\<lambda>xs. xs ! a"] l by (simp add: nth_Cons')
  next
    case 3
    then show ?thesis using n [of 64 64 "a - 64"] sbox_entries_1 by simp
  next
    case 4
    then show ?thesis using n [of 128 64 "a - 128"] sbox_entries_2 by simp
  next
    case 5
    then show ?thesis using n [of 192 64 "a - 192"] sbox_entries_3 assms by simp
  qed
qed

lemma gf_bits_int: "gf_bits x = int_bits 8 (uint x)"
  by (simp add: gf_bits_def int_bits_bit bit_uint_iff)

lemma sbox_entry_bits:
  "gf_mul (gf_bits x) (gf_inv (gf_bits x)) = (if x = 0 then replicate 8 False else gf_one)"
  "gf_affine (gf_inv (gf_bits x)) = gf_bits (sbox x)"
proof -
  have "sbox_entry (uint x) = (if x = 0 then replicate 8 False else gf_one, gf_bits (sbox x))"
    using sbox_entry_nth [of "unat x"] unat_u8_less [of x] by (simp add: sbox_def gf_bits_int unat_eq_zero)
  then show "gf_mul (gf_bits x) (gf_inv (gf_bits x)) = (if x = 0 then replicate 8 False else gf_one)"
    "gf_affine (gf_inv (gf_bits x)) = gf_bits (sbox x)"
    by (simp_all add: sbox_entry_def sbox_pair_def gf_bits_int)
qed

lemma spec_sbox_eq: "spec_sbox x = sbox x"
  by (simp add: spec_sbox_def sbox_entry_bits)

lemma aesenc_spec_code:
  assumes "length s = 16" "length k = 16"
  shows "aesenc_spec s k = xor_block (mix_columns (sub_bytes (shift_rows s))) k"
    and "aesenclast_spec s k = xor_block (sub_bytes (shift_rows s)) k"
  using assms
  by (elim list16; simp add: aesenc_spec_def aesenclast_spec_def spec_sbox_eq upt_16 upt_4 mix_columns_def mix_col_def
      sub_bytes_def shift_rows_def xor_block_def gf_times_small numeral_2_eq_2 [symmetric] numeral_3_eq_3 [symmetric]
      xor.assoc xor.left_commute xor.commute Let_def)+

subsection \<open>The instruction form agrees with the portable form\<close>

lemma xor_block_key:
  "length s = 16 \<Longrightarrow> 16 * Suc r \<le> length rk \<Longrightarrow> xor_block s (chunk 16 r rk) = add_key rk (16 * r) s"
  by (intro nth_equalityI) (simp_all add: xor_block_def add_key_def length_chunk nth_chunk)

lemma sub_shift: "length s = 16 \<Longrightarrow> sub_bytes (shift_rows s) = shift_rows (sub_bytes s)"
  by (elim list16) (simp add: sub_bytes_def shift_rows_def upt_16)

lemma encrypt_ni_sw:
  assumes "\<And>s k. length s = 16 \<Longrightarrow> length k = 16 \<Longrightarrow> aesenc s k = aesenc_spec s k"
    and "\<And>s k. length s = 16 \<Longrightarrow> length k = 16 \<Longrightarrow> aesenclast s k = aesenclast_spec s k"
    and "length rk = 176" and "length inp = 16"
  shows "nm_aes128_encrypt_ni aesenc aesenclast rk inp = nm_aes128_encrypt_sw rk inp"
proof -
  have k: "length (chunk 16 r rk) = 16" if "r \<le> 10" for r
    using assms(3) that by (simp add: length_chunk)
  have step: "aesenc m (chunk 16 r rk) = add_key rk (16 * r) (mix_columns (shift_rows (sub_bytes m)))"
    if "length m = 16" "r \<le> 10" for m r
    using assms(1) [OF that(1) k [OF that(2)]] that assms(3)
    by (simp add: aesenc_spec_code k sub_shift xor_block_key)
  have last: "aesenclast m (chunk 16 10 rk) = add_key rk 160 (shift_rows (sub_bytes m))"
    if "length m = 16" for m
    using assms(2) [OF that k] that assms(3) by (simp add: aesenc_spec_code k sub_shift xor_block_key)
  let ?f = "\<lambda>r m. aesenc m (chunk 16 r rk)"
    and ?g = "\<lambda>round s. add_key rk (16 * round) (mix_columns (shift_rows (sub_bytes s)))"
  have "(\<lambda>i a b. a = b \<and> length b = 16) 10
      (fold ?f [1..<10] (xor_block inp (chunk 16 0 rk))) (fold ?g [1..<10] (add_key rk 0 inp))"
    by (rule fold_upt_rel) (use assms(3,4) step xor_block_key [of inp 0 rk] in auto)
  then show ?thesis by (simp add: nm_aes128_encrypt_ni_def nm_aes128_encrypt_sw_def last Let_def)
qed

lemma encrypt8_ni_each:
  assumes "length rk = 176"
  shows "nm_aes128_encrypt8_ni aesenc aesenclast rk inp
    = concat (map (\<lambda>j. nm_aes128_encrypt_ni aesenc aesenclast rk (chunk 16 j inp)) [0..<8])"
proof -
  have rks: "map (\<lambda>r. chunk 16 r rk) [0..<11] ! r = chunk 16 r rk" if "r < 11" for r
    using that by simp
  have "fold (\<lambda>r m. map (\<lambda>x. aesenc x (map (\<lambda>r. chunk 16 r rk) [0..<11] ! r)) m) [1..<10] m0
      = map (\<lambda>x. fold (\<lambda>r m. aesenc m (chunk 16 r rk)) [1..<10] x) m0" for m0
  proof -
    have "fold (\<lambda>r m. map (\<lambda>x. g x r) m) rs m0 = map (\<lambda>x. fold (\<lambda>r m. g m r) rs x) m0" for g :: "u8 list \<Rightarrow> nat \<Rightarrow> u8 list" and rs
      by (induction rs arbitrary: m0) (simp_all add: comp_def)
    moreover have "fold (\<lambda>r m. aesenc m (map (\<lambda>r. chunk 16 r rk) [0..<11] ! r)) [1..<10] x
        = fold (\<lambda>r m. aesenc m (chunk 16 r rk)) [1..<10] x" for x
      by (rule fold_upt_eqI) (simp add: rks)
    ultimately show ?thesis by simp
  qed
  then show ?thesis
    by (simp add: nm_aes128_encrypt8_ni_def nm_aes128_encrypt_ni_def Let_def comp_def rks)
qed

subsection \<open>Encryption is injective\<close>

lemma NM_SBOX_distinct: "distinct NM_SBOX"
proof -
  have "distinct (map uint NM_SBOX)" by (simp add: NM_SBOX_def)
  then show ?thesis by (simp add: distinct_map)
qed

lemma NM_SBOX_length: "length NM_SBOX = 256"
  by (simp add: NM_SBOX_def)

lemma sbox_inj: "sbox x = sbox y \<longleftrightarrow> x = y"
  unfolding sbox_def
  using nth_eq_iff_index_eq [OF NM_SBOX_distinct, of "unat x" "unat y"] unat_u8_less [of x] unat_u8_less [of y]
  by (metis NM_SBOX_length word_unat_eq_iff)

lemma nm_xtime_xor: "nm_xtime (x XOR y) = nm_xtime x XOR nm_xtime y"
  by (rule bit_word_eqI) (auto simp: nm_xtime_bit bit_xor_iff)

text \<open>
  Two applications of the column mix keep two of the four terms of each byte, and four
  applications are the identity: the mix has an inverse.
\<close>

definition mix_list :: "u8 list \<Rightarrow> u8 list" where
  "mix_list l = mix_col (l ! 0) (l ! 1) (l ! 2) (l ! 3)"

lemma mix_list_twice: "mix_list (mix_list [a, b, c, d]) =
   [nm_xtime (nm_xtime a) XOR a XOR nm_xtime (nm_xtime c), nm_xtime (nm_xtime b) XOR b XOR nm_xtime (nm_xtime d),
    nm_xtime (nm_xtime c) XOR c XOR nm_xtime (nm_xtime a), nm_xtime (nm_xtime d) XOR d XOR nm_xtime (nm_xtime b)]"
  by (simp add: mix_list_def mix_col_def nm_xtime_xor xor.assoc xor.left_commute xor.commute)

lemma mix_list_four: "mix_list (mix_list (mix_list (mix_list [a, b, c, d]))) = [a, b, c, d]"
  by (simp add: mix_list_twice nm_xtime_xor xor.assoc xor.left_commute xor.commute)

lemma mix_col_inj:
  assumes "mix_col a b c d = mix_col a' b' c' d'"
  shows "a = a' \<and> b = b' \<and> c = c' \<and> d = d'"
proof -
  have "mix_list [a, b, c, d] = mix_list [a', b', c', d']" using assms by (simp add: mix_list_def)
  then have "[a, b, c, d] = [a', b', c', d']" by (metis mix_list_four)
  then show ?thesis by simp
qed

lemma mix_columns_inj:
  assumes "length s = 16" "length t = 16" "mix_columns s = mix_columns t"
  shows "s = t"
  using assms
proof (elim list16)
  fix s0 s1 s2 s3 s4 s5 s6 s7 s8 s9 s10 s11 s12 s13 s14 s15 t0 t1 t2 t3 t4 t5 t6 t7 t8 t9 t10 t11 t12 t13 t14 t15
  assume st: "s = [s0, s1, s2, s3, s4, s5, s6, s7, s8, s9, s10, s11, s12, s13, s14, s15]"
    "t = [t0, t1, t2, t3, t4, t5, t6, t7, t8, t9, t10, t11, t12, t13, t14, t15]"
  have len: "length (mix_col a b c d) = 4" for a b c d by (simp add: mix_col_def)
  have "mix_col s0 s1 s2 s3 = mix_col t0 t1 t2 t3" "mix_col s4 s5 s6 s7 = mix_col t4 t5 t6 t7"
    "mix_col s8 s9 s10 s11 = mix_col t8 t9 t10 t11" "mix_col s12 s13 s14 s15 = mix_col t12 t13 t14 t15"
    using assms(3) len unfolding st mix_columns_def upt_4 by auto
  then show "s = t" using st by (simp add: mix_col_inj)
qed

lemma xor_cancel [simp]: "x XOR k = y XOR k \<longleftrightarrow> x = y" for x y k :: "'a::len word"
  by (metis xor.assoc xor_self_eq xor.right_neutral)

lemma add_key_inj: "length s = 16 \<Longrightarrow> length t = 16 \<Longrightarrow> add_key rk off s = add_key rk off t \<Longrightarrow> s = t"
  by (rule nth_equalityI) (auto simp: add_key_def list_eq_iff_nth_eq)

lemma sub_bytes_inj: "length s = 16 \<Longrightarrow> length t = 16 \<Longrightarrow> sub_bytes s = sub_bytes t \<Longrightarrow> s = t"
  by (rule nth_equalityI) (auto simp: sub_bytes_def sbox_inj)

lemma shift_rows_inj: "length s = 16 \<Longrightarrow> length t = 16 \<Longrightarrow> shift_rows s = shift_rows t \<Longrightarrow> s = t"
  by (elim list16) (simp add: shift_rows_def upt_16)

lemma round_inj:
  assumes "length s = 16" "length t = 16"
    and "add_key rk off (mix_columns (shift_rows (sub_bytes s))) = add_key rk off (mix_columns (shift_rows (sub_bytes t)))"
  shows "s = t"
  using assms add_key_inj mix_columns_inj shift_rows_inj sub_bytes_inj length_aes by metis

definition aes_round :: "u8 list \<Rightarrow> nat \<Rightarrow> u8 list \<Rightarrow> u8 list" where
  "aes_round rk round s = add_key rk (16 * round) (mix_columns (shift_rows (sub_bytes s)))"

lemma fold_rounds_inj:
  "length s = 16 \<Longrightarrow> length t = 16 \<Longrightarrow> fold (aes_round rk) rs s = fold (aes_round rk) rs t \<Longrightarrow> s = t"
proof (induction rs arbitrary: s t)
  case (Cons r rs)
  have "aes_round rk r s = aes_round rk r t"
    by (rule Cons.IH) (use Cons.prems(3) in \<open>simp_all add: aes_round_def\<close>)
  then show ?case unfolding aes_round_def by (rule round_inj [OF Cons.prems(1,2)])
qed simp

lemma length_fold_rounds: "length s = 16 \<Longrightarrow> length (fold (aes_round rk) rs s) = 16"
  by (rule fold_inv) (simp_all add: aes_round_def)

lemma encrypt_sw_inj:
  assumes "length s = 16" "length t = 16" "nm_aes128_encrypt_sw rk s = nm_aes128_encrypt_sw rk t"
  shows "s = t"
proof -
  let ?r = "\<lambda>u. fold (aes_round rk) [1..<10] (add_key rk 0 u)"
  have enc: "nm_aes128_encrypt_sw rk u = add_key rk 160 (shift_rows (sub_bytes (?r u)))" for u
    by (simp add: nm_aes128_encrypt_sw_def aes_round_def [abs_def] Let_def)
  have "shift_rows (sub_bytes (?r s)) = shift_rows (sub_bytes (?r t))"
    using assms(3) unfolding enc by (rule add_key_inj [rotated 2]) simp_all
  then have "sub_bytes (?r s) = sub_bytes (?r t)" by (rule shift_rows_inj [rotated 2]) simp_all
  then have "?r s = ?r t" by (rule sub_bytes_inj [rotated 2]) (simp_all add: length_fold_rounds)
  then have "add_key rk 0 s = add_key rk 0 t" by (rule fold_rounds_inj [rotated 2]) simp_all
  then show ?thesis using assms(1,2) add_key_inj by blast
qed

subsection \<open>Properties\<close>

text \<open>
  C27. With AES instructions that compute the round of the standard (S-box from the inverse in
  \<open>GF(2^8)\<close>, shifted rows, matrix product over \<open>GF(2^8)\<close>, round key), the eight-block batch that keeps
  eight states in flight computes, for every key and input, the same bytes as the portable routine
  with its tables on each block in turn.
\<close>

theorem encrypt8_ni_portable:
  assumes "\<And>s k. length s = 16 \<Longrightarrow> length k = 16 \<Longrightarrow> aesenc s k = aesenc_spec s k"
    and "\<And>s k. length s = 16 \<Longrightarrow> length k = 16 \<Longrightarrow> aesenclast s k = aesenclast_spec s k"
    and "16 \<le> length key" and "length inp = 128"
  shows "nm_aes128_encrypt8_ni aesenc aesenclast (nm_aes128_expand key) inp
    = nm_aes128_encrypt8 (nm_aes128_expand key) inp"
proof -
  have rk: "length (nm_aes128_expand key) = 176" by (rule length_expand [OF assms(3)])
  have "nm_aes128_encrypt_ni aesenc aesenclast (nm_aes128_expand key) (chunk 16 j inp)
      = nm_aes128_encrypt_sw (nm_aes128_expand key) (chunk 16 j inp)" if "j < 8" for j
    using that assms(4) length_chunk [of 16 j inp] by (intro encrypt_ni_sw [OF assms(1,2) rk]) auto
  then show ?thesis
    unfolding encrypt8_ni_each [OF rk] nm_aes128_encrypt8_def
    by (intro arg_cong [where f = concat] map_cong) auto
qed

theorem encrypt8_ni_portable_witness:
  "nm_aes128_encrypt8_ni aesenc_spec aesenclast_spec (nm_aes128_expand (replicate 16 7)) (replicate 128 1)
    = nm_aes128_encrypt8 (nm_aes128_expand (replicate 16 7)) (replicate 128 1)"
  by (rule encrypt8_ni_portable) simp_all

text \<open>
  C28. For every array of round keys the block encryption is injective: different blocks never
  encrypt to the same bytes.
\<close>

theorem encrypt_block_injective:
  assumes "length s = 16" and "length t = 16" and "s \<noteq> t"
  shows "nm_aes128_encrypt_sw rk s \<noteq> nm_aes128_encrypt_sw rk t"
  using encrypt_sw_inj [OF assms(1,2)] assms(3) by blast

theorem encrypt_block_injective_witness:
  "nm_aes128_encrypt_sw [] (replicate 16 0) \<noteq> nm_aes128_encrypt_sw [] (replicate 16 1)"
proof -
  have "replicate 16 (0 :: u8) \<noteq> replicate 16 1" by simp
  then show ?thesis by (intro encrypt_block_injective) simp_all
qed

end
