(* ===== verification/Soft_Double.thy ===== *)
theory Soft_Double
  imports Prelude
begin

text \<open>
  The \<^verbatim>\<open>double\<close> arithmetic of the C sources on bit patterns: IEEE 754 binary64 with rounding to
  nearest, ties to even. An exact result is an integer times a power of two; division and square
  root keep a sticky last bit that stands for a non-zero remainder. IEEE 754 does not fix which
  NaN an operation returns and processors differ, so the NaN produced is the parameter \<open>qnan\<close>.
\<close>

subsection \<open>Fields and classes\<close>

definition f_sign :: "u64 \<Rightarrow> bool" where
  "f_sign x \<longleftrightarrow> 2 ^ 63 \<le> unat x"

definition f_exp :: "u64 \<Rightarrow> nat" where
  "f_exp x = unat x div 2 ^ 52 mod 2048"

definition f_frac :: "u64 \<Rightarrow> nat" where
  "f_frac x = unat x mod 2 ^ 52"

definition is_nan :: "u64 \<Rightarrow> bool" where
  "is_nan x \<longleftrightarrow> f_exp x = 2047 \<and> f_frac x \<noteq> 0"

definition is_inf :: "u64 \<Rightarrow> bool" where
  "is_inf x \<longleftrightarrow> f_exp x = 2047 \<and> f_frac x = 0"

definition is_zero :: "u64 \<Rightarrow> bool" where
  "is_zero x \<longleftrightarrow> f_exp x = 0 \<and> f_frac x = 0"

text \<open>A finite number is \<open>f_sig x * 2 ^ f_scale x\<close>, with the sign apart.\<close>

definition f_sig :: "u64 \<Rightarrow> nat" where
  "f_sig x = (if f_exp x = 0 then f_frac x else 2 ^ 52 + f_frac x)"

definition f_scale :: "u64 \<Rightarrow> int" where
  "f_scale x = int (if f_exp x = 0 then 1 else f_exp x) - 1075"

definition f_pack :: "bool \<Rightarrow> nat \<Rightarrow> nat \<Rightarrow> u64" where
  "f_pack s e m = of_nat (of_bool s * 2 ^ 63 + e * 2 ^ 52 + m)"

definition f_inf :: "bool \<Rightarrow> u64" where
  "f_inf s = f_pack s 2047 0"

definition f_zero :: "bool \<Rightarrow> u64" where
  "f_zero s = f_pack s 0 0"

subsection \<open>Rounding\<close>

fun bit_len :: "nat \<Rightarrow> nat" where
  "bit_len n = (if n = 0 then 0 else Suc (bit_len (n div 2)))"

declare bit_len.simps [simp del]

text \<open>\<open>n\<close> divided by \<open>2 ^ k\<close>, to the nearest integer, ties to even.\<close>

definition rne_shift :: "nat \<Rightarrow> nat \<Rightarrow> nat" where
  "rne_shift n k =
     (if k = 0 then n
      else let q = n div 2 ^ k; r = n mod 2 ^ k; half = 2 ^ (k - 1)
           in if half < r \<or> r = half \<and> odd q then q + 1 else q)"

text \<open>
  The double nearest to \<open>n * 2 ^ k\<close> with the given sign: the exponent of the last place, the
  rounded significand in units of it, and the result, which may be subnormal or infinite.
\<close>

definition round_exp :: "nat \<Rightarrow> int \<Rightarrow> int" where
  "round_exp n k = max (k + int (bit_len n) - 53) (-1074)"

definition round_sig :: "nat \<Rightarrow> int \<Rightarrow> nat" where
  "round_sig n k = (let e = round_exp n k
     in if k \<le> e then rne_shift n (nat (e - k)) else n * 2 ^ nat (k - e))"

definition f_round :: "bool \<Rightarrow> nat \<Rightarrow> int \<Rightarrow> u64" where
  "f_round s n k =
     (if n = 0 then f_zero s
      else let (sig, e) = (if round_sig n k = 2 ^ 53 then (2 ^ 52, round_exp n k + 1)
                           else (round_sig n k, round_exp n k))
           in if sig < 2 ^ 52 then f_pack s 0 sig
              else if 2047 \<le> e + 1075 then f_inf s
              else f_pack s (nat (e + 1075)) (sig - 2 ^ 52))"

subsection \<open>Operations\<close>

definition f_add :: "u64 \<Rightarrow> u64 \<Rightarrow> u64 \<Rightarrow> u64" where
  "f_add qnan x y =
     (if is_nan x \<or> is_nan y then qnan
      else if is_inf x then (if is_inf y \<and> f_sign x \<noteq> f_sign y then qnan else x)
      else if is_inf y then y
      else let k = min (f_scale x) (f_scale y);
               sx = int (f_sig x) * 2 ^ nat (f_scale x - k); sy = int (f_sig y) * 2 ^ nat (f_scale y - k);
               z = (if f_sign x then - sx else sx) + (if f_sign y then - sy else sy)
           in if z = 0 then f_zero (f_sign x \<and> f_sign y)
              else f_round (z < 0) (nat \<bar>z\<bar>) k)"

definition f_mul :: "u64 \<Rightarrow> u64 \<Rightarrow> u64 \<Rightarrow> u64" where
  "f_mul qnan x y =
     (let s = (f_sign x \<noteq> f_sign y) in
      if is_nan x \<or> is_nan y then qnan
      else if is_inf x \<or> is_inf y then (if is_zero x \<or> is_zero y then qnan else f_inf s)
      else f_round s (f_sig x * f_sig y) (f_scale x + f_scale y))"

text \<open>The quotient of significands to at least 64 bits, with the sticky bit last.\<close>

definition f_div :: "u64 \<Rightarrow> u64 \<Rightarrow> u64 \<Rightarrow> u64" where
  "f_div qnan x y =
     (let s = (f_sign x \<noteq> f_sign y) in
      if is_nan x \<or> is_nan y then qnan
      else if is_inf x then (if is_inf y then qnan else f_inf s)
      else if is_inf y then f_zero s
      else if is_zero y then (if is_zero x then qnan else f_inf s)
      else let n = f_sig x * 2 ^ 118; q = n div f_sig y
           in f_round s (2 * q + of_bool (n mod f_sig y \<noteq> 0)) (f_scale x - f_scale y - 119))"

text \<open>Integer square root, one bit at a time from the top.\<close>

primrec isqrt_bits :: "nat \<Rightarrow> nat \<Rightarrow> nat \<Rightarrow> nat" where
  "isqrt_bits n 0 r = r"
| "isqrt_bits n (Suc b) r =
     (let t = r + 2 ^ b in isqrt_bits n b (if t * t \<le> n then t else r))"

definition isqrt :: "nat \<Rightarrow> nat" where
  "isqrt n = isqrt_bits n (bit_len n) 0"

definition f_sqrt :: "u64 \<Rightarrow> u64 \<Rightarrow> u64" where
  "f_sqrt qnan x =
     (if is_nan x then qnan
      else if is_zero x then x
      else if f_sign x then qnan
      else if is_inf x then x
      else let sh = (if even (f_scale x) then 128 else 129);
               n = f_sig x * 2 ^ sh; q = isqrt n
           in f_round False (2 * q + of_bool (q * q \<noteq> n)) ((f_scale x - int sh) div 2 - 1))"

definition f_abs :: "u64 \<Rightarrow> u64" where
  "f_abs x = x AND 0x7FFFFFFFFFFFFFFF"

subsection \<open>Packing\<close>

lemma unat_of_nat_u64: "n < 2 ^ 64 \<Longrightarrow> unat (of_nat n :: u64) = n"
  by (simp add: unat_of_nat)

lemma f_pack_fields:
  assumes "e < 2048" and "m < 2 ^ 52"
  shows "f_sign (f_pack s e m) = s" "f_exp (f_pack s e m) = e" "f_frac (f_pack s e m) = m"
proof -
  let ?n = "of_bool s * 2 ^ 63 + e * 2 ^ 52 + m"
  have "e * 2 ^ 52 \<le> 2047 * 2 ^ 52" using assms(1) by (intro mult_le_mono1) simp
  then have em: "e * 2 ^ 52 + m < 2 ^ 63" using assms(2) by simp
  have "?n < 2 ^ 64" using em by (cases s) simp_all
  then have u: "unat (f_pack s e m) = ?n" unfolding f_pack_def by (rule unat_of_nat_u64)
  show "f_sign (f_pack s e m) = s" unfolding f_sign_def u using em by (cases s) simp_all
  have d: "?n = (of_bool s * 2048 + e) * 2 ^ 52 + m" by (cases s) simp_all
  have q: "?n div 2 ^ 52 = of_bool s * 2048 + e" unfolding d using assms(2) by simp
  show "f_exp (f_pack s e m) = e" unfolding f_exp_def u q using assms(1) by (cases s) simp_all
  have "?n mod 2 ^ 52 = m" unfolding d using assms(2) by (simp only: mod_mult_self3 mod_less)
  then show "f_frac (f_pack s e m) = m" by (simp only: f_frac_def u)
qed

text \<open>Values that are not negative and not NaN, and those that are not zero either.\<close>

definition f_nonneg :: "u64 \<Rightarrow> bool" where
  "f_nonneg x \<longleftrightarrow> \<not> f_sign x \<and> \<not> is_nan x"

definition f_pos :: "u64 \<Rightarrow> bool" where
  "f_pos x \<longleftrightarrow> f_nonneg x \<and> \<not> is_zero x"

lemma f_inf_props: "f_nonneg (f_inf False)" "is_inf (f_inf s)" "\<not> is_zero (f_inf s)"
  using f_pack_fields [of 2047 0] by (simp_all add: f_nonneg_def f_inf_def is_inf_def is_nan_def is_zero_def)

lemma f_zero_props: "f_nonneg (f_zero False)" "is_zero (f_zero s)"
  using f_pack_fields [of 0 0] by (simp_all add: f_nonneg_def f_zero_def is_nan_def is_zero_def)

subsection \<open>Rounding stays in range\<close>

lemma bit_len_bounds: "0 < n \<Longrightarrow> 2 ^ (bit_len n - 1) \<le> n \<and> n < 2 ^ bit_len n \<and> 0 < bit_len n"
proof (induction n rule: bit_len.induct)
  case (1 n)
  show ?case
  proof (cases "n = 1")
    case True
    then show ?thesis by (simp add: bit_len.simps)
  next
    case False
    with "1.prems" have half: "0 < n div 2" "n \<noteq> 0" by auto
    let ?b = "bit_len (n div 2)"
    have ih: "2 ^ (?b - 1) \<le> n div 2" "n div 2 < 2 ^ ?b" "0 < ?b" using "1.IH" half by auto
    have "(2 :: nat) ^ ?b = 2 * 2 ^ (?b - 1)" using ih(3) by (cases ?b) simp_all
    moreover have "n < 2 * 2 ^ ?b" using ih(2) by linarith
    ultimately show ?thesis using ih half by (simp add: bit_len.simps [of n]) linarith
  qed
qed

lemma rne_shift_bounds: "n div 2 ^ k \<le> rne_shift n k \<and> rne_shift n k \<le> n div 2 ^ k + 1"
  by (simp add: rne_shift_def Let_def)

lemma round_sig_le: "0 < n \<Longrightarrow> round_sig n k \<le> 2 ^ 53"
proof -
  assume n: "0 < n"
  let ?e = "round_exp n k" and ?b = "bit_len n"
  have lt: "n < 2 ^ ?b" using bit_len_bounds [OF n] by simp
  show ?thesis
  proof (cases "k \<le> ?e")
    case True
    let ?s = "nat (?e - k)"
    have "?b \<le> 53 + ?s" by (simp add: round_exp_def)
    then have "n < 2 ^ (53 + ?s)" by (rule less_le_trans [OF lt power_increasing]) simp
    then have "n div 2 ^ ?s < 2 ^ 53" by (simp add: power_add less_mult_imp_div_less)
    then show ?thesis using rne_shift_bounds [of n ?s] True by (simp add: round_sig_def)
  next
    case False
    let ?s = "nat (k - ?e)"
    have "?b + ?s \<le> 53" using False by (simp add: round_exp_def)
    then have "(2 :: nat) ^ (?b + ?s) \<le> 2 ^ 53" by (rule power_increasing) simp
    moreover have "n * 2 ^ ?s \<le> 2 ^ (?b + ?s)" using lt by (simp add: power_add)
    ultimately have "n * 2 ^ ?s \<le> 2 ^ 53" by (rule le_trans [rotated])
    then show ?thesis using False by (simp add: round_sig_def)
  qed
qed

lemma f_round_class:
  assumes "0 < n"
  shows "f_nonneg (f_round False n k)" and "0 < round_sig n k \<Longrightarrow> \<not> is_zero (f_round False n k)"
proof -
  define sig where "sig = (if round_sig n k = 2 ^ 53 then 2 ^ 52 else round_sig n k)"
  define e where "e = (if round_sig n k = 2 ^ 53 then round_exp n k + 1 else round_exp n k)"
  have r: "f_round False n k = (if sig < 2 ^ 52 then f_pack False 0 sig
      else if 2047 \<le> e + 1075 then f_inf False else f_pack False (nat (e + 1075)) (sig - 2 ^ 52))"
    using assms by (simp add: f_round_def sig_def e_def)
  have sig: "sig - 2 ^ 52 < 2 ^ 52" using round_sig_le [OF assms, of k] by (auto simp: sig_def)
  have "-1074 \<le> round_exp n k" by (simp add: round_exp_def)
  then have e: "1 \<le> e + 1075" by (simp add: e_def)
  consider (sub) "sig < 2 ^ 52" | (inf) "\<not> sig < 2 ^ 52" "2047 \<le> e + 1075"
    | (norm) "\<not> sig < 2 ^ 52" "\<not> 2047 \<le> e + 1075" by blast
  then have "f_nonneg (f_round False n k) \<and> (0 < sig \<longrightarrow> \<not> is_zero (f_round False n k))"
  proof cases
    case sub
    then show ?thesis using f_pack_fields [of 0 sig False]
      by (simp add: r f_nonneg_def is_nan_def is_zero_def)
  next
    case inf
    then show ?thesis using f_inf_props by (simp add: r)
  next
    case norm
    then have "nat (e + 1075) < 2047" "nat (e + 1075) \<noteq> 0" using e by auto
    then show ?thesis using f_pack_fields [of "nat (e + 1075)" "sig - 2 ^ 52" False] norm sig
      by (simp add: r f_nonneg_def is_nan_def is_zero_def)
  qed
  then show "f_nonneg (f_round False n k)" and "0 < round_sig n k \<Longrightarrow> \<not> is_zero (f_round False n k)"
    by (auto simp: sig_def split: if_splits)
qed

lemma f_round_nonneg: "f_nonneg (f_round False n k)"
  using f_round_class(1) [of n k] f_zero_props by (cases "n = 0") (auto simp: f_round_def)

subsection \<open>Operations on non-negative numbers\<close>

lemma f_sig_pos: "\<not> is_zero x \<Longrightarrow> 0 < f_sig x"
  by (auto simp: f_sig_def is_zero_def)

lemma f_add_nonneg:
  assumes "f_nonneg x" and "f_nonneg y"
  shows "f_nonneg (f_add q x y)" and "f_add q x y = f_add q' x y"
proof -
  have sg: "\<not> f_sign x" "\<not> f_sign y" "\<not> is_nan x" "\<not> is_nan y" using assms by (auto simp: f_nonneg_def)
  show "f_add q x y = f_add q' x y" using sg by (simp add: f_add_def)
  have "\<not> (int a * 2 ^ i + int b * 2 ^ j < 0)" for a b i j by (simp add: not_less)
  then have neg: "(int a * 2 ^ i + int b * 2 ^ j < 0) = False" for a b i j by blast
  show "f_nonneg (f_add q x y)"
    using sg assms f_zero_props(1) f_round_nonneg
    by (simp add: f_add_def Let_def neg)
qed

lemma f_mul_pos:
  assumes "f_pos x" and "f_pos y"
  shows "f_nonneg (f_mul q x y)" and "f_mul q x y = f_mul q' x y"
  using assms f_inf_props f_round_nonneg
  by (simp_all add: f_mul_def f_pos_def f_nonneg_def [of x] f_nonneg_def [of y] Let_def)

lemma f_div_pos:
  assumes "f_pos x" and "f_pos y" and "\<not> is_inf y"
  shows "f_nonneg (f_div q x y)" and "f_div q x y = f_div q' x y"
  using assms f_inf_props f_round_nonneg
  by (simp_all add: f_div_def f_pos_def f_nonneg_def [of x] f_nonneg_def [of y] Let_def)

lemma f_sqrt_nonneg:
  assumes "f_nonneg x"
  shows "f_nonneg (f_sqrt q x)" and "f_sqrt q x = f_sqrt q' x"
  using assms f_round_nonneg
  by (simp_all add: f_sqrt_def f_nonneg_def [of x] Let_def)

lemma f_abs_nonneg [simp]: "f_nonneg x \<Longrightarrow> f_abs x = x"
proof -
  assume "f_nonneg x"
  then have "unat x < 2 ^ 63" by (simp add: f_nonneg_def f_sign_def)
  moreover have m: "(0x7FFFFFFFFFFFFFFF :: u64) = mask 63" by (simp add: mask_eq_exp_minus_1)
  ultimately have "take_bit 63 x = x"
    by (simp add: word_unat_eq_iff unsigned_take_bit_eq take_bit_nat_eq_self)
  then show ?thesis unfolding f_abs_def m by (simp add: take_bit_eq_mask)
qed

text \<open>
  Multiplication by a number in the range from 1 to 2 keeps a positive number positive: it cannot
  underflow to zero.
\<close>

lemma f_mul_scale:
  assumes x: "f_pos x" and y: "f_pos y" "f_exp y = 1023"
  shows "f_pos (f_mul q x y)"
proof -
  have sg: "\<not> f_sign x" "\<not> f_sign y" "\<not> is_nan x" "\<not> is_nan y" "\<not> is_inf y" "\<not> is_zero x" "\<not> is_zero y"
    using x y by (auto simp: f_pos_def f_nonneg_def is_inf_def)
  show ?thesis
  proof (cases "is_inf x")
    case True
    then show ?thesis using sg f_inf_props by (simp add: f_mul_def f_pos_def Let_def)
  next
    case False
    let ?n = "f_sig x * f_sig y" and ?k = "f_scale x + f_scale y"
    have sy: "2 ^ 52 \<le> f_sig y" "f_scale y = -52" using y(2) by (simp_all add: f_sig_def f_scale_def)
    have n: "2 ^ 52 \<le> ?n" using f_sig_pos [OF sg(6)] sy(1) by (metis One_nat_def Suc_leI mult_le_mono nat_mult_1)
    have pos: "0 < ?n" using f_sig_pos [OF sg(6)] f_sig_pos [OF sg(7)] by simp
    have k: "-1126 \<le> ?k" using sy(2) by (simp add: f_scale_def)
    have "0 < round_sig ?n ?k"
    proof (cases "?k \<le> round_exp ?n ?k")
      case True
      let ?s = "nat (round_exp ?n ?k - ?k)"
      have "2 ^ ?s \<le> ?n"
      proof (cases "?k + int (bit_len ?n) - 53 \<le> -1074")
        case True
        then have "?s \<le> 52" using k by (simp add: round_exp_def)
        then have "(2 :: nat) ^ ?s \<le> 2 ^ 52" by (rule power_increasing) simp
        then show ?thesis using n by (rule le_trans)
      next
        case False
        then have "?s \<le> bit_len ?n - 1" by (simp add: round_exp_def)
        then have "(2 :: nat) ^ ?s \<le> 2 ^ (bit_len ?n - 1)" by (rule power_increasing) simp
        then show ?thesis using bit_len_bounds [OF pos] by (blast intro: le_trans)
      qed
      then have "0 < ?n div 2 ^ ?s" by (simp add: div_greater_zero_iff)
      then show ?thesis using rne_shift_bounds [of ?n ?s] True by (simp add: round_sig_def)
    next
      case False
      then show ?thesis using pos by (simp add: round_sig_def)
    qed
    then show ?thesis using sg False f_round_class [OF pos, of ?k] by (simp add: f_mul_def f_pos_def Let_def)
  qed
qed

end
