(* ===== verification/Nm_Vm.thy ===== *)
theory Nm_Vm
  imports Nm_Params Nm_Aes Soft_Double "HOL-Library.Monad_Syntax"
begin

text \<open>
  The NeuroMorph hash, \<^verbatim>\<open>crypto/nm/nm_neuromorph.c\<close>: the dataset and scratchpad filled with AES
  counter blocks, the generated program, the virtual machine that runs it and the final digest.
  Every access to the scratchpad, the dataset, the registers and the program is checked, so that
  an access outside an array is the result \<open>None\<close>; the properties show that it does not occur.
  Floating-point registers are bit patterns; the NaN an operation produces is the argument \<open>q\<close>.
\<close>

subsection \<open>Constants and helpers\<close>

definition NM_SCRATCH_WORDS :: nat where "NM_SCRATCH_WORDS = 262144"
definition NM_SCRATCH_MASK :: u64 where "NM_SCRATCH_MASK = 2097152 - 8"
definition NM_DATASET_WORDS :: nat where "NM_DATASET_WORDS = 8388608"
definition NM_DATASET_MASK :: u64 where "NM_DATASET_MASK = 67108864 - 8"
definition NM_DATASET_READS_PER_LOOP :: nat where "NM_DATASET_READS_PER_LOOP = 64"
definition NM_DATASET_HEIGHT :: u64 where "NM_DATASET_HEIGHT = 240"
definition NM_PROG_MAX :: nat where "NM_PROG_MAX = 768"
definition NM_HEADER_LEN :: nat where "NM_HEADER_LEN = 124"

record nm_instr =
  i_op :: u8
  i_dst :: u8
  i_src :: u8
  i_imm :: u32

datatype nm_op = IADD | IMUL | IMULH | IXOR | IROTR | INEG | FADD | FMUL | FDIV | FSQRT
  | LOAD | STORE | CBRANCH | AESR | XDOM

definition nm_ops :: "nm_op list" where
  "nm_ops = [IADD, IMUL, IMULH, IXOR, IROTR, INEG, FADD, FMUL, FDIV, FSQRT, LOAD, STORE, CBRANCH, AESR, XDOM]"

text \<open>\<^verbatim>\<open>put64\<close> into a buffer at an offset, and \<^verbatim>\<open>le32\<close>.\<close>

definition put64 :: "u8 list \<Rightarrow> nat \<Rightarrow> u64 \<Rightarrow> u8 list" where
  "put64 b off v = blit b off (map (\<lambda>i. ucast (drop_bit (8 * i) v)) [0..<8])"

definition le32 :: "u8 list \<Rightarrow> u32" where
  "le32 b = ucast (b ! 0) OR push_bit 8 (ucast (b ! 1)) OR push_bit 16 (ucast (b ! 2)) OR push_bit 24 (ucast (b ! 3))"

definition normFloat :: "u64 \<Rightarrow> u64" where
  "normFloat x = push_bit 52 1023 OR (x AND 0x000FFFFFFFFFFFFF)"

text \<open>The rotation distance is a C \<^verbatim>\<open>int\<close> converted to unsigned.\<close>

definition rotl64 :: "u64 \<Rightarrow> u32 \<Rightarrow> u64" where
  "rotl64 x k = (let s = unat (k AND 63) in if s = 0 then x else push_bit s x OR drop_bit (64 - s) x)"

definition mulhi64 :: "u64 \<Rightarrow> u64 \<Rightarrow> u64" where
  "mulhi64 a b = ucast (drop_bit 64 (ucast a * ucast b :: 128 word))"

subsection \<open>Counter blocks\<close>

text \<open>
  One turn of the fill loops: the eight counters are written into the staging buffer, which keeps
  its upper halves from turn to turn, and eight blocks give sixteen words. \<open>fill_words\<close> is \<open>None\<close>
  when the array is shorter than the words the loop writes.
\<close>

definition stage_turn :: "nat \<Rightarrow> u8 list \<Rightarrow> u8 list" where
  "stage_turn i stage = fold (\<lambda>j st. put64 st (16 * j) (of_nat (i + 2 * j))) [0..<8] stage"

definition fill_turn :: "u8 list \<Rightarrow> nat \<Rightarrow> u8 list \<times> u64 list \<Rightarrow> u8 list \<times> u64 list" where
  "fill_turn rk i s =
     (let stage = stage_turn i (fst s); outs = nm_aes128_encrypt8 rk stage
      in (stage, fold (\<lambda>j w. w[i + 2 * j := le64 (drop (16 * j) outs),
                               i + 2 * j + 1 := le64 (drop (16 * j + 8) outs)]) [0..<8] (snd s)))"

definition fill_words :: "u8 list \<Rightarrow> u8 list \<Rightarrow> nat \<Rightarrow> u64 list \<Rightarrow> u64 list option" where
  "fill_words rk stage turns w =
     (if length w < 16 * turns then None
      else Some (snd (fold (\<lambda>t. fill_turn rk (16 * t)) [0..<turns] (stage, w))))"

definition nm_build_dataset :: "u64 list \<Rightarrow> u8 list \<Rightarrow> u64 list option" where
  "nm_build_dataset ds key =
     fill_words (nm_aes128_expand key) (replicate 128 0) (NM_DATASET_WORDS div 16) ds"

text \<open>
  The staging buffer of \<^verbatim>\<open>fill_scratch\<close> is an uninitialised array on the stack: its first bytes are
  the argument \<open>stk\<close>.
\<close>

definition fill_scratch :: "(nat \<Rightarrow> u8) \<Rightarrow> u64 list \<Rightarrow> u8 list \<Rightarrow> u64 list option" where
  "fill_scratch stk scratch seed =
     (let key = nm_sha256 (take 32 seed @ [0x53]);
          stage = fold (\<lambda>j st. blit st (16 * j + 8) (take 8 (drop 24 key))) [0..<8] (map stk [0..<128])
      in fill_words (nm_aes128_expand key) stage (NM_SCRATCH_WORDS div 16) scratch)"

subsection \<open>Program\<close>

text \<open>
  The key stream: \<^verbatim>\<open>while (slen < need)\<close> in a buffer of \<^verbatim>\<open>NM_PROG_MAX * 8\<close> bytes. \<open>None\<close> is a
  copy that would leave the buffer. A turn adds sixteen bytes, so \<open>(need + 15) div 16\<close> turns end
  the loop.
\<close>

function stream_loop :: "u8 list \<Rightarrow> nat \<Rightarrow> nat \<Rightarrow> u8 list \<times> u8 list \<Rightarrow> (u8 list \<times> u8 list) option" where
  "stream_loop rk cap need (inp, stream) =
     (if need \<le> length stream then Some (inp, stream)
      else if cap < length stream + 16 then None
      else let out = nm_aes128_encrypt_sw rk inp
           in stream_loop rk cap need (put64 out 0 (le64 out + 1), stream @ out))"
  by pat_completeness auto

termination
  by (relation "measure (\<lambda>(rk, cap, need, inp, stream). need - length stream)") (auto simp: Let_def)

declare stream_loop.simps [simp del]

definition gen_program :: "nm_params \<Rightarrow> u8 list \<Rightarrow> nm_instr list option" where
  "gen_program p seed =
     (let key = nm_sha256 (take 32 seed @ [0x50]);
          rk = nm_aes128_expand key
      in do {
        (_, stream) \<leftarrow> stream_loop rk (NM_PROG_MAX * 8) (prog_size p * 8) (take 16 (drop 16 key), []);
        those (map (\<lambda>i. let b = drop (i * 8) stream in do {
          op \<leftarrow> get (op_table p) (unat (b ! 0));
          Some \<lparr>i_op = op, i_dst = b ! 1, i_src = b ! 2, i_imm = le32 (drop 4 b)\<rparr>
        }) [0..<prog_size p])
      })"

subsection \<open>Virtual machine\<close>

record nm_vm =
  v_r :: "u64 list"
  v_f :: "u64 list"
  v_scratch :: "u64 list"

definition get_r :: "nm_vm \<Rightarrow> nat \<Rightarrow> u64 option" where "get_r vm i = get (v_r vm) i"
definition get_f :: "nm_vm \<Rightarrow> nat \<Rightarrow> u64 option" where "get_f vm i = get (v_f vm) i"
definition get_s :: "nm_vm \<Rightarrow> nat \<Rightarrow> u64 option" where "get_s vm i = get (v_scratch vm) i"

definition put_r :: "nm_vm \<Rightarrow> nat \<Rightarrow> u64 \<Rightarrow> nm_vm option" where
  "put_r vm i v = do { xs \<leftarrow> put (v_r vm) i v; Some (vm\<lparr>v_r := xs\<rparr>) }"
definition put_f :: "nm_vm \<Rightarrow> nat \<Rightarrow> u64 \<Rightarrow> nm_vm option" where
  "put_f vm i v = do { xs \<leftarrow> put (v_f vm) i v; Some (vm\<lparr>v_f := xs\<rparr>) }"
definition put_s :: "nm_vm \<Rightarrow> nat \<Rightarrow> u64 \<Rightarrow> nm_vm option" where
  "put_s vm i v = do { xs \<leftarrow> put (v_scratch vm) i v; Some (vm\<lparr>v_scratch := xs\<rparr>) }"

definition scratch_addr :: "u64 \<Rightarrow> u32 \<Rightarrow> u64" where
  "scratch_addr x imm = (x + ucast imm) AND NM_SCRATCH_MASK"

text \<open>The cases of the switch that do not branch.\<close>

definition exec_int :: "nm_op \<Rightarrow> u64 \<Rightarrow> u32 \<Rightarrow> u64 \<Rightarrow> u64 \<Rightarrow> u64" where
  "exec_int op rotSalt imm x y = (case op of
       IADD \<Rightarrow> x + (y + ucast imm)
     | IMUL \<Rightarrow> x * (y OR 1)
     | IMULH \<Rightarrow> mulhi64 x y XOR ucast imm
     | IXOR \<Rightarrow> x XOR (y + rotSalt)
     | IROTR \<Rightarrow> rotl64 x (- ucast ((y XOR ucast imm) AND 63))
     | INEG \<Rightarrow> NOT x + ucast imm
     | _ \<Rightarrow> x)"

definition exec_float :: "nm_op \<Rightarrow> u64 \<Rightarrow> u64 \<Rightarrow> u64 \<Rightarrow> u64" where
  "exec_float op q x y = (case op of
       FADD \<Rightarrow> f_add q x y
     | FMUL \<Rightarrow> f_mul q x y
     | FDIV \<Rightarrow> f_div q x (normFloat y)
     | FSQRT \<Rightarrow> f_sqrt q (f_abs x)
     | _ \<Rightarrow> x)"

definition aesr_index :: "u64 \<Rightarrow> u32 \<Rightarrow> nat" where
  "aesr_index x imm = unat (drop_bit 3 (scratch_addr x imm AND NOT 15))"

definition exec_aesr :: "u8 list \<Rightarrow> nat \<Rightarrow> nat \<Rightarrow> u32 \<Rightarrow> nm_vm \<Rightarrow> nm_vm option" where
  "exec_aesr rk d s imm vm = do {
     x \<leftarrow> get_r vm s;
     let w = aesr_index x imm;
     a \<leftarrow> get_s vm w;
     b \<leftarrow> get_s vm (w + 1);
     let aesIn = put64 (put64 (replicate 16 0) 0 a) 8 b;
     let aesOut = nm_aes128_encrypt_sw rk aesIn;
     vm \<leftarrow> put_s vm w (le64 aesOut);
     vm \<leftarrow> put_s vm (w + 1) (le64 (drop 8 aesOut));
     y \<leftarrow> get_r vm d;
     z \<leftarrow> get_s vm w;
     put_r vm d (y XOR z)
   }"

definition exec_xdom :: "u64 \<Rightarrow> nat \<Rightarrow> nat \<Rightarrow> u32 \<Rightarrow> nm_vm \<Rightarrow> nm_vm option" where
  "exec_xdom q d s imm vm =
     (if imm AND 1 = 0 then do { x \<leftarrow> get_r vm d; y \<leftarrow> get_f vm (s mod 8); put_r vm d (x XOR y) }
      else do { x \<leftarrow> get_f vm (d mod 8); y \<leftarrow> get_r vm s; put_f vm (d mod 8) (f_mul q x (normFloat y)) })"

text \<open>The repair after a floating-point instruction.\<close>

definition float_fix :: "nat \<Rightarrow> nm_vm \<Rightarrow> nm_vm option" where
  "float_fix d vm = do {
     v \<leftarrow> get_f vm (d mod 8);
     if is_nan v \<or> is_inf v \<or> is_zero v
     then do { x \<leftarrow> get_r vm d; put_f vm (d mod 8) (normFloat (x OR 1)) }
     else Some vm
   }"

definition exec_op :: "u64 \<Rightarrow> nm_params \<Rightarrow> u8 list \<Rightarrow> nat \<Rightarrow> nm_op \<Rightarrow> nat \<Rightarrow> nat \<Rightarrow> u32 \<Rightarrow> nm_vm \<Rightarrow> nm_vm option" where
  "exec_op q p rk loop op d s imm vm =
     (if op \<in> {IADD, IMUL, IMULH, IXOR, IROTR, INEG} then do {
        x \<leftarrow> get_r vm d; y \<leftarrow> get_r vm s; put_r vm d (exec_int op (rot_salt p) imm x y) }
      else if op \<in> {FADD, FMUL, FDIV, FSQRT} then do {
        x \<leftarrow> get_f vm (d mod 8); y \<leftarrow> get_f vm (s mod 8);
        vm \<leftarrow> put_f vm (d mod 8) (exec_float op q x y);
        float_fix d vm }
      else if op = LOAD then do {
        y \<leftarrow> get_r vm s; m \<leftarrow> get_s vm (unat (drop_bit 3 (scratch_addr y imm)));
        x \<leftarrow> get_r vm d; put_r vm d (x XOR m) }
      else if op = STORE then do {
        x \<leftarrow> get_r vm d; let w = unat (drop_bit 3 (scratch_addr x imm));
        m \<leftarrow> get_s vm w; y \<leftarrow> get_r vm s; put_s vm w (m XOR (y + of_nat loop)) }
      else if op = AESR then exec_aesr rk d s imm vm
      else if op = XDOM then exec_xdom q d s imm vm
      else Some vm)"

text \<open>
  The \<^verbatim>\<open>while (pc < progSize)\<close> loop. An opcode byte outside the table has no case in the switch.
\<close>

definition takes_branch :: "nm_params \<Rightarrow> nat \<Rightarrow> u32 \<Rightarrow> nm_vm \<Rightarrow> u8 \<Rightarrow> bool option" where
  "takes_branch p d imm vm t = do { x \<leftarrow> get_r vm d; Some ((x + ucast imm) AND branch_mask p = 0 \<and> t < 8) }"

lemma taken_decreases:
  assumes "pc < length taken" and "taken ! pc < 8"
  shows "sum_list (map (\<lambda>t. 8 - unat t) (taken[pc := taken ! pc + 1])) < sum_list (map (\<lambda>t. 8 - unat t) (taken :: u8 list))"
proof -
  have t: "unat (taken ! pc) < 8" using assms(2) by (simp add: word_less_nat_alt)
  then have "unat (taken ! pc + 1) = unat (taken ! pc) + 1" by (simp add: unat_word_ariths)
  with t have "8 - unat (taken ! pc + 1) < 8 - unat (taken ! pc)" by simp
  moreover have "sum_list (map (\<lambda>t. 8 - unat t) (taken[pc := v])) =
      sum_list (map (\<lambda>t. 8 - unat t) (take pc taken)) + (8 - unat v) + sum_list (map (\<lambda>t. 8 - unat t) (drop (Suc pc) taken))" for v
    using assms(1) by (simp add: upd_conv_take_nth_drop)
  ultimately show ?thesis by (metis (no_types, lifting) add_less_cancel_left add_less_cancel_right list_update_id)
qed

function vm_prog :: "u64 \<Rightarrow> nm_params \<Rightarrow> u8 list \<Rightarrow> nm_instr list \<Rightarrow> nat \<Rightarrow> u8 list \<Rightarrow> nat \<Rightarrow> nm_vm \<Rightarrow> nm_vm option" where
  "vm_prog q p rk prog loop taken pc vm =
     (if prog_size p \<le> pc then Some vm
      else do {
        ins \<leftarrow> get prog pc;
        let d = unat (i_dst ins AND 15);
        let s = unat (i_src ins AND 15);
        let imm = i_imm ins;
        case get nm_ops (unat (i_op ins)) of
          None \<Rightarrow> vm_prog q p rk prog loop taken (pc + 1) vm
        | Some op \<Rightarrow>
            if op = CBRANCH then do {
              t \<leftarrow> get taken pc;
              br \<leftarrow> takes_branch p d imm vm t;
              if br then vm_prog q p rk prog loop (taken[pc := t + 1]) (pc - (unat (imm mod 31) + 1)) vm
              else vm_prog q p rk prog loop taken (pc + 1) vm }
            else do {
              vm' \<leftarrow> exec_op q p rk loop op d s imm vm;
              vm_prog q p rk prog loop taken (pc + 1) vm' }
      })"
  by pat_completeness auto

termination
proof (relation "measures [\<lambda>(q, p, rk, prog, loop, taken, pc, vm). sum_list (map (\<lambda>t. 8 - unat t) taken),
    \<lambda>(q, p, rk, prog, loop, taken, pc, vm). prog_size p - pc]")
qed (auto simp: takes_branch_def bind_eq_Some_conv dest!: get_SomeD intro: taken_decreases)

declare vm_prog.simps [simp del]

subsection \<open>Loops over the program\<close>

definition mix_read :: "u64 list option \<Rightarrow> nat \<Rightarrow> nat \<Rightarrow> u64 \<times> nm_vm \<Rightarrow> (u64 \<times> nm_vm) option" where
  "mix_read dataset loop k s = (case s of (addr, vm) \<Rightarrow> do {
     ds \<leftarrow> dataset;
     v \<leftarrow> get ds (unat (drop_bit 3 addr));
     x \<leftarrow> get_r vm (k mod 16);
     vm \<leftarrow> put_r vm (k mod 16) (x XOR v);
     y \<leftarrow> get_r vm ((k + 1) mod 16);
     Some ((v + y + of_nat loop) AND NM_DATASET_MASK, vm)
   })"

definition mix_dataset :: "u64 list option \<Rightarrow> u64 \<Rightarrow> nat \<Rightarrow> nm_vm \<Rightarrow> nm_vm option" where
  "mix_dataset dataset rotSalt loop vm = do {
     x \<leftarrow> get_r vm 1;
     (_, vm) \<leftarrow> foldM (mix_read dataset loop) [0..<NM_DATASET_READS_PER_LOOP] ((x XOR rotSalt) AND NM_DATASET_MASK, vm);
     Some vm
   }"

definition write_back :: "nat \<Rightarrow> nm_vm \<Rightarrow> nm_vm option" where
  "write_back loop vm = do {
     x \<leftarrow> get_r vm 0;
     let base = unat (drop_bit 3 ((x XOR of_nat loop * 0x9E3779B97F4A7C15) AND NM_SCRATCH_MASK));
     foldM (\<lambda>i vm. do {
       let w = (base + i) mod NM_SCRATCH_WORDS;
       m \<leftarrow> get_s vm w; y \<leftarrow> get_r vm i; put_s vm w (m XOR y) }) [0..<16] vm
   }"

definition mix_floats :: "nm_vm \<Rightarrow> nm_vm option" where
  "mix_floats = foldM (\<lambda>i vm. do { x \<leftarrow> get_r vm (i + 8); y \<leftarrow> get_f vm i; put_r vm (i + 8) (x XOR y) }) [0..<8]"

definition vm_loop :: "u64 \<Rightarrow> nm_params \<Rightarrow> u8 list \<Rightarrow> nm_instr list \<Rightarrow> u64 list option \<Rightarrow> bool \<Rightarrow> nat \<Rightarrow> nm_vm \<Rightarrow> nm_vm option" where
  "vm_loop q p rk prog dataset useDS loop vm =
     (if NM_PROG_MAX < prog_size p then None
      else do {
        vm \<leftarrow> vm_prog q p rk prog loop (replicate (prog_size p) 0) 0 vm;
        vm \<leftarrow> (if useDS then mix_dataset dataset (rot_salt p) loop vm else Some vm);
        vm \<leftarrow> write_back loop vm;
        mix_floats vm
      })"

subsection \<open>Hash\<close>

definition vm_start :: "nm_params \<Rightarrow> u8 list \<Rightarrow> u64 list \<Rightarrow> nm_vm option" where
  "vm_start p seed scratch = do {
     rs \<leftarrow> those (map (\<lambda>i. map_option (\<lambda>w. w XOR rot_salt p) (get scratch i)) [4..<16]);
     fs \<leftarrow> those (map (\<lambda>i. map_option normFloat (get scratch (16 + i))) [0..<8]);
     Some \<lparr>v_r = map (\<lambda>i. le64 (drop (i * 8) seed)) [0..<4] @ rs, v_f = fs, v_scratch = scratch\<rparr>
   }"

definition scratch_fold :: "u64 list \<Rightarrow> u64 list option" where
  "scratch_fold scratch =
     (if length scratch < NM_SCRATCH_WORDS then None
      else Some (fold (\<lambda>i fo. fold (\<lambda>j fo. fo[j := fo ! j XOR scratch ! (8 * i + j)]) [0..<8] fo)
        [0..<NM_SCRATCH_WORDS div 8] (replicate 8 0)))"

definition vm_output :: "u8 list \<Rightarrow> nm_vm \<Rightarrow> u64 list \<Rightarrow> u8 list" where
  "vm_output seed vm fo =
     nm_sha256 (bytes_of ''NMv1'' @ seed @ concat (map (put64 (replicate 8 0) 0) (v_r vm @ v_f vm @ fo)))"

definition nm_seed :: "u8 list \<Rightarrow> u8 list" where
  "nm_seed header = nm_sha256 (bytes_of ''nm-seed|'' @ take NM_HEADER_LEN header)"

text \<open>
  \<^verbatim>\<open>nm_hash\<close> on the buffers of its context: the digest and the scratchpad it leaves behind.
\<close>

definition nm_hash_run ::
  "u64 \<Rightarrow> (nat \<Rightarrow> u8) \<Rightarrow> nm_params \<Rightarrow> u8 list \<Rightarrow> u64 list \<Rightarrow> u64 list option \<Rightarrow> u8 list \<Rightarrow> u64
   \<Rightarrow> (u8 list \<times> u64 list) option" where
  "nm_hash_run q stk p rk scratch dataset header height =
     (if length header < NM_HEADER_LEN then None
      else let seed = nm_seed header; useDS = (NM_DATASET_HEIGHT \<le> height) in do {
        scratch \<leftarrow> fill_scratch stk scratch seed;
        prog \<leftarrow> gen_program p seed;
        vm \<leftarrow> vm_start p seed scratch;
        vm \<leftarrow> foldM (vm_loop q p rk prog dataset useDS) [0..<loops p] vm;
        fo \<leftarrow> scratch_fold (v_scratch vm);
        Some (vm_output seed vm fo, v_scratch vm)
      })"

subsection \<open>Machine states\<close>

definition vm_ok :: "nm_vm \<Rightarrow> bool" where
  "vm_ok vm \<longleftrightarrow> length (v_r vm) = 16 \<and> length (v_f vm) = 8 \<and> length (v_scratch vm) = NM_SCRATCH_WORDS
     \<and> (\<forall>x \<in> set (v_f vm). f_pos x)"

text \<open>Two computations that both succeed, with the same result, and keep the invariant.\<close>

definition agree :: "('s \<Rightarrow> bool) \<Rightarrow> 's option \<Rightarrow> 's option \<Rightarrow> bool" where
  "agree I m n \<longleftrightarrow> (\<exists>s. m = Some s \<and> n = Some s \<and> I s)"

lemma agree_Some [simp]: "agree I (Some s) (Some t) \<longleftrightarrow> s = t \<and> I s"
  by (auto simp: agree_def)

lemma agree_bind: "agree I m n \<Longrightarrow> (\<And>s. I s \<Longrightarrow> agree J (f s) (g s)) \<Longrightarrow> agree J (m \<bind> f) (n \<bind> g)"
  by (auto simp: agree_def)

lemma agree_mono: "agree I m n \<Longrightarrow> (\<And>s. I s \<Longrightarrow> J s) \<Longrightarrow> agree J m n"
  by (auto simp: agree_def)

lemma agree_foldM:
  "I s \<Longrightarrow> (\<And>x s. x \<in> set xs \<Longrightarrow> I s \<Longrightarrow> agree I (f x s) (g x s)) \<Longrightarrow> agree I (foldM f xs s) (foldM g xs s)"
proof (induction xs arbitrary: s)
  case (Cons x xs)
  then have "agree I (f x s) (g x s)" by simp
  then show ?case unfolding foldM.simps by (rule agree_bind) (use Cons in simp)
qed simp

lemma get_put_regs:
  assumes "vm_ok vm"
  shows "i < 16 \<Longrightarrow> get_r vm i = Some (v_r vm ! i)" "i < 8 \<Longrightarrow> get_f vm i = Some (v_f vm ! i)"
    "i < NM_SCRATCH_WORDS \<Longrightarrow> get_s vm i = Some (v_scratch vm ! i)"
    "i < 16 \<Longrightarrow> put_r vm i x = Some (vm\<lparr>v_r := (v_r vm)[i := x]\<rparr>)"
    "i < 8 \<Longrightarrow> put_f vm i x = Some (vm\<lparr>v_f := (v_f vm)[i := x]\<rparr>)"
    "i < NM_SCRATCH_WORDS \<Longrightarrow> put_s vm i x = Some (vm\<lparr>v_scratch := (v_scratch vm)[i := x]\<rparr>)"
  using assms by (simp_all add: vm_ok_def get_r_def get_f_def get_s_def put_r_def put_f_def put_s_def)

lemma vm_ok_upd [simp]:
  "vm_ok vm \<Longrightarrow> vm_ok (vm\<lparr>v_r := (v_r vm)[i := x]\<rparr>)"
  "vm_ok vm \<Longrightarrow> vm_ok (vm\<lparr>v_scratch := (v_scratch vm)[j := y]\<rparr>)"
  "vm_ok vm \<Longrightarrow> f_pos z \<Longrightarrow> vm_ok (vm\<lparr>v_f := (v_f vm)[k := z]\<rparr>)"
  using set_update_subset_insert [of "v_f vm" k z] by (auto simp: vm_ok_def)

lemma vm_ok_f: "vm_ok vm \<Longrightarrow> i < 8 \<Longrightarrow> f_pos (v_f vm ! i)"
  by (simp add: vm_ok_def)

lemma and_le_right: "unat (x AND y) \<le> unat y" for x y :: "'a::len word"
  using word_and_le2 [of x y] word_and_le1 [of x y] by (simp add: word_le_nat_alt)

lemma scratch_index: "unat (drop_bit 3 (scratch_addr x imm)) < NM_SCRATCH_WORDS"
proof -
  have "unat (scratch_addr x imm) \<le> 2097144"
    using and_le_right [of "x + ucast imm" NM_SCRATCH_MASK] by (simp add: scratch_addr_def NM_SCRATCH_MASK_def)
  then show ?thesis by (simp add: drop_bit_eq_div unat_div_distrib NM_SCRATCH_WORDS_def less_mult_imp_div_less)
qed

lemma scratch_index16:
  "aesr_index x imm < NM_SCRATCH_WORDS" "Suc (aesr_index x imm) < NM_SCRATCH_WORDS"
proof -
  let ?a = "scratch_addr x imm AND NOT 15"
  have le: "unat ?a \<le> 2097136"
  proof -
    have "?a = (x + ucast imm) AND (NM_SCRATCH_MASK AND NOT 15)" by (simp add: scratch_addr_def and.assoc)
    moreover have "NM_SCRATCH_MASK AND NOT 15 = 2097136" by (simp add: NM_SCRATCH_MASK_def)
    ultimately show ?thesis using and_le_right [of "x + ucast imm" "2097136 :: u64"] by simp
  qed
  then show "Suc (aesr_index x imm) < NM_SCRATCH_WORDS"
    by (simp only: aesr_index_def drop_bit_eq_div unat_div_distrib) (simp add: NM_SCRATCH_WORDS_def less_mult_imp_div_less)
  then show "aesr_index x imm < NM_SCRATCH_WORDS" by simp
qed

lemma scratch_index_mask: "unat (drop_bit 3 (x AND NM_SCRATCH_MASK)) < NM_SCRATCH_WORDS"
  using scratch_index [of x 0] by (simp add: scratch_addr_def)

lemma dataset_index: "unat (drop_bit 3 (x AND NM_DATASET_MASK)) < NM_DATASET_WORDS"
proof -
  have "unat (x AND NM_DATASET_MASK) \<le> 67108856"
    using and_le_right [of x NM_DATASET_MASK] by (simp add: NM_DATASET_MASK_def)
  then show ?thesis by (simp add: drop_bit_eq_div unat_div_distrib NM_DATASET_WORDS_def less_mult_imp_div_less)
qed

lemma reg_index: "unat (x AND 15) < 16" for x :: u8
  using and_le_right [of x 15] by simp

lemma normFloat_pos: "f_pos (normFloat x)" and normFloat_exp: "f_exp (normFloat x) = 1023"
proof -
  let ?m = "x AND 0x000FFFFFFFFFFFFF"
  have m: "unat ?m < 2 ^ 52" using and_le_right [of x "0x000FFFFFFFFFFFFF"] by simp
  have "normFloat x = f_pack False 1023 (unat ?m)"
  proof -
    have "(push_bit 52 1023 :: u64) AND ?m = 0" by (simp add: and.commute [of 4607182418800017408] and.assoc)
    then have "normFloat x = push_bit 52 1023 + ?m"
      by (simp add: normFloat_def disjunctive_add_eq_or)
    then show ?thesis by (simp add: f_pack_def)
  qed
  then show "f_pos (normFloat x)" "f_exp (normFloat x) = 1023"
    using f_pack_fields [of 1023 "unat ?m" False] m
    by (simp_all add: f_pos_def f_nonneg_def is_nan_def is_zero_def)
qed

lemma normFloat_finite: "\<not> is_inf (normFloat x)"
  by (simp add: is_inf_def normFloat_exp)

lemma exec_float_nonneg:
  assumes "f_pos x" and "f_pos y"
  shows "f_nonneg (exec_float op q x y)" and "exec_float op q x y = exec_float op q' x y"
proof -
  have n: "f_nonneg x" "f_nonneg y" using assms by (simp_all add: f_pos_def)
  show "f_nonneg (exec_float op q x y)"
    using f_add_nonneg(1) [OF n] f_mul_pos(1) [OF assms] f_sqrt_nonneg(1) [OF n(1)] n
      f_div_pos(1) [OF assms(1) normFloat_pos normFloat_finite]
    by (simp add: exec_float_def split: nm_op.split)
  show "exec_float op q x y = exec_float op q' x y"
    using f_add_nonneg(2) [OF n, of q q'] f_mul_pos(2) [OF assms, of q q'] f_sqrt_nonneg(2) [OF n(1), of q q'] n
      f_div_pos(2) [OF assms(1) normFloat_pos normFloat_finite, of q _ q']
    by (simp add: exec_float_def split: nm_op.split)
qed

subsection \<open>Instructions stay in bounds\<close>

text \<open>A floating-point result before its repair: not negative, but perhaps zero.\<close>

lemma float_fix_ok:
  assumes ok: "vm_ok vm" and d: "d < 16" and z: "f_nonneg z"
  shows "\<exists>vm'. float_fix d (vm\<lparr>v_f := (v_f vm)[d mod 8 := z]\<rparr>) = Some vm' \<and> vm_ok vm'"
proof -
  have len: "length (v_f vm) = 8" "length (v_r vm) = 16" using ok by (simp_all add: vm_ok_def)
  show ?thesis
  proof (cases "is_nan z \<or> is_inf z \<or> is_zero z")
    case True
    then show ?thesis using len d vm_ok_upd(3) [OF ok normFloat_pos]
      by (simp add: float_fix_def get_f_def get_r_def put_f_def)
  next
    case False
    then show ?thesis using len d vm_ok_upd(3) [OF ok, of z] z
      by (simp add: float_fix_def get_f_def f_pos_def)
  qed
qed

lemma exec_op_agree:
  assumes ok: "vm_ok vm" and d: "d < 16" and s: "s < 16"
  shows "agree vm_ok (exec_op q p rk loop op d s imm vm) (exec_op q' p rk loop op d s imm vm)"
proof -
  note g = get_put_regs [OF ok]
  consider (int) "op \<in> {IADD, IMUL, IMULH, IXOR, IROTR, INEG}" | (float) "op \<in> {FADD, FMUL, FDIV, FSQRT}"
    | (load) "op = LOAD" | (store) "op = STORE" | (aesr) "op = AESR" | (xdom) "op = XDOM" | (branch) "op = CBRANCH"
    by (cases op) auto
  then show ?thesis
  proof cases
    case int
    then show ?thesis using ok d s by (simp only: exec_op_def if_True) (simp add: g)
  next
    case float
    have pos: "f_pos (v_f vm ! (d mod 8))" "f_pos (v_f vm ! (s mod 8))" using ok by (simp_all add: vm_ok_f)
    have "exec_op qn p rk loop op d s imm vm = float_fix d (vm\<lparr>v_f := (v_f vm)[d mod 8 :=
        exec_float op qn (v_f vm ! (d mod 8)) (v_f vm ! (s mod 8))]\<rparr>)" for qn
      using float by (auto simp: exec_op_def g)
    then show ?thesis
      using float_fix_ok [OF ok d exec_float_nonneg(1) [OF pos]] exec_float_nonneg(2) [OF pos, of op q q']
      by (simp add: agree_def)
  next
    case load
    then show ?thesis using ok d s scratch_index by (simp add: exec_op_def g)
  next
    case store
    then show ?thesis using ok d s scratch_index by (simp add: exec_op_def g Let_def)
  next
    case aesr
    show ?thesis using aesr ok d s scratch_index16 [of "v_r vm ! s" imm]
      by (simp add: exec_op_def exec_aesr_def vm_ok_def get_r_def get_s_def put_r_def put_s_def Let_def)
  next
    case xdom
    have pos: "f_pos (v_f vm ! (d mod 8))" using ok by (simp add: vm_ok_f)
    show ?thesis using xdom ok d s f_mul_pos(2) [OF pos normFloat_pos, of q _ q'] f_mul_scale [OF pos normFloat_pos normFloat_exp]
      by (simp add: exec_op_def exec_xdom_def g)
  next
    case branch
    then show ?thesis using ok by (simp add: exec_op_def)
  qed
qed

subsection \<open>The program ends\<close>

lemma vm_prog_agree:
  assumes "prog_size p \<le> length prog" and "prog_size p \<le> length taken" and "vm_ok vm"
  shows "agree vm_ok (vm_prog q p rk prog loop taken pc vm) (vm_prog q' p rk prog loop taken pc vm)"
  using assms
proof (induction q p rk prog loop taken pc vm rule: vm_prog.induct)
  case (1 q p rk prog loop taken pc vm)
  show ?case
  proof (cases "prog_size p \<le> pc")
    case True
    then show ?thesis using 1(7) by (simp add: vm_prog.simps [of _ p rk prog loop taken pc vm])
  next
    case False
    note prems = 1(5-7)
    define ins where "ins = prog ! pc"
    let ?d = "unat (i_dst ins AND 15)" and ?s = "unat (i_src ins AND 15)" and ?o = "get nm_ops (unat (i_op ins))"
    have ins: "get prog pc = Some ins" using False prems by (simp add: ins_def)
    have ds: "?d < 16" "?s < 16" by (rule reg_index)+
    note step = vm_prog.simps [of _ p rk prog loop taken pc vm]
    show ?thesis
    proof (cases ?o)
      case None
      then show ?thesis using 1(1) [OF False ins refl refl refl None] None prems False ins by (simp add: step Let_def)
    next
      case (Some op)
      show ?thesis
      proof (cases "op = CBRANCH")
        case True
        have t: "get taken pc = Some (taken ! pc)" using False prems by simp
        obtain br where b: "takes_branch p ?d (i_imm ins) vm (taken ! pc) = Some br"
          using ds prems by (simp add: takes_branch_def get_put_regs)
        show ?thesis
          using 1(2) [OF False ins refl refl refl Some True t b] 1(3) [OF False ins refl refl refl Some True t b]
            prems False ins Some True t b by (cases br) (simp_all add: step Let_def)
      next
        case False
        then obtain vm' where vm': "exec_op q p rk loop op ?d ?s (i_imm ins) vm = Some vm'"
          "exec_op q' p rk loop op ?d ?s (i_imm ins) vm = Some vm'" "vm_ok vm'"
          using exec_op_agree [OF prems(3) ds, of q p rk loop op "i_imm ins" q'] by (auto simp: agree_def)
        show ?thesis
          using 1(4) [OF \<open>\<not> prog_size p \<le> pc\<close> ins refl refl refl Some False vm'(1)] prems False ins Some
            \<open>\<not> prog_size p \<le> pc\<close> vm' by (simp add: step Let_def)
      qed
    qed
  qed
qed

lemma nm_sha256_hsha: "nm_sha256 m = hsha m"
proof -
  have "length (sha_buf stack_ctx) = 64" by (simp add: stack_ctx_def)
  then show ?thesis by (simp only: nm_sha256_def nm_sha256_from_absorb hsha_absorb nm_compress_hblock)
qed

lemma length_nm_sha256 [simp]: "length (nm_sha256 m) = 32"
  by (simp add: nm_sha256_hsha)

subsection \<open>Counter blocks\<close>

text \<open>
  The words both fill loops write: word \<open>i\<close> is half of the encryption of the counter block that
  holds the even index and a fixed upper half.
\<close>

definition counter_word :: "u8 list \<Rightarrow> u8 list \<Rightarrow> nat \<Rightarrow> u64" where
  "counter_word rk hi i =
     le_word (take 8 (drop (8 * (i mod 2)) (nm_aes128_encrypt_sw rk (le_bytes 8 (of_nat (i - i mod 2) :: u64) @ hi))))"

lemma put64_le_bytes: "put64 b off v = blit b off (le_bytes 8 v)"
  by (simp add: put64_def le_bytes_def)

lemma block_index: "k < 16 \<Longrightarrow> 16 * n \<le> 16 * j + k \<and> 16 * j + k < 16 * n + 8 \<longleftrightarrow> j = n \<and> k < 8" for j k n :: nat
  by (cases j n rule: linorder_cases) linarith+

lemma stage_turn_nth:
  assumes "length st = 128"
  shows "length (stage_turn i st) = 128 \<and> (\<forall>j < 8. \<forall>k < 16. stage_turn i st ! (16 * j + k) =
    (if k < 8 then le_bytes 8 (of_nat (i + 2 * j) :: u64) ! k else st ! (16 * j + k)))"
proof -
  let ?P = "\<lambda>n s. length s = 128 \<and> (\<forall>j < 8. \<forall>k < 16. s ! (16 * j + k) =
    (if k < 8 \<and> j < n then le_bytes 8 (of_nat (i + 2 * j) :: u64) ! k else st ! (16 * j + k)))"
  have "?P 8 (stage_turn i st)" unfolding stage_turn_def
  proof (rule fold_upt_inv [where P = ?P])
    fix n s assume n: "0 \<le> n" "n < 8" and P: "?P n s"
    have "put64 s (16 * n) (of_nat (i + 2 * n)) ! (16 * j + k) = (if k < 8 \<and> j < Suc n
        then le_bytes 8 (of_nat (i + 2 * j) :: u64) ! k else st ! (16 * j + k))" if j: "j < 8" and k: "k < 16" for j k
    proof -
      have "put64 s (16 * n) (of_nat (i + 2 * n)) ! (16 * j + k) = (if j = n \<and> k < 8
          then le_bytes 8 (of_nat (i + 2 * n) :: u64) ! (16 * j + k - 16 * n) else s ! (16 * j + k))"
        using P n j k block_index [OF k, of n j] by (simp add: put64_le_bytes nth_blit)
      also have "\<dots> = (if j = n \<and> k < 8 then le_bytes 8 (of_nat (i + 2 * j) :: u64) ! k
          else if k < 8 \<and> j < n then le_bytes 8 (of_nat (i + 2 * j) :: u64) ! k else st ! (16 * j + k))"
        using P j k by simp
      finally show ?thesis by (auto simp: less_Suc_eq)
    qed
    then show "?P (Suc n) (put64 s (16 * n) (of_nat (i + 2 * n)))"
      using P n by (simp add: put64_le_bytes)
  qed (use assms in simp_all)
  then show ?thesis by simp
qed

definition staged :: "u8 list \<Rightarrow> u8 list \<Rightarrow> bool" where
  "staged hi st \<longleftrightarrow> length hi = 8 \<and> length st = 128 \<and> (\<forall>j < 8. \<forall>k < 8. st ! (16 * j + 8 + k) = hi ! k)"

lemma staged_turn: "staged hi st \<Longrightarrow> staged hi (stage_turn i st)"
  and staged_chunk: "staged hi st \<Longrightarrow> j < 8 \<Longrightarrow>
    chunk 16 j (stage_turn i st) = le_bytes 8 (of_nat (i + 2 * j) :: u64) @ hi"
proof -
  assume st: "staged hi st"
  have len: "length hi = 8" "length st = 128" and up: "\<And>j k. j < 8 \<Longrightarrow> k < 8 \<Longrightarrow> st ! (16 * j + 8 + k) = hi ! k"
    using st by (auto simp: staged_def)
  note turn = stage_turn_nth [OF len(2), of i]
  have n: "stage_turn i st ! (16 * j + k) = (if k < 8 then le_bytes 8 (of_nat (i + 2 * j) :: u64) ! k else hi ! (k - 8))"
    if "j < 8" "k < 16" for j k
  proof -
    have "8 \<le> k \<Longrightarrow> 16 * j + 8 + (k - 8) = 16 * j + k" by simp
    then have "8 \<le> k \<Longrightarrow> st ! (16 * j + k) = hi ! (k - 8)" using up [of j "k - 8"] that by (metis less_diff_conv2 numeral_Bit0)
    then show ?thesis using turn that by simp
  qed
  show "staged hi (stage_turn i st)"
    unfolding staged_def
  proof (intro conjI allI impI)
    fix j k :: nat assume "j < 8" "k < 8"
    then show "stage_turn i st ! (16 * j + 8 + k) = hi ! k" using n [of j "8 + k"] by (simp add: add.assoc)
  qed (use turn len in simp_all)
  show "chunk 16 j (stage_turn i st) = le_bytes 8 (of_nat (i + 2 * j) :: u64) @ hi" if "j < 8"
  proof (rule nth_equalityI)
    show "length (chunk 16 j (stage_turn i st)) = length (le_bytes 8 (of_nat (i + 2 * j) :: u64) @ hi)"
      using turn that len by (simp add: length_chunk)
    fix k assume "k < length (chunk 16 j (stage_turn i st))"
    then have k: "k < 16" using turn that by (simp add: length_chunk)
    then show "chunk 16 j (stage_turn i st) ! k = (le_bytes 8 (of_nat (i + 2 * j) :: u64) @ hi) ! k"
      using turn that n [OF that k] len by (simp add: nth_chunk nth_append)
  qed
qed

lemma fill_write:
  assumes "i + 16 \<le> length w"
  shows "fold (\<lambda>j w. w[i + 2 * j := f (2 * j), i + 2 * j + 1 := f (2 * j + 1)]) [0..<8] w =
    blit w i (map f [0..<16])"
proof -
  let ?P = "\<lambda>n w'. w' = blit w i (map f [0..<2 * n])"
  have "?P 8 (fold (\<lambda>j w. w[i + 2 * j := f (2 * j), i + 2 * j + 1 := f (2 * j + 1)]) [0..<8] w)"
  proof (rule fold_upt_inv [where P = ?P])
    fix n w' assume n: "0 \<le> n" "n < 8" and P: "?P n w'"
    have "map f [0..<2 * Suc n] = map f [0..<2 * n] @ [f (2 * n), f (2 * n + 1)]" by simp
    moreover have "blit w i (xs @ [a, b]) = (blit w i xs)[i + length xs := a, i + length xs + 1 := b]"
      if "i + length xs + 2 \<le> length w" for xs a b
      using that by (intro nth_equalityI) (auto simp: nth_blit nth_list_update nth_append less_Suc_eq nth_Cons')
    ultimately show "?P (Suc n) (w'[i + 2 * n := f (2 * n), i + 2 * n + 1 := f (2 * n + 1)])"
      using P n assms by simp
  qed simp_all
  then show ?thesis by simp
qed

lemma fill_turn_eq:
  assumes st: "staged hi st" and i: "even i" "i + 16 \<le> length w"
  shows "fill_turn rk i (st, w) = (stage_turn i st, blit w i (map (\<lambda>k. counter_word rk hi (i + k)) [0..<16]))"
proof -
  define outs where "outs = nm_aes128_encrypt8 rk (stage_turn i st)"
  have blk: "chunk 16 j outs = nm_aes128_encrypt_sw rk (le_bytes 8 (of_nat (i + 2 * j) :: u64) @ hi)" if "j < 8" for j
  proof -
    have "chunk 16 j outs = map (\<lambda>j. nm_aes128_encrypt_sw rk (chunk 16 j (stage_turn i st))) [0..<8] ! j"
      unfolding outs_def nm_aes128_encrypt8_def using that by (intro chunk_concat) auto
    then show ?thesis using that staged_chunk [OF st that, of i] by simp
  qed
  have half: "take 8 (drop (8 * (2 * j + b)) xs) = take 8 (drop (8 * b) (chunk 16 j xs))" if "b < 2" for j b and xs :: "u8 list"
    using that by (auto simp: chunk_def drop_take take_take min_def add.commute less_2_cases_iff)
  have "le64 (drop (8 * m) outs) = counter_word rk hi (i + m)" if "m < 16" for m
  proof -
    have m: "m = 2 * (m div 2) + m mod 2" "m div 2 < 8" using that by simp_all
    have "le64 (drop (8 * m) outs) = le_word (take 8 (drop (8 * m) outs))"
      by (rule le64_le_word) (use that in \<open>simp add: outs_def\<close>)
    also have "take 8 (drop (8 * m) outs) = take 8 (drop (8 * (m mod 2)) (chunk 16 (m div 2) outs))"
      using half [of "m mod 2" "m div 2" outs] m(1) by simp
    moreover have par: "(i + m) mod 2 = m mod 2" using i(1) by (auto elim!: evenE)
    moreover have "i + m - (i + m) mod 2 = i + 2 * (m div 2)" unfolding par using m(1) by linarith
    ultimately show ?thesis using blk [OF m(2)] by (simp add: counter_word_def)
  qed
  then have "map (\<lambda>m. le64 (drop (8 * m) outs)) [0..<16] = map (\<lambda>k. counter_word rk hi (i + k)) [0..<16]" by simp
  moreover have "fill_turn rk i (st, w) = (stage_turn i st, blit w i (map (\<lambda>m. le64 (drop (8 * m) outs)) [0..<16]))"
    using fill_write [OF i(2), of "\<lambda>m. le64 (drop (8 * m) outs)"] by (simp add: fill_turn_def outs_def Let_def add.commute)
  ultimately show ?thesis by (simp only:)
qed

lemma fill_words_counter:
  assumes st: "staged hi st" and len: "16 * turns \<le> length w"
  shows "fill_words rk st turns w = Some (map (counter_word rk hi) [0..<16 * turns] @ drop (16 * turns) w)"
proof -
  let ?P = "\<lambda>t s. staged hi (fst s) \<and> snd s = map (counter_word rk hi) [0..<16 * t] @ drop (16 * t) w"
  have "?P turns (fold (\<lambda>t. fill_turn rk (16 * t)) [0..<turns] (st, w))"
  proof (rule fold_upt_inv [where P = ?P])
    fix t s assume t: "0 \<le> t" "t < turns" and P: "?P t s"
    then have "fill_turn rk (16 * t) s = (stage_turn (16 * t) (fst s),
        blit (snd s) (16 * t) (map (\<lambda>k. counter_word rk hi (16 * t + k)) [0..<16]))"
      using fill_turn_eq [of hi "fst s" "16 * t" "snd s" rk] len by (cases s) simp
    moreover have "map (\<lambda>k. counter_word rk hi (16 * t + k)) [0..<16] = map (counter_word rk hi) [16 * t..<16 * Suc t]"
      by (rule nth_equalityI) simp_all
    moreover have "[0..<16 * Suc t] = [0..<16 * t] @ [16 * t..<16 * Suc t]"
      by (metis le_add2 mult_Suc_right upt_add_eq_append zero_le add.commute)
    ultimately show "?P (Suc t) (fill_turn rk (16 * t) s)"
      using P t len staged_turn by (simp add: blit_def add.commute)
  qed (use st in simp_all)
  then show ?thesis using len by (simp add: fill_words_def)
qed

definition dataset_words :: "u8 list \<Rightarrow> u64 list" where
  "dataset_words key = map (counter_word (nm_aes128_expand key) (replicate 8 0)) [0..<NM_DATASET_WORDS]"

definition scratch_words :: "u8 list \<Rightarrow> u64 list" where
  "scratch_words seed =
     (let key = nm_sha256 (take 32 seed @ [0x53])
      in map (counter_word (nm_aes128_expand key) (drop 24 key)) [0..<NM_SCRATCH_WORDS])"

lemma build_dataset_words:
  assumes "length ds = NM_DATASET_WORDS"
  shows "nm_build_dataset ds key = Some (dataset_words key)"
proof -
  have "staged (replicate 8 0) (replicate 128 0)" by (simp add: staged_def)
  then show ?thesis using assms
    by (simp add: nm_build_dataset_def fill_words_counter dataset_words_def NM_DATASET_WORDS_def)
qed

lemma stage_upper:
  assumes hi: "length hi = 8" and st: "length st = 128"
  shows "staged hi (fold (\<lambda>j st. blit st (16 * j + 8) hi) [0..<8] st)"
proof -
  let ?P = "\<lambda>n st. length st = 128 \<and> (\<forall>j < n. \<forall>k < 8. st ! (16 * j + 8 + k) = hi ! k)"
  have "?P 8 (fold (\<lambda>j st. blit st (16 * j + 8) hi) [0..<8] st)"
  proof (rule fold_upt_inv [where P = ?P])
    fix n st assume n: "0 \<le> n" "n < 8" and P: "?P n st"
    have "blit st (16 * n + 8) hi ! (16 * j + 8 + k) = hi ! k" if "j < Suc n" "k < 8" for j k
      using that n P hi by (auto simp: nth_blit less_Suc_eq)
    then show "?P (Suc n) (blit st (16 * n + 8) hi)" using P n hi by simp
  qed (use st in simp_all)
  then show ?thesis using hi by (simp add: staged_def)
qed

lemma fill_scratch_words:
  assumes "length scratch = NM_SCRATCH_WORDS"
  shows "fill_scratch stk scratch seed = Some (scratch_words seed)"
proof -
  have "length (drop 24 (nm_sha256 (take 32 seed @ [0x53]))) = 8" by simp
  note st = stage_upper [OF this, of "map stk [0..<128]", simplified]
  show ?thesis using assms fill_words_counter [OF st, of "NM_SCRATCH_WORDS div 16" scratch]
    by (simp add: fill_scratch_def scratch_words_def NM_SCRATCH_WORDS_def Let_def)
qed

lemma length_fill [simp]: "length (dataset_words key) = NM_DATASET_WORDS" "length (scratch_words seed) = NM_SCRATCH_WORDS"
  by (simp_all add: dataset_words_def scratch_words_def Let_def)

subsection \<open>Program generation\<close>

lemma stream_loop_ends:
  assumes "16 dvd length stream" and "16 dvd cap" and "need \<le> cap"
  shows "\<exists>inp' out. stream_loop rk cap need (inp, stream) = Some (inp', out) \<and> need \<le> length out"
  using assms
proof (induction "need - length stream" arbitrary: inp stream rule: less_induct)
  case less
  show ?case
  proof (cases "need \<le> length stream")
    case True
    then show ?thesis by (simp add: stream_loop.simps [of rk cap need inp stream])
  next
    case False
    obtain a b where ab: "length stream = 16 * a" "cap = 16 * b" using less.prems by (auto elim!: dvdE)
    then have "a < b" using False less.prems(3) by linarith
    then have cap: "\<not> cap < length stream + 16" using ab by simp
    define blk where "blk = nm_aes128_encrypt_sw rk inp"
    have "\<exists>inp' out. stream_loop rk cap need (put64 blk 0 (le64 blk + 1), stream @ blk) = Some (inp', out) \<and> need \<le> length out"
      by (rule less.hyps) (use False less.prems in \<open>simp_all add: blk_def\<close>)
    then show ?thesis using False cap by (simp add: stream_loop.simps [of rk cap need inp stream] blk_def Let_def)
  qed
qed

lemma those_map_Some: "(\<And>x. x \<in> set xs \<Longrightarrow> \<exists>y. f x = Some y) \<Longrightarrow> \<exists>ys. those (map f xs) = Some ys \<and> length ys = length xs"
  by (induction xs) fastforce+

lemma gen_program_ok:
  assumes "params_ok p"
  shows "\<exists>prog. gen_program p seed = Some prog \<and> length prog = prog_size p"
proof -
  define key where "key = nm_sha256 (take 32 seed @ [0x50])"
  have dvd: "16 dvd NM_PROG_MAX * 8" "16 dvd length []" by (simp_all add: NM_PROG_MAX_def)
  have "prog_size p * 8 \<le> NM_PROG_MAX * 8" using assms by (simp add: params_ok_def NM_PROG_MAX_def)
  then obtain inp' stream where st: "stream_loop (nm_aes128_expand key) (NM_PROG_MAX * 8) (prog_size p * 8)
      (take 16 (drop 16 key), []) = Some (inp', stream)"
    using stream_loop_ends [of "[]" "NM_PROG_MAX * 8" "prog_size p * 8"] dvd by fastforce
  let ?f = "\<lambda>i. let b = drop (i * 8) stream in do {
          op \<leftarrow> get (op_table p) (unat (b ! 0));
          Some \<lparr>i_op = op, i_dst = b ! 1, i_src = b ! 2, i_imm = le32 (drop 4 b)\<rparr> }"
  have "unat x < length (op_table p)" for x :: u8 using assms unat_u8_less [of x] by (simp add: params_ok_def)
  then have "\<exists>ys. those (map ?f [0..<prog_size p]) = Some ys \<and> length ys = length [0..<prog_size p]"
    by (intro those_map_Some) (simp add: Let_def)
  then show ?thesis using st by (simp add: gen_program_def key_def [symmetric])
qed

subsection \<open>Loops\<close>

lemma vm_start_ok: "length scratch = NM_SCRATCH_WORDS \<Longrightarrow> \<exists>vm. vm_start p seed scratch = Some vm \<and> vm_ok vm"
proof -
  assume len: "length scratch = NM_SCRATCH_WORDS"
  have th: "those (map (\<lambda>i. Some (g i)) xs) = Some (map g xs)" for g :: "nat \<Rightarrow> u64" and xs
    by (induction xs) simp_all
  have "map (\<lambda>i. map_option (\<lambda>w. w XOR rot_salt p) (get scratch i)) [4..<16] = map (\<lambda>i. Some (scratch ! i XOR rot_salt p)) [4..<16]"
    "map (\<lambda>i. map_option normFloat (get scratch (16 + i))) [0..<8] = map (\<lambda>i. Some (normFloat (scratch ! (16 + i)))) [0..<8]"
    using len by (simp_all add: NM_SCRATCH_WORDS_def)
  then show ?thesis
    by (simp only: vm_start_def th) (auto simp: vm_ok_def len normFloat_pos)
qed

lemma mix_dataset_agree:
  assumes "vm_ok vm" and ds: "dataset = Some ds" "length ds = NM_DATASET_WORDS"
  shows "agree vm_ok (mix_dataset dataset salt loop vm) (mix_dataset dataset salt loop vm)"
proof -
  let ?I = "\<lambda>s. (\<exists>a. fst s = a AND NM_DATASET_MASK) \<and> vm_ok (snd s)"
  have "agree ?I (mix_read dataset loop k s) (mix_read dataset loop k s)" if st: "?I s" for k s
  proof -
    obtain a vm where s: "s = (a AND NM_DATASET_MASK, vm)" "vm_ok vm" using st by (cases s) auto
    have i: "k mod 16 < 16" "(k + 1) mod 16 < 16" by simp_all
    show ?thesis using s ds dataset_index i by (auto simp: mix_read_def get_put_regs)
  qed
  then have run: "agree ?I (foldM (mix_read dataset loop) xs s) (foldM (mix_read dataset loop) xs s)" if "?I s" for xs s
    using that by (intro agree_foldM)
  have "agree ?I (foldM (mix_read dataset loop) [0..<NM_DATASET_READS_PER_LOOP] ((v_r vm ! 1 XOR salt) AND NM_DATASET_MASK, vm))
      (foldM (mix_read dataset loop) [0..<NM_DATASET_READS_PER_LOOP] ((v_r vm ! 1 XOR salt) AND NM_DATASET_MASK, vm))"
    by (rule run) (use assms(1) in auto)
  then show ?thesis
    using assms(1) unfolding mix_dataset_def by (auto simp: get_put_regs agree_def)
qed

lemma write_back_agree: "vm_ok vm \<Longrightarrow> agree vm_ok (write_back loop vm) (write_back loop vm)"
proof -
  assume ok: "vm_ok vm"
  have "(b + i) mod NM_SCRATCH_WORDS < NM_SCRATCH_WORDS" for b i by (simp add: NM_SCRATCH_WORDS_def)
  then show ?thesis using ok unfolding write_back_def Let_def
    by (simp add: get_put_regs) (rule agree_foldM, simp_all add: get_put_regs)
qed

lemma mix_floats_agree: "vm_ok vm \<Longrightarrow> agree vm_ok (mix_floats vm) (mix_floats vm)"
  unfolding mix_floats_def by (rule agree_foldM) (auto simp: get_put_regs)

lemma vm_loop_agree:
  assumes p: "params_ok p" and prog: "length prog = prog_size p" and ok: "vm_ok vm"
    and ds: "useDS \<Longrightarrow> \<exists>ds. dataset = Some ds \<and> length ds = NM_DATASET_WORDS"
  shows "agree vm_ok (vm_loop q p rk prog dataset useDS loop vm) (vm_loop q' p rk prog dataset useDS loop vm)"
proof -
  have "\<not> NM_PROG_MAX < prog_size p" using p by (simp add: params_ok_def NM_PROG_MAX_def)
  moreover have "agree vm_ok (if useDS then mix_dataset dataset (rot_salt p) loop vm else Some vm)
      (if useDS then mix_dataset dataset (rot_salt p) loop vm else Some vm)" if "vm_ok vm" for vm
    using ds mix_dataset_agree [OF that] that by (cases useDS) auto
  moreover have "agree vm_ok (vm_prog q p rk prog loop (replicate (prog_size p) 0) 0 vm)
      (vm_prog q' p rk prog loop (replicate (prog_size p) 0) 0 vm)"
    using prog ok by (intro vm_prog_agree) simp_all
  ultimately show ?thesis unfolding vm_loop_def
    by (simp only: if_False) (intro agree_bind [where I = vm_ok] write_back_agree mix_floats_agree)
qed

subsection \<open>The hash\<close>

definition hash_input_ok :: "nm_params \<Rightarrow> u64 list \<Rightarrow> u64 list option \<Rightarrow> u8 list \<Rightarrow> u64 \<Rightarrow> bool" where
  "hash_input_ok p scratch dataset header height \<longleftrightarrow>
     params_ok p \<and> length scratch = NM_SCRATCH_WORDS \<and> NM_HEADER_LEN \<le> length header
     \<and> (height < NM_DATASET_HEIGHT \<or> map_option length dataset = Some NM_DATASET_WORDS)"

lemma nm_hash_run_agree:
  assumes "hash_input_ok p scratch dataset header height" and "length scratch' = NM_SCRATCH_WORDS"
  shows "agree (\<lambda>(digest, sc). length digest = 32 \<and> length sc = NM_SCRATCH_WORDS)
    (nm_hash_run q stk p rk scratch dataset header height) (nm_hash_run q' stk' p rk scratch' dataset header height)"
proof -
  let ?seed = "nm_seed header" and ?use = "NM_DATASET_HEIGHT \<le> height"
  have p: "params_ok p" and ds: "?use \<Longrightarrow> \<exists>ds. dataset = Some ds \<and> length ds = NM_DATASET_WORDS"
    using assms(1) by (auto simp: hash_input_ok_def)
  obtain prog where prog: "gen_program p ?seed = Some prog" "length prog = prog_size p"
    using gen_program_ok [OF p] by blast
  obtain vm where vm: "vm_start p ?seed (scratch_words ?seed) = Some vm" "vm_ok vm"
    using vm_start_ok by force
  have "agree vm_ok (foldM (vm_loop q p rk prog dataset ?use) [0..<loops p] vm) (foldM (vm_loop q' p rk prog dataset ?use) [0..<loops p] vm)"
    using vm(2) by (rule agree_foldM) (rule vm_loop_agree [OF p prog(2) _ ds])
  then obtain vm' where vm': "foldM (vm_loop q p rk prog dataset ?use) [0..<loops p] vm = Some vm'"
    "foldM (vm_loop q' p rk prog dataset ?use) [0..<loops p] vm = Some vm'" "vm_ok vm'" by (auto simp: agree_def)
  then show ?thesis
    using assms prog vm by (auto simp: nm_hash_run_def hash_input_ok_def fill_scratch_words scratch_fold_def vm_ok_def vm_output_def Let_def)
qed

subsection \<open>Integer helpers\<close>

lemma mulhi64_val: "unat (mulhi64 a b) = unat a * unat b div 2 ^ 64"
proof -
  have lt: "unat a * unat b < 2 ^ 64 * 2 ^ 64"
    using unat_u64_less [of a] unat_u64_less [of b] by (intro mult_strict_mono') simp_all
  then have "unat a * unat b div 2 ^ 64 < 2 ^ 64" by (rule less_mult_imp_div_less)
  moreover have "unat (ucast a * ucast b :: 128 word) = unat a * unat b"
    using lt unat_u64_less [of a] unat_u64_less [of b] by (simp add: unat_word_ariths unsigned_ucast_eq take_bit_eq_mod)
  ultimately show ?thesis
    by (simp add: mulhi64_def unsigned_ucast_eq take_bit_eq_mod drop_bit_eq_div unat_div_distrib)
qed

lemma rotl64_neg:
  fixes k :: u64
  assumes "unat k < 64"
  shows "rotl64 x (- ucast k) = word_rotr (unat k) x"
proof (cases "unat k = 0")
  case True
  have "word_rotr 0 x = x" by (rule bit_word_eqI) (simp add: bit_word_rotr_iff)
  with True show ?thesis by (simp add: unat_eq_0 rotl64_def)
next
  case False
  have neg: "(- int n) mod 64 = int (64 - n)" if "0 < n" "n < 64" for n
    using that by (simp add: zmod_zminus1_eq_if of_nat_diff)
  have "unat (ucast k :: u32) = unat k" using assms by (simp add: unsigned_ucast_eq take_bit_eq_mod)
  then have u: "uint (ucast k :: u32) = int (unat k)" by (metis of_nat_unat)
  have "int (unat (- ucast k :: u32)) mod 64 = (- int (unat k)) mod 64"
    unfolding of_nat_unat uint_word_ariths u by (simp add: mod_mod_cancel)
  also have "\<dots> = int (64 - unat k)" using False assms by (intro neg) simp_all
  finally have "int (unat (- ucast k :: u32) mod 64) = int (64 - unat k)" by (simp only: of_nat_mod of_nat_numeral)
  then have "unat (- ucast k :: u32) mod 64 = 64 - unat k" by (simp only: of_nat_eq_iff)
  then show ?thesis using False assms shift_or_rotr [of "unat k" x]
    by (simp add: rotl64_def unat_and_63 or.commute)
qed

subsection \<open>Properties\<close>

text \<open>
  C17. Hashing returns and stays inside its buffers: for parameters in range, a scratchpad and a
  dataset of their sizes and a whole header, the generated program ends, no access leaves an
  array, and the digest has 32 bytes. The digest and the scratchpad left behind do not depend on
  what the scratchpad or the uninitialised staging area held before, nor on the NaN the
  floating-point unit would produce.
\<close>

theorem nm_hash_run_safe:
  assumes "hash_input_ok p scratch dataset header height" and "length scratch' = NM_SCRATCH_WORDS"
  shows "\<exists>digest sc. nm_hash_run q stk p rk scratch dataset header height = Some (digest, sc)
    \<and> nm_hash_run q' stk' p rk scratch' dataset header height = Some (digest, sc)
    \<and> length digest = 32 \<and> length sc = NM_SCRATCH_WORDS"
  using nm_hash_run_agree [OF assms, of q stk rk q' stk'] by (auto simp: agree_def)

theorem nm_hash_run_safe_witness:
  "\<exists>digest sc. nm_hash_run 0 (\<lambda>_. 0) (nm_derive_params (replicate 32 7)) (nm_aes128_expand (replicate 16 1))
      (replicate NM_SCRATCH_WORDS 0) (Some (replicate NM_DATASET_WORDS 5)) (replicate 124 9) 100000 = Some (digest, sc)
    \<and> nm_hash_run 1 (\<lambda>_. 9) (nm_derive_params (replicate 32 7)) (nm_aes128_expand (replicate 16 1))
      (replicate NM_SCRATCH_WORDS 3) (Some (replicate NM_DATASET_WORDS 5)) (replicate 124 9) 100000 = Some (digest, sc)
    \<and> length digest = 32 \<and> length sc = NM_SCRATCH_WORDS"
  by (rule nm_hash_run_safe) (simp_all add: hash_input_ok_def derive_params_ok NM_HEADER_LEN_def)

text \<open>
  C29. Both fill loops compute AES in counter mode: whatever the buffers held before, and whatever
  bytes the uninitialised staging area of \<^verbatim>\<open>fill_scratch\<close> starts with, word \<open>i\<close> of the dataset is the half selected by the parity of \<open>i\<close> of the encryption of the block
  with counter \<open>i\<close> rounded down to even, and the scratchpad is the same stream under the key of
  the header's seed with a salted upper half.
\<close>

theorem nm_fill_counter_mode:
  assumes "length ds = NM_DATASET_WORDS" and "length sc = NM_SCRATCH_WORDS"
  shows "nm_build_dataset ds key = Some (map (counter_word (nm_aes128_expand key) (replicate 8 0)) [0..<NM_DATASET_WORDS])
    \<and> fill_scratch stk sc seed = Some (scratch_words seed)"
  using build_dataset_words [OF assms(1)] fill_scratch_words [OF assms(2)] by (simp add: dataset_words_def)

theorem nm_fill_counter_mode_witness:
  "nm_build_dataset (replicate NM_DATASET_WORDS 9) (replicate 16 1)
      = Some (map (counter_word (nm_aes128_expand (replicate 16 1)) (replicate 8 0)) [0..<NM_DATASET_WORDS])
    \<and> fill_scratch (\<lambda>i. of_nat i) (replicate NM_SCRATCH_WORDS 4) (replicate 32 2) = Some (scratch_words (replicate 32 2))"
  by (rule nm_fill_counter_mode) simp_all

text \<open>
  The arithmetic helpers agree with the mathematics they abbreviate: \<^verbatim>\<open>mulhi64\<close> is the high half
  of the full product and the rotation of \<open>IROTR\<close>, called with a negated distance, rotates right.
\<close>

lemma nm_arith:
  "unat (mulhi64 a b) = unat a * unat b div 2 ^ 64
    \<and> exec_int IROTR salt imm a b = word_rotr (unat ((b XOR ucast imm) AND 63)) a"
proof -
  define k where "k = (b XOR ucast imm) AND 63"
  have "unat k < 64" using and_le_right [of "b XOR ucast imm" 63] by (simp add: k_def)
  then have "exec_int IROTR salt imm a b = word_rotr (unat k) a"
    by (simp add: exec_int_def k_def [symmetric] rotl64_neg)
  then show ?thesis by (simp add: mulhi64_val k_def)
qed

end
