(* ===== verification/Nm_Ctx.thy ===== *)
theory Nm_Ctx
  imports Nm_Vm
begin

text \<open>
  The C interface of NeuroMorph, \<^verbatim>\<open>neuromorph_capi.cpp\<close>, with the context functions of
  \<^verbatim>\<open>nm_neuromorph.c\<close> and the POSIX part of \<^verbatim>\<open>VirtualMemory.cpp\<close>: worker contexts, their buffers
  and the dataset that all contexts share. Memory is a map from block identifiers to contents; a
  read or a release of a block that is not allocated is the result \<open>None\<close>. Which allocations
  succeed, and what a fresh block holds, is the argument \<open>al\<close>: it is asked with the kind of
  allocation, the size in bytes and the number of the call.
\<close>

subsection \<open>Memory\<close>

record blk =
  b_mapped :: bool
  b_words :: "u64 list"

record os =
  blocks :: "nat \<rightharpoonup> blk"
  os_next :: nat
  mmapLengths :: "nat \<rightharpoonup> nat"

type_synonym allocator = "bool \<Rightarrow> nat \<Rightarrow> nat \<Rightarrow> u64 list option"
type_synonym ptr = "nat option"

definition os_alloc :: "allocator \<Rightarrow> bool \<Rightarrow> nat \<Rightarrow> os \<Rightarrow> ptr \<times> os" where
  "os_alloc al mapped sz m =
     (let i = os_next m; m' = m\<lparr>os_next := i + 1\<rparr>
      in case al mapped sz i of
           None \<Rightarrow> (None, m')
         | Some ws \<Rightarrow> (Some i, m'\<lparr>blocks := (blocks m)(i \<mapsto> \<lparr>b_mapped = mapped, b_words = ws\<rparr>)\<rparr>))"

definition os_free :: "bool \<Rightarrow> ptr \<Rightarrow> os \<Rightarrow> os option" where
  "os_free mapped p m = (case p of
       None \<Rightarrow> Some m
     | Some i \<Rightarrow> do {
         b \<leftarrow> blocks m i;
         if b_mapped b = mapped then Some (m\<lparr>blocks := (blocks m)(i := None)\<rparr>) else None })"

definition al_ok :: "allocator \<Rightarrow> bool" where
  "al_ok al \<longleftrightarrow> (\<forall>mapped sz i ws. al mapped sz i = Some ws \<longrightarrow> length ws = sz div 8)"

definition kHugePageSize :: nat where "kHugePageSize = 2097152"

definition roundUp :: "nat \<Rightarrow> nat \<Rightarrow> nat" where
  "roundUp v a = ((v - 1) div a + 1) * a"

definition allocateLargePagesMemory :: "allocator \<Rightarrow> nat \<Rightarrow> os \<Rightarrow> ptr \<times> os" where
  "allocateLargePagesMemory al sz m =
     (let rounded = roundUp sz kHugePageSize
      in case os_alloc al True rounded m of
           (None, m') \<Rightarrow> (None, m')
         | (Some i, m') \<Rightarrow> (Some i, m'\<lparr>mmapLengths := (mmapLengths m')(i \<mapsto> rounded)\<rparr>))"

definition freeLargePagesMemory :: "ptr \<Rightarrow> os \<Rightarrow> os option" where
  "freeLargePagesMemory p m = (case p of
       None \<Rightarrow> Some m
     | Some i \<Rightarrow> (case mmapLengths m i of
         None \<Rightarrow> Some m
       | Some len \<Rightarrow> let m' = m\<lparr>mmapLengths := (mmapLengths m)(i := None)\<rparr>
                     in if len \<noteq> 0 then os_free True (Some i) m' else Some m'))"

record Buffer =
  buf_ptr :: ptr
  buf_size :: nat
  buf_huge :: bool

definition alloc_buffer :: "allocator \<Rightarrow> nat \<Rightarrow> os \<Rightarrow> Buffer \<times> os" where
  "alloc_buffer al sz m = (case allocateLargePagesMemory al sz m of
       (Some i, m') \<Rightarrow> (\<lparr>buf_ptr = Some i, buf_size = sz, buf_huge = True\<rparr>, m')
     | (None, m') \<Rightarrow> (case os_alloc al False sz m' of
         (p, m'') \<Rightarrow> (\<lparr>buf_ptr = p, buf_size = sz, buf_huge = False\<rparr>, m'')))"

definition free_buffer :: "Buffer \<Rightarrow> os \<Rightarrow> os option" where
  "free_buffer b m =
     (if buf_ptr b = None then Some m
      else if buf_huge b then freeLargePagesMemory (buf_ptr b) m
      else os_free False (buf_ptr b) m)"

subsection \<open>Contexts\<close>

record nm_ctx =
  c_params :: nm_params
  c_aes :: "u8 list"
  c_scratch :: ptr
  c_prog :: ptr
  c_taken :: ptr
  c_dataset :: ptr
  c_dataset_key :: "u8 list"
  c_dataset_valid :: bool
  c_owns_dataset :: bool
  c_owns_scratch :: bool

definition NM_SCRATCH_BYTES :: nat where "NM_SCRATCH_BYTES = 2097152"
definition NM_DATASET_BYTES :: nat where "NM_DATASET_BYTES = 67108864"

text \<open>The context after \<^verbatim>\<open>memset(c, 0, sizeof *c)\<close>.\<close>

definition zero_ctx :: nm_ctx where
  "zero_ctx = \<lparr>c_params = \<lparr>prog_size = 0, loops = 0, branch_mask = 0, rot_salt = 0, aes_key = replicate 16 0,
       dataset_key = replicate 16 0, op_table = replicate 256 0\<rparr>,
     c_aes = replicate 176 0, c_scratch = None, c_prog = None, c_taken = None, c_dataset = None,
     c_dataset_key = replicate 16 0, c_dataset_valid = False, c_owns_dataset = False, c_owns_scratch = False\<rparr>"

definition alloc_thread_buffers :: "allocator \<Rightarrow> nm_ctx \<Rightarrow> os \<Rightarrow> int \<times> nm_ctx \<times> os" where
  "alloc_thread_buffers al c m =
     (let (s, m) = os_alloc al False (NM_SCRATCH_WORDS * 8) m;
          (p, m) = os_alloc al False (NM_PROG_MAX * 8) m;
          (t, m) = os_alloc al False NM_PROG_MAX m
      in (if s \<noteq> None \<and> p \<noteq> None \<and> t \<noteq> None then 0 else -1,
          c\<lparr>c_scratch := s, c_prog := p, c_taken := t, c_owns_scratch := True\<rparr>, m))"

definition nm_ctx_init :: "allocator \<Rightarrow> os \<Rightarrow> int \<times> nm_ctx \<times> os" where
  "nm_ctx_init al m = (case alloc_thread_buffers al zero_ctx m of (rc, c, m) \<Rightarrow>
     if rc \<noteq> 0 then (-1, c, m)
     else case os_alloc al False (NM_DATASET_WORDS * 8) m of (d, m) \<Rightarrow>
       if d = None then (-1, c\<lparr>c_dataset := d\<rparr>, m)
       else (0, c\<lparr>c_dataset := d, c_owns_dataset := True, c_dataset_valid := False\<rparr>, m))"

definition nm_ctx_init_shared :: "allocator \<Rightarrow> os \<Rightarrow> int \<times> nm_ctx \<times> os" where
  "nm_ctx_init_shared al m = (case alloc_thread_buffers al zero_ctx m of (rc, c, m) \<Rightarrow>
     if rc \<noteq> 0 then (-1, c, m)
     else (0, c\<lparr>c_dataset := None, c_owns_dataset := False, c_dataset_valid := False\<rparr>, m))"

definition nm_ctx_attach_scratch :: "nm_ctx \<Rightarrow> ptr \<Rightarrow> os \<Rightarrow> (nm_ctx \<times> os) option" where
  "nm_ctx_attach_scratch c s m = do {
     m \<leftarrow> (if c_owns_scratch c then os_free False (c_scratch c) m else Some m);
     Some (c\<lparr>c_scratch := s, c_owns_scratch := False\<rparr>, m)
   }"

definition nm_ctx_free :: "nm_ctx \<Rightarrow> os \<Rightarrow> (nm_ctx \<times> os) option" where
  "nm_ctx_free c m = do {
     m \<leftarrow> (if c_owns_scratch c then os_free False (c_scratch c) m else Some m);
     m \<leftarrow> os_free False (c_prog c) m;
     m \<leftarrow> os_free False (c_taken c) m;
     m \<leftarrow> (if c_owns_dataset c then os_free False (c_dataset c) m else Some m);
     Some (zero_ctx, m)
   }"

definition nm_ctx_set_params :: "nm_ctx \<Rightarrow> u8 list \<Rightarrow> nm_ctx" where
  "nm_ctx_set_params c seed =
     (let p = nm_derive_params seed in c\<lparr>c_params := p, c_aes := nm_aes128_expand (aes_key p)\<rparr>)"

definition nm_ctx_attach_dataset :: "nm_ctx \<Rightarrow> ptr \<Rightarrow> u8 list \<Rightarrow> nm_ctx" where
  "nm_ctx_attach_dataset c d key = c\<lparr>c_dataset := d, c_dataset_key := take 16 key, c_dataset_valid := True\<rparr>"

text \<open>\<^verbatim>\<open>nm_build_dataset\<close> through a pointer.\<close>

definition build_at :: "ptr \<Rightarrow> u8 list \<Rightarrow> os \<Rightarrow> os option" where
  "build_at d key m = do {
     i \<leftarrow> d;
     b \<leftarrow> blocks m i;
     ws \<leftarrow> nm_build_dataset (b_words b) key;
     Some (m\<lparr>blocks := (blocks m)(i \<mapsto> b\<lparr>b_words := ws\<rparr>)\<rparr>)
   }"

definition nm_ctx_set_seed :: "nm_ctx \<Rightarrow> u8 list \<Rightarrow> os \<Rightarrow> (nm_ctx \<times> os) option" where
  "nm_ctx_set_seed c seed m =
     (let c = nm_ctx_set_params c seed; key = dataset_key (c_params c)
      in if c_owns_dataset c \<and> (\<not> c_dataset_valid c \<or> c_dataset_key c \<noteq> key)
         then do { m \<leftarrow> build_at (c_dataset c) key m;
                   Some (c\<lparr>c_dataset_key := key, c_dataset_valid := True\<rparr>, m) }
         else Some (c, m))"

definition words_at :: "os \<Rightarrow> ptr \<Rightarrow> u64 list option" where
  "words_at m p = do { i \<leftarrow> p; b \<leftarrow> blocks m i; Some (b_words b) }"

text \<open>
  \<^verbatim>\<open>nm_hash\<close> on a context. The program and branch-count buffers are written before they are read
  in every call, so only their allocation matters. The bytes its stack frame starts with are an
  argument, which may differ from call to call.
\<close>

definition nm_hash :: "u64 \<Rightarrow> (nat \<Rightarrow> u8) \<Rightarrow> nm_ctx \<Rightarrow> u8 list \<Rightarrow> u64 \<Rightarrow> os \<Rightarrow> (u8 list \<times> os) option" where
  "nm_hash q stk c header height m = do {
     i \<leftarrow> c_scratch c;
     b \<leftarrow> blocks m i;
     _ \<leftarrow> words_at m (c_prog c);
     _ \<leftarrow> words_at m (c_taken c);
     (digest, sc) \<leftarrow> nm_hash_run q stk (c_params c) (c_aes c) (b_words b) (words_at m (c_dataset c)) header height;
     Some (digest, m\<lparr>blocks := (blocks m)(i \<mapsto> b\<lparr>b_words := sc\<rparr>)\<rparr>)
   }"

subsection \<open>Shared dataset and workers\<close>

record Worker =
  w_ctx :: nm_ctx
  w_scratch :: Buffer

record nm_state =
  nm_os :: os
  workers :: "nat \<rightharpoonup> Worker"
  g_datasetBuf :: Buffer
  g_datasetKey :: "u8 list"
  g_datasetValid :: bool
  g_datasetHuge :: bool
  g_error :: string

definition null_buffer :: Buffer where
  "null_buffer = \<lparr>buf_ptr = None, buf_size = 0, buf_huge = False\<rparr>"

definition nm_init_state :: nm_state where
  "nm_init_state = \<lparr>nm_os = \<lparr>blocks = Map.empty, os_next = 0, mmapLengths = Map.empty\<rparr>, workers = Map.empty,
     g_datasetBuf = null_buffer, g_datasetKey = replicate 16 0, g_datasetValid = False, g_datasetHuge = False, g_error = []\<rparr>"

text \<open>\<^verbatim>\<open>sizeof(Worker)\<close> with 64-bit pointers: a context of 552 bytes and a buffer record of 24.\<close>

definition sizeof_Worker :: nat where "sizeof_Worker = 576"

text \<open>\<^verbatim>\<open>shared_dataset\<close>: the allocation on first use, then the build for a new key.\<close>

definition ensure_dataset :: "allocator \<Rightarrow> nm_state \<Rightarrow> nm_state" where
  "ensure_dataset al st =
     (if buf_ptr (g_datasetBuf st) = None
      then let (b, m) = alloc_buffer al NM_DATASET_BYTES (nm_os st)
           in if buf_ptr b = None then st\<lparr>nm_os := m, g_datasetBuf := b\<rparr>
              else st\<lparr>nm_os := m, g_datasetBuf := b, g_datasetHuge := buf_huge b, g_datasetValid := False\<rparr>
      else st)"

definition refresh_dataset :: "u8 list \<Rightarrow> nm_state \<Rightarrow> (ptr \<times> nm_state) option" where
  "refresh_dataset key st =
     (let ds = buf_ptr (g_datasetBuf st)
      in if ds = None then Some (None, st)
         else if \<not> g_datasetValid st \<or> g_datasetKey st \<noteq> key
         then do { m \<leftarrow> build_at ds key (nm_os st);
                   Some (ds, st\<lparr>nm_os := m, g_datasetKey := key, g_datasetValid := True\<rparr>) }
         else Some (ds, st))"

definition shared_dataset :: "allocator \<Rightarrow> u8 list \<Rightarrow> nm_state \<Rightarrow> (ptr \<times> nm_state) option" where
  "shared_dataset al key st = refresh_dataset key (ensure_dataset al st)"

definition nm_capi_huge_pages :: "nm_state \<Rightarrow> int" where
  "nm_capi_huge_pages st = (if buf_ptr (g_datasetBuf st) = None then -1 else if g_datasetHuge st then 1 else 0)"

definition nm_capi_create_ctx :: "allocator \<Rightarrow> nm_state \<Rightarrow> (ptr \<times> nm_state) option" where
  "nm_capi_create_ctx al st =
     (case os_alloc al False sizeof_Worker (nm_os st) of
        (None, m) \<Rightarrow> Some (None, st\<lparr>nm_os := m, g_error := ''out of memory allocating the NeuroMorph worker context''\<rparr>)
      | (Some h, m) \<Rightarrow> (case nm_ctx_init_shared al m of (rc, c, m) \<Rightarrow>
          if rc \<noteq> 0 then do {
            m \<leftarrow> os_free False (Some h) m;
            Some (None, st\<lparr>nm_os := m, g_error := ''nm_ctx_init_shared failed (program buffer allocation)''\<rparr>) }
          else (case alloc_buffer al NM_SCRATCH_BYTES m of (b, m) \<Rightarrow>
            if buf_ptr b = None then do {
              (_, m) \<leftarrow> nm_ctx_free c m;
              m \<leftarrow> os_free False (Some h) m;
              Some (None, st\<lparr>nm_os := m, g_error := ''out of memory allocating the 2 MiB NeuroMorph scratchpad''\<rparr>) }
            else do {
              (c, m) \<leftarrow> nm_ctx_attach_scratch c (buf_ptr b) m;
              Some (Some h, st\<lparr>nm_os := m, workers := (workers st)(h \<mapsto> \<lparr>w_ctx = c, w_scratch = b\<rparr>), g_error := []\<rparr>) })))"

definition nm_capi_destroy_ctx :: "ptr \<Rightarrow> nm_state \<Rightarrow> nm_state option" where
  "nm_capi_destroy_ctx handle st = (case handle of
       None \<Rightarrow> Some st
     | Some h \<Rightarrow> do {
         w \<leftarrow> workers st h;
         let c = (w_ctx w)\<lparr>c_dataset := None, c_dataset_valid := False, c_scratch := None, c_owns_scratch := False\<rparr>;
         (_, m) \<leftarrow> nm_ctx_free c (nm_os st);
         m \<leftarrow> free_buffer (w_scratch w) m;
         m \<leftarrow> os_free False (Some h) m;
         Some (st\<lparr>nm_os := m, workers := (workers st)(h := None)\<rparr>) })"

definition nm_capi_set_seed :: "allocator \<Rightarrow> nat \<Rightarrow> u8 list \<Rightarrow> nm_state \<Rightarrow> (int \<times> nm_state) option" where
  "nm_capi_set_seed al h seed st = do {
     w \<leftarrow> workers st h;
     let c = nm_ctx_set_params (w_ctx w) seed;
     (ds, st) \<leftarrow> shared_dataset al (dataset_key (c_params c))
                  (st\<lparr>workers := (workers st)(h \<mapsto> w\<lparr>w_ctx := c\<rparr>), g_error := []\<rparr>);
     if ds = None then Some (-1, st\<lparr>g_error := ''out of memory allocating the 64 MiB NeuroMorph dataset''\<rparr>)
     else Some (0, st\<lparr>workers := (workers st)(h \<mapsto> w\<lparr>w_ctx := nm_ctx_attach_dataset c ds (dataset_key (c_params c))\<rparr>)\<rparr>)
   }"

definition nm_capi_hash :: "u64 \<Rightarrow> (nat \<Rightarrow> u8) \<Rightarrow> nat \<Rightarrow> u8 list \<Rightarrow> u64 \<Rightarrow> nm_state \<Rightarrow> (u8 list \<times> nm_state) option" where
  "nm_capi_hash q stk h header height st = do {
     w \<leftarrow> workers st h;
     (digest, m) \<leftarrow> nm_hash q stk (w_ctx w) header height (nm_os st);
     Some (digest, st\<lparr>nm_os := m\<rparr>)
   }"

text \<open>The self-test, with the code it returns.\<close>

definition selftest_seed :: "u8 list" where
  "selftest_seed = map (\<lambda>i. of_nat (i * 7 + 1)) [0..<32]"

definition selftest_header :: "u8 list" where
  "selftest_header = map (\<lambda>i. of_nat (i * 3 + 5)) [0..<NM_HEADER_LEN]"

definition NM_NONCE_OFFSET :: nat where "NM_NONCE_OFFSET = 116"

definition selftest_hashes :: "u64 \<Rightarrow> (nat \<Rightarrow> nat \<Rightarrow> u8) \<Rightarrow> nat \<Rightarrow> nat \<Rightarrow> nm_state \<Rightarrow> (int \<times> nm_state) option" where
  "selftest_hashes q stk a b st = do {
     let header = selftest_header;
     (h1, st) \<leftarrow> nm_capi_hash q (stk 0) a header 100000 st;
     (h2, st) \<leftarrow> nm_capi_hash q (stk 1) a header 100000 st;
     (h3, st) \<leftarrow> nm_capi_hash q (stk 2) b header 100000 st;
     (h4, st) \<leftarrow> nm_capi_hash q (stk 3) a (header[NM_NONCE_OFFSET := header ! NM_NONCE_OFFSET XOR 1]) 100000 st;
     st \<leftarrow> nm_capi_destroy_ctx (Some a) st;
     st \<leftarrow> nm_capi_destroy_ctx (Some b) st;
     if h1 \<noteq> h2 then Some (-3, st\<lparr>g_error := ''selftest: repeated hash on one context differs''\<rparr>)
     else if h1 \<noteq> h3 then Some (-4, st\<lparr>g_error := ''selftest: a second context hashes the same input differently''\<rparr>)
     else if h1 = h4 then Some (-5, st\<lparr>g_error := ''selftest: flipping a nonce bit did not change the hash''\<rparr>)
     else Some (0, st)
   }"

definition selftest_run :: "u64 \<Rightarrow> (nat \<Rightarrow> nat \<Rightarrow> u8) \<Rightarrow> allocator \<Rightarrow> nat \<Rightarrow> nat \<Rightarrow> nm_state \<Rightarrow> (int \<times> nm_state) option" where
  "selftest_run q stk al a b st = do {
     (ra, st) \<leftarrow> nm_capi_set_seed al a selftest_seed st;
     (rb, st) \<leftarrow> (if ra \<noteq> 0 then Some (ra, st) else nm_capi_set_seed al b selftest_seed st);
     if rb \<noteq> 0 then do {
       st \<leftarrow> nm_capi_destroy_ctx (Some a) st;
       st \<leftarrow> nm_capi_destroy_ctx (Some b) st;
       Some (-2, st) }
     else selftest_hashes q stk a b st
   }"

definition nm_capi_selftest :: "u64 \<Rightarrow> (nat \<Rightarrow> nat \<Rightarrow> u8) \<Rightarrow> allocator \<Rightarrow> nm_state \<Rightarrow> (int \<times> nm_state) option" where
  "nm_capi_selftest q stk al st = do {
     (a, st) \<leftarrow> nm_capi_create_ctx al (st\<lparr>g_error := []\<rparr>);
     (b, st) \<leftarrow> nm_capi_create_ctx al st;
     if a = None \<or> b = None then do {
       st \<leftarrow> nm_capi_destroy_ctx a st;
       st \<leftarrow> nm_capi_destroy_ctx b st;
       Some (-1, st) }
     else selftest_run q stk al (the a) (the b) st
   }"

subsection \<open>Allocation\<close>

text \<open>\<open>ext m m'\<close>: blocks known to \<open>m\<close> are as they were, and identifiers stay bounded.\<close>

definition bounded :: "os \<Rightarrow> bool" where
  "bounded m \<longleftrightarrow> (\<forall>i \<ge> os_next m. blocks m i = None)"

definition ext :: "os \<Rightarrow> os \<Rightarrow> bool" where
  "ext m m' \<longleftrightarrow> os_next m \<le> os_next m' \<and> bounded m'
     \<and> (\<forall>i < os_next m. blocks m' i = blocks m i \<and> mmapLengths m' i = mmapLengths m i)"

lemma ext_refl: "bounded m \<Longrightarrow> ext m m"
  by (simp add: ext_def)

lemma ext_trans: "ext m m' \<Longrightarrow> ext m' m'' \<Longrightarrow> ext m m''"
  by (auto simp: ext_def)

lemma ext_bounded: "ext m m' \<Longrightarrow> bounded m'"
  by (simp add: ext_def)

lemma os_alloc_ext: "bounded m \<Longrightarrow> ext m (snd (os_alloc al mapped sz m))"
  by (auto simp: os_alloc_def ext_def bounded_def Let_def split: option.split)

lemma os_alloc_ext': "os_alloc al mapped sz m = (p, m') \<Longrightarrow> bounded m \<Longrightarrow> ext m m'"
  using os_alloc_ext [of m al mapped sz] by simp

lemma allocateLargePages_ext: "bounded m \<Longrightarrow> ext m (snd (allocateLargePagesMemory al sz m))"
  by (auto simp: allocateLargePagesMemory_def os_alloc_def ext_def bounded_def Let_def split: option.split)

lemma alloc_buffer_ext: "bounded m \<Longrightarrow> ext m (snd (alloc_buffer al sz m))"
proof -
  assume m: "bounded m"
  obtain p m' where lp: "allocateLargePagesMemory al sz m = (p, m')" by fastforce
  then have "ext m m'" using allocateLargePages_ext [OF m, of al sz] by simp
  moreover have "ext m' (snd (os_alloc al False sz m'))" using calculation by (intro os_alloc_ext ext_bounded)
  ultimately show ?thesis using lp by (auto simp: alloc_buffer_def split: option.split prod.split intro: ext_trans)
qed

lemma os_free_ext: "ext m m' \<Longrightarrow> os_free mapped p m' = Some m'' \<Longrightarrow> (\<And>i. p = Some i \<Longrightarrow> os_next m \<le> i) \<Longrightarrow> ext m m''"
  by (auto simp: os_free_def ext_def bounded_def bind_eq_Some_conv split: option.splits if_splits)

text \<open>The kind and length of a block, which is all that ownership depends on.\<close>

definition shape :: "os \<Rightarrow> nat \<Rightarrow> (bool \<times> nat) option \<times> nat option" where
  "shape m i = (map_option (\<lambda>b. (b_mapped b, length (b_words b))) (blocks m i), mmapLengths m i)"

definition holds :: "os \<Rightarrow> ptr \<Rightarrow> bool \<Rightarrow> nat \<Rightarrow> bool" where
  "holds m p mapped n \<longleftrightarrow> (\<exists>i. p = Some i \<and> fst (shape m i) = Some (mapped, n))"

definition buffer_ok :: "os \<Rightarrow> Buffer \<Rightarrow> nat \<Rightarrow> bool" where
  "buffer_ok m b n \<longleftrightarrow> holds m (buf_ptr b) (buf_huge b) n
     \<and> (buf_huge b \<longrightarrow> (\<exists>len > 0. snd (shape m (the (buf_ptr b))) = Some len))"

lemma ext_shape: "ext m m' \<Longrightarrow> i < os_next m \<Longrightarrow> shape m' i = shape m i"
  by (simp add: ext_def shape_def)

lemma holds_bound: "holds m (Some i) mapped n \<Longrightarrow> bounded m \<Longrightarrow> i < os_next m"
  by (rule ccontr) (auto simp: holds_def shape_def bounded_def)

lemma holds_ext: "ext m m' \<Longrightarrow> i < os_next m \<Longrightarrow> holds m' (Some i) mapped n = holds m (Some i) mapped n"
  by (simp add: holds_def ext_shape)

lemma alloc_buffer_ok:
  assumes al: "al_ok al" and sz: "0 < sz" "kHugePageSize dvd sz"
    and ab: "alloc_buffer al sz m = (b, m')" and ptr: "buf_ptr b = Some i"
  shows "buffer_ok m' b (sz div 8)" "os_next m \<le> i" "i < os_next m'"
proof -
  have r: "roundUp sz kHugePageSize = sz"
  proof -
    obtain k where k: "sz = kHugePageSize * k" using sz(2) by (elim dvdE)
    then obtain j where j: "k = Suc j" using sz(1) by (cases k) auto
    have "(kHugePageSize * Suc j - 1) div kHugePageSize = j"
      by (rule div_nat_eqI) (simp_all add: kHugePageSize_def)
    then show ?thesis by (simp add: roundUp_def k j)
  qed
  show "buffer_ok m' b (sz div 8)" "os_next m \<le> i" "i < os_next m'"
    using ab ptr al sz(1)
    by (auto simp: alloc_buffer_def allocateLargePagesMemory_def os_alloc_def r buffer_ok_def holds_def shape_def al_ok_def Let_def
        split: option.splits prod.splits)
qed

subsection \<open>Ownership\<close>

definition worker_set :: "nat \<Rightarrow> Worker \<Rightarrow> nat set" where
  "worker_set h w = insert h (set_option (c_scratch (w_ctx w)) \<union> set_option (c_prog (w_ctx w)) \<union> set_option (c_taken (w_ctx w)))"

definition data_set :: "nm_state \<Rightarrow> nat set" where
  "data_set st = set_option (buf_ptr (g_datasetBuf st))"

definition worker_ok :: "os \<Rightarrow> nat \<Rightarrow> Worker \<Rightarrow> bool" where
  "worker_ok m h w \<longleftrightarrow> (let c = w_ctx w in
     holds m (Some h) False (sizeof_Worker div 8) \<and> buffer_ok m (w_scratch w) NM_SCRATCH_WORDS
     \<and> c_scratch c = buf_ptr (w_scratch w) \<and> holds m (c_prog c) False NM_PROG_MAX \<and> holds m (c_taken c) False (NM_PROG_MAX div 8)
     \<and> \<not> c_owns_scratch c \<and> \<not> c_owns_dataset c
     \<and> distinct [h, the (c_scratch c), the (c_prog c), the (c_taken c)])"

definition data_ok :: "nm_state \<Rightarrow> bool" where
  "data_ok st \<longleftrightarrow>
     (if buf_ptr (g_datasetBuf st) = None then \<not> g_datasetValid st
      else buffer_ok (nm_os st) (g_datasetBuf st) NM_DATASET_WORDS
        \<and> (g_datasetValid st \<longrightarrow> words_at (nm_os st) (buf_ptr (g_datasetBuf st)) = Some (dataset_words (g_datasetKey st))))"

definition nm_inv :: "nm_state \<Rightarrow> bool" where
  "nm_inv st \<longleftrightarrow> bounded (nm_os st) \<and> data_ok st
     \<and> (\<forall>h w. workers st h = Some w \<longrightarrow> worker_ok (nm_os st) h w \<and> worker_set h w \<inter> data_set st = {}
          \<and> (\<forall>h' w'. workers st h' = Some w' \<longrightarrow> h' \<noteq> h \<longrightarrow> worker_set h w \<inter> worker_set h' w' = {}))"

text \<open>Blocks that nobody will release.\<close>

definition owned :: "nm_state \<Rightarrow> nat set" where
  "owned st = data_set st \<union> \<Union> {worker_set h w | h w. workers st h = Some w}"

definition leaked :: "nm_state \<Rightarrow> nat set" where
  "leaked st = dom (blocks (nm_os st)) - owned st"

lemma nm_inv_worker:
  assumes "nm_inv st" and "workers st h = Some w"
  shows "worker_ok (nm_os st) h w" "worker_set h w \<inter> data_set st = {}"
  using assms by (auto simp: nm_inv_def)

lemma nm_init_inv: "nm_inv nm_init_state"
  by (simp add: nm_inv_def nm_init_state_def bounded_def data_ok_def null_buffer_def)

lemma holds_frame: "\<forall>i \<in> set_option p. shape m' i = shape m i \<Longrightarrow> holds m' p mapped n = holds m p mapped n"
  by (auto simp: holds_def)

lemma buffer_frame: "\<forall>i \<in> set_option (buf_ptr b). shape m' i = shape m i \<Longrightarrow> buffer_ok m b n \<Longrightarrow> buffer_ok m' b n"
  by (auto simp: buffer_ok_def holds_def)

lemma worker_frame:
  assumes "\<forall>i \<in> worker_set h w. shape m' i = shape m i" and "worker_ok m h w"
  shows "worker_ok m' h w"
proof -
  have s: "c_scratch (w_ctx w) = buf_ptr (w_scratch w)" using assms(2) by (simp add: worker_ok_def Let_def)
  have "buffer_ok m' (w_scratch w) NM_SCRATCH_WORDS"
    by (rule buffer_frame [of _ m' m]) (use assms s in \<open>auto simp: worker_set_def worker_ok_def Let_def\<close>)
  moreover have "holds m' p mapped n = holds m p mapped n"
    if "p \<in> {Some h, c_prog (w_ctx w), c_taken (w_ctx w)}" for p mapped n
    using assms(1) that by (intro holds_frame) (auto simp: worker_set_def)
  ultimately show ?thesis using assms(2) by (auto simp: worker_ok_def Let_def)
qed

lemma worker_bound: "worker_ok m h w \<Longrightarrow> bounded m \<Longrightarrow> i \<in> worker_set h w \<Longrightarrow> i < os_next m"
  using holds_bound by (auto simp: worker_ok_def worker_set_def buffer_ok_def Let_def)

lemma worker_live: "worker_ok m h w \<Longrightarrow> i \<in> worker_set h w \<Longrightarrow> blocks m i \<noteq> None"
  by (auto simp: worker_ok_def worker_set_def buffer_ok_def holds_def shape_def Let_def)

lemma data_bound: "data_ok st \<Longrightarrow> bounded (nm_os st) \<Longrightarrow> i \<in> data_set st \<Longrightarrow> i < os_next (nm_os st)"
  using holds_bound by (auto simp: data_ok_def data_set_def buffer_ok_def split: if_splits)

lemma data_live: "nm_inv st \<Longrightarrow> i \<in> data_set st \<Longrightarrow> blocks (nm_os st) i \<noteq> None"
  by (auto simp: nm_inv_def data_ok_def data_set_def buffer_ok_def holds_def shape_def split: if_splits)

lemma worker_union_eq:
  assumes "\<And>h. map_option (worker_set h) (W h) = map_option (worker_set h) (W' h)"
  shows "\<Union> {worker_set h w | h w. W h = Some w} = \<Union> {worker_set h w | h w. W' h = Some w}"
proof -
  have "{worker_set h w | h w. V h = Some w} = {s. \<exists>h. map_option (worker_set h) (V h) = Some s}" for V by auto
  then show ?thesis by (simp only: assms)
qed

text \<open>Growing memory keeps the invariant; so do new contents of blocks with the same shape.\<close>

lemma nm_inv_ext:
  assumes inv: "nm_inv st" and ext: "ext (nm_os st) m"
  shows "nm_inv (st\<lparr>nm_os := m, g_error := e\<rparr>)"
proof -
  have b: "bounded (nm_os st)" and d: "data_ok st" using inv by (simp_all add: nm_inv_def)
  have w: "worker_ok m h w" if "worker_ok (nm_os st) h w" for h w
    using that worker_bound [OF that b] by (intro worker_frame [OF _ that]) (simp add: ext_shape [OF ext])
  have "buffer_ok m (g_datasetBuf st) NM_DATASET_WORDS" if "buffer_ok (nm_os st) (g_datasetBuf st) NM_DATASET_WORDS"
    by (rule buffer_frame [OF _ that]) (use that holds_bound [OF _ b] in \<open>auto simp: buffer_ok_def ext_shape [OF ext]\<close>)
  moreover have "words_at m p = words_at (nm_os st) p" if "p = Some i" "i < os_next (nm_os st)" for p i
    using ext that by (simp add: words_at_def ext_def)
  ultimately have "data_ok (st\<lparr>nm_os := m, g_error := e\<rparr>)"
    using d data_bound [OF d b] by (auto simp: data_ok_def data_set_def)
  then show ?thesis
    using inv w ext_bounded [OF ext] by (auto simp: nm_inv_def data_set_def)
qed

subsection \<open>Creating a context\<close>

lemma alloc_thread_buffers_ext: "bounded m \<Longrightarrow> alloc_thread_buffers al c m = (rc, c', m') \<Longrightarrow> ext m m'"
proof -
  assume m: "bounded m" and eq: "alloc_thread_buffers al c m = (rc, c', m')"
  obtain s m1 p m2 t m3 where a: "os_alloc al False (NM_SCRATCH_WORDS * 8) m = (s, m1)"
    "os_alloc al False (NM_PROG_MAX * 8) m1 = (p, m2)" "os_alloc al False NM_PROG_MAX m2 = (t, m3)" by fastforce
  have "ext m m1" using os_alloc_ext' [OF a(1) m] .
  moreover have "ext m1 m2" using os_alloc_ext' [OF a(2)] calculation by (simp add: ext_bounded)
  moreover have "ext m2 m3" using os_alloc_ext' [OF a(3)] calculation by (simp add: ext_bounded)
  ultimately show ?thesis using eq a by (auto simp: alloc_thread_buffers_def intro: ext_trans)
qed

lemma init_shared_ok:
  assumes al: "al_ok al" and m: "bounded m" and ok: "nm_ctx_init_shared al m = (0, c, m')"
  defines "n \<equiv> os_next m"
  shows "ext m m'" "os_next m' = n + 3"
    "c_scratch c = Some n" "c_prog c = Some (n + 1)" "c_taken c = Some (n + 2)" "c_owns_scratch c" "\<not> c_owns_dataset c"
    "holds m' (Some (n + 1)) False NM_PROG_MAX" "holds m' (Some (n + 2)) False (NM_PROG_MAX div 8)"
    "holds m' (Some n) False NM_SCRATCH_WORDS" "dom (blocks m') = dom (blocks m) \<union> {n, n + 1, n + 2}"
proof -
  obtain rc c0 where tb: "alloc_thread_buffers al zero_ctx m = (rc, c0, m')" and rc: "rc = 0"
    and c: "c = c0\<lparr>c_dataset := None, c_owns_dataset := False, c_dataset_valid := False\<rparr>"
    using ok by (auto simp: nm_ctx_init_shared_def split: prod.splits if_splits)
  show "ext m m'" using alloc_thread_buffers_ext [OF m tb] .
  show "os_next m' = n + 3" "c_scratch c = Some n" "c_prog c = Some (n + 1)" "c_taken c = Some (n + 2)"
    "c_owns_scratch c" "\<not> c_owns_dataset c" "holds m' (Some (n + 1)) False NM_PROG_MAX"
    "holds m' (Some (n + 2)) False (NM_PROG_MAX div 8)" "holds m' (Some n) False NM_SCRATCH_WORDS"
    "dom (blocks m') = dom (blocks m) \<union> {n, n + 1, n + 2}"
    using tb rc al unfolding c
    by (auto simp: alloc_thread_buffers_def os_alloc_def holds_def shape_def al_ok_def n_def Let_def split: option.splits if_splits)
qed

lemma alloc_buffer_dom:
  "alloc_buffer al sz m = (b, m') \<Longrightarrow> dom (blocks m') = dom (blocks m) \<union> set_option (buf_ptr b)"
  by (auto simp: alloc_buffer_def allocateLargePagesMemory_def os_alloc_def Let_def split: option.splits if_splits)

definition create_ok :: "nm_state \<Rightarrow> ptr \<times> nm_state \<Rightarrow> bool" where
  "create_ok st r \<longleftrightarrow> (case r of
       (None, st') \<Rightarrow> \<exists>m e. st' = st\<lparr>nm_os := m, g_error := e\<rparr> \<and> ext (nm_os st) m
     | (Some h, st') \<Rightarrow> \<exists>m w e. st' = st\<lparr>nm_os := m, workers := (workers st)(h \<mapsto> w), g_error := e\<rparr>
         \<and> ext (nm_os st) m \<and> worker_ok m h w \<and> (\<forall>i \<in> worker_set h w. os_next (nm_os st) \<le> i)
         \<and> dom (blocks m) = dom (blocks (nm_os st)) \<union> worker_set h w)"

lemma os_free_holds:
  assumes "holds m (Some i) mapped n"
  shows "os_free mapped (Some i) m = Some (m\<lparr>blocks := (blocks m)(i := None)\<rparr>)"
  using assms by (auto simp: holds_def shape_def os_free_def)

lemma holds_other:
  "i \<noteq> j \<Longrightarrow> holds (m\<lparr>blocks := f(j := x)\<rparr>) (Some i) mapped n = holds (m\<lparr>blocks := f\<rparr>) (Some i) mapped n"
  "holds (m\<lparr>blocks := blocks m\<rparr>) p mapped n = holds m p mapped n"
  by (simp_all add: holds_def shape_def)

lemma ext_drop:
  "ext m (m'\<lparr>blocks := f\<rparr>) \<Longrightarrow> os_next m \<le> i \<Longrightarrow> ext m (m'\<lparr>blocks := f(i := None)\<rparr>)"
  "ext m m' \<Longrightarrow> os_next m \<le> i \<Longrightarrow> ext m (m'\<lparr>blocks := (blocks m')(i := None)\<rparr>)"
  by (auto simp: ext_def bounded_def)

lemma create_ctx_ok:
  assumes al: "al_ok al" and b: "bounded (nm_os st)"
  shows "\<exists>r. nm_capi_create_ctx al st = Some r \<and> create_ok st r"
proof -
  let ?n = "os_next (nm_os st)"
  obtain h m1 where a1: "os_alloc al False sizeof_Worker (nm_os st) = (h, m1)" by fastforce
  have e1: "ext (nm_os st) m1" using os_alloc_ext' [OF a1 b] .
  then have b1: "bounded m1" by (rule ext_bounded)
  show ?thesis
  proof (cases h)
    case None
    then show ?thesis using a1 e1 by (auto simp: nm_capi_create_ctx_def create_ok_def)
  next
    case (Some hn)
    have h1: "hn = ?n" "os_next m1 = ?n + 1" "holds m1 (Some ?n) False (sizeof_Worker div 8)" "dom (blocks m1) = insert ?n (dom (blocks (nm_os st)))"
      using a1 Some al by (auto simp: os_alloc_def holds_def shape_def al_ok_def Let_def split: option.splits)
    obtain rc c m2 where ini: "nm_ctx_init_shared al m1 = (rc, c, m2)" by (metis prod_cases3)
    show ?thesis
    proof (cases "rc = 0")
      case False
      have "ext m1 m2" using ini alloc_thread_buffers_ext [OF b1] by (auto simp: nm_ctx_init_shared_def split: prod.splits if_splits)
      moreover from this have "holds m2 (Some ?n) False (sizeof_Worker div 8)"
        using h1 by (simp add: holds_def shape_def ext_def)
      ultimately show ?thesis
        using False a1 Some ini h1 e1 ext_trans [OF e1]
        by (auto simp: nm_capi_create_ctx_def create_ok_def os_free_holds intro!: ext_drop)
    next
      case True
      note sh = init_shared_ok [OF al b1, of c m2]
      have ini0: "nm_ctx_init_shared al m1 = (0, c, m2)" using ini True by simp
      obtain bf m3 where ab: "alloc_buffer al NM_SCRATCH_BYTES m2 = (bf, m3)" by fastforce
      have e2: "ext m1 m2" using sh(1) [OF ini0] .
      have e3: "ext m2 m3" using alloc_buffer_ext [OF ext_bounded [OF e2], of al NM_SCRATCH_BYTES] ab by simp
      have e: "ext (nm_os st) m3" using e1 e2 e3 by (blast intro: ext_trans)
      have i: "?n + 1 + 1 = ?n + 2" "?n + 1 + 2 = ?n + 3" "?n + 1 + 3 = ?n + 4" by simp_all
      have nx: "os_next m2 = ?n + 4" using sh(2) [OF ini0, unfolded h1(2) i] .
      have hold: "holds m3 (Some ?n) False (sizeof_Worker div 8)" "holds m3 (Some (?n + 1)) False NM_SCRATCH_WORDS"
        "holds m3 (Some (?n + 2)) False NM_PROG_MAX" "holds m3 (Some (?n + 3)) False (NM_PROG_MAX div 8)"
        using h1(3) sh(10,8,9) [OF ini0, unfolded h1(2) i] holds_ext [OF e2] holds_ext [OF e3] h1(2) nx by simp_all
      have cs: "c_scratch c = Some (?n + 1)" "c_prog c = Some (?n + 2)" "c_taken c = Some (?n + 3)" "c_owns_scratch c" "\<not> c_owns_dataset c"
        using sh(3-7) [OF ini0, unfolded h1(2) i] by simp_all
      show ?thesis
      proof (cases "buf_ptr bf")
        case None
        show ?thesis
          using a1 Some ini0 ab None cs hold h1 e
          by (auto simp: nm_capi_create_ctx_def create_ok_def nm_ctx_free_def os_free_holds holds_other intro!: ext_drop)
      next
        case (Some bi)
        have "NM_SCRATCH_BYTES div 8 = NM_SCRATCH_WORDS" "0 < NM_SCRATCH_BYTES" "kHugePageSize dvd NM_SCRATCH_BYTES"
          by (simp_all add: NM_SCRATCH_BYTES_def NM_SCRATCH_WORDS_def kHugePageSize_def)
        then have bf: "buffer_ok m3 bf NM_SCRATCH_WORDS" "?n + 4 \<le> bi" "bi < os_next m3"
          using alloc_buffer_ok [OF al _ _ ab Some] nx by simp_all
        define m4 where "m4 = m3\<lparr>blocks := (blocks m3)(?n + 1 := None)\<rparr>"
        define w where "w = \<lparr>w_ctx = c\<lparr>c_scratch := Some bi, c_owns_scratch := False\<rparr>, w_scratch = bf\<rparr>"
        have cr: "nm_capi_create_ctx al st = Some (Some ?n, st\<lparr>nm_os := m4, workers := (workers st)(?n \<mapsto> w), g_error := []\<rparr>)"
          using a1 \<open>h = Some hn\<close> ini0 ab Some cs hold h1
          by (simp add: nm_capi_create_ctx_def nm_ctx_attach_scratch_def os_free_holds m4_def w_def)
        have x4: "ext (nm_os st) m4" unfolding m4_def using e by (rule ext_drop(2)) simp
        have "buffer_ok m4 bf NM_SCRATCH_WORDS"
          by (rule buffer_frame [OF _ bf(1)]) (use Some bf(2) in \<open>simp add: m4_def shape_def\<close>)
        then have ok4: "worker_ok m4 ?n w"
          using hold bf(2) cs Some by (auto simp: worker_ok_def w_def m4_def holds_other Let_def)
        have ws: "worker_set ?n w = {?n, bi, ?n + 2, ?n + 3}" using cs by (auto simp: worker_set_def w_def)
        have fr: "\<forall>i \<in> worker_set ?n w. ?n \<le> i" using ws bf(2) by auto
        have dm: "dom (blocks m4) = dom (blocks (nm_os st)) \<union> worker_set ?n w"
        proof -
          have "dom (blocks m3) = dom (blocks m2) \<union> {bi}" using alloc_buffer_dom [OF ab] Some by simp
          also have "\<dots> = dom (blocks (nm_os st)) \<union> {?n, ?n + 1, ?n + 2, ?n + 3, bi}"
            using sh(11) [OF ini0, unfolded h1(2) i] h1(4) by auto
          finally have "dom (blocks m4) = (dom (blocks (nm_os st)) \<union> {?n, ?n + 1, ?n + 2, ?n + 3, bi}) - {?n + 1}"
            by (simp add: m4_def)
          moreover have "?n + 1 \<notin> dom (blocks (nm_os st))" using b by (auto simp: bounded_def)
          ultimately show ?thesis using bf(2) ws by auto
        qed
        show ?thesis unfolding cr create_ok_def
          by (rule exI, rule conjI [OF refl], unfold prod.case option.case,
            rule exI [of _ m4], rule exI [of _ w], rule exI [of _ "[]"]) (intro conjI refl x4 ok4 fr dm)
      qed
    qed
  qed
qed

lemma create_inv:
  assumes inv: "nm_inv st" and ok: "create_ok st (p, st')"
  shows "nm_inv st'"
proof (cases p)
  case None
  then show ?thesis using ok nm_inv_ext [OF inv] by (auto simp: create_ok_def)
next
  case (Some h)
  then obtain m w e where st': "st' = st\<lparr>nm_os := m, workers := (workers st)(h \<mapsto> w), g_error := e\<rparr>"
    and ext: "ext (nm_os st) m" and w: "worker_ok m h w" and fresh: "\<forall>i \<in> worker_set h w. os_next (nm_os st) \<le> i"
    using ok by (auto simp: create_ok_def)
  have b: "bounded (nm_os st)" and d: "data_ok st" using inv by (simp_all add: nm_inv_def)
  have inv': "nm_inv (st\<lparr>nm_os := m, g_error := e\<rparr>)" by (rule nm_inv_ext [OF inv ext])
  have "worker_set h w \<inter> data_set st = {}" using fresh data_bound [OF d b] by fastforce
  moreover have "worker_set h w \<inter> worker_set h' w' = {}" if "workers st h' = Some w'" for h' w'
    using fresh worker_bound [OF nm_inv_worker(1) [OF inv that] b] by fastforce
  moreover have "worker_set h' w' \<inter> worker_set h w = {}" if "workers st h' = Some w'" for h' w'
    using calculation(2) [OF that] by auto
  moreover have "data_ok st'" using inv' by (auto simp: nm_inv_def data_ok_def st' split: if_splits)
  ultimately show ?thesis using inv' w unfolding st' nm_inv_def data_set_def by auto
qed

subsection \<open>Destroying a context\<close>

lemma destroy_ok:
  assumes inv: "nm_inv st" and h: "workers st h = Some w"
  shows "\<exists>m. nm_capi_destroy_ctx (Some h) st = Some (st\<lparr>nm_os := m, workers := (workers st)(h := None)\<rparr>)
    \<and> blocks m = (blocks (nm_os st)) |` (- worker_set h w) \<and> os_next m = os_next (nm_os st)
    \<and> (\<forall>i. i \<notin> worker_set h w \<longrightarrow> mmapLengths m i = mmapLengths (nm_os st) i)"
proof -
  let ?m = "nm_os st" and ?c = "w_ctx w"
  have ok: "worker_ok ?m h w" using nm_inv_worker(1) [OF inv h] .
  obtain s p t where ptr: "c_scratch ?c = Some s" "c_prog ?c = Some p" "c_taken ?c = Some t" "buf_ptr (w_scratch w) = Some s"
    using ok by (auto simp: worker_ok_def holds_def buffer_ok_def Let_def)
  have d: "distinct [h, s, p, t]" using ok ptr by (auto simp: worker_ok_def Let_def)
  have hold: "holds ?m (Some h) False (sizeof_Worker div 8)" "holds ?m (Some p) False NM_PROG_MAX"
    "holds ?m (Some t) False (NM_PROG_MAX div 8)" "holds ?m (Some s) (buf_huge (w_scratch w)) NM_SCRATCH_WORDS"
    using ok ptr by (auto simp: worker_ok_def buffer_ok_def Let_def)
  have own: "\<not> c_owns_dataset ?c" using ok by (simp add: worker_ok_def Let_def)
  define m2 where "m2 = ?m\<lparr>blocks := (blocks ?m)(p := None, t := None)\<rparr>"
  have free: "nm_ctx_free (?c\<lparr>c_dataset := None, c_dataset_valid := False, c_scratch := None, c_owns_scratch := False\<rparr>) ?m
      = Some (zero_ctx, m2)"
    using ptr own hold d by (simp add: nm_ctx_free_def os_free_holds holds_other m2_def)
  define L where "L = (if buf_huge (w_scratch w) then (mmapLengths ?m)(s := None) else mmapLengths ?m)"
  have hold2: "holds m2 (Some s) (buf_huge (w_scratch w)) NM_SCRATCH_WORDS" using hold d by (simp add: m2_def holds_other)
  have buf: "free_buffer (w_scratch w) m2 = Some (m2\<lparr>blocks := (blocks m2)(s := None), mmapLengths := L\<rparr>)"
  proof (cases "buf_huge (w_scratch w)")
    case True
    then obtain len where len: "mmapLengths ?m s = Some len" "0 < len"
      using ok ptr by (auto simp: worker_ok_def buffer_ok_def shape_def Let_def)
    then have "os_free True (Some s) (m2\<lparr>mmapLengths := L\<rparr>) = Some (m2\<lparr>blocks := (blocks m2)(s := None), mmapLengths := L\<rparr>)"
      using hold2 True by (auto simp: os_free_def holds_def shape_def)
    then show ?thesis using True ptr len by (simp add: free_buffer_def freeLargePagesMemory_def L_def m2_def Let_def)
  next
    case False
    then show ?thesis using ptr hold2 by (simp add: free_buffer_def os_free_holds L_def m2_def)
  qed
  define m4 where "m4 = ?m\<lparr>blocks := (blocks ?m)(p := None, t := None, s := None, h := None), mmapLengths := L\<rparr>"
  obtain bh where "blocks ?m h = Some bh" "\<not> b_mapped bh" using hold(1) by (auto simp: holds_def shape_def)
  then have "os_free False (Some h) (m2\<lparr>blocks := (blocks m2)(s := None), mmapLengths := L\<rparr>) = Some m4"
    using d by (simp add: os_free_def m2_def m4_def)
  then have "nm_capi_destroy_ctx (Some h) st = Some (st\<lparr>nm_os := m4, workers := (workers st)(h := None)\<rparr>)"
    using h free buf by (simp add: nm_capi_destroy_ctx_def Let_def)
  moreover have "worker_set h w = {h, s, p, t}" using ptr by (auto simp: worker_set_def)
  moreover have "blocks m4 = (blocks ?m) |` (- {h, s, p, t})" by (auto simp: m4_def restrict_map_def)
  ultimately show ?thesis by (auto simp: m4_def L_def)
qed

lemma destroy_inv:
  assumes inv: "nm_inv st" and h: "workers st h = Some w" and ds: "nm_capi_destroy_ctx (Some h) st = Some st'"
  shows "nm_inv st'"
proof -
  obtain m where st': "st' = st\<lparr>nm_os := m, workers := (workers st)(h := None)\<rparr>"
    and m: "blocks m = (blocks (nm_os st)) |` (- worker_set h w)" "os_next m = os_next (nm_os st)"
      "\<And>i. i \<notin> worker_set h w \<Longrightarrow> mmapLengths m i = mmapLengths (nm_os st) i"
    using destroy_ok [OF inv h] ds by auto
  have sh: "shape m i = shape (nm_os st) i" and bl: "blocks m i = blocks (nm_os st) i" if "i \<notin> worker_set h w" for i
    using that m by (simp_all add: shape_def)
  have dj: "worker_set h w \<inter> data_set st = {}" using nm_inv_worker(2) [OF inv h] .
  have "worker_ok m h' w'" if "workers st h' = Some w'" "h' \<noteq> h" for h' w'
  proof (rule worker_frame)
    have "worker_set h' w' \<inter> worker_set h w = {}" using inv h that by (auto simp: nm_inv_def)
    then show "\<forall>i \<in> worker_set h' w'. shape m i = shape (nm_os st) i" using sh by blast
    show "worker_ok (nm_os st) h' w'" using nm_inv_worker(1) [OF inv that(1)] .
  qed
  moreover have "data_ok st'"
  proof (cases "buf_ptr (g_datasetBuf st)")
    case None
    then show ?thesis using inv by (simp add: nm_inv_def data_ok_def st')
  next
    case (Some i)
    then have i: "i \<notin> worker_set h w" using dj by (auto simp: data_set_def)
    then have "buffer_ok m (g_datasetBuf st) NM_DATASET_WORDS" if "buffer_ok (nm_os st) (g_datasetBuf st) NM_DATASET_WORDS"
      using Some sh by (intro buffer_frame [OF _ that]) simp
    then show ?thesis using inv Some bl [OF i] by (simp add: nm_inv_def data_ok_def st' words_at_def)
  qed
  moreover have "bounded m" using inv m by (simp add: nm_inv_def bounded_def restrict_map_def)
  ultimately show ?thesis using inv unfolding st' nm_inv_def data_set_def by (auto split: if_splits)
qed

end
