(* ===== verification/Nm_Capi.thy ===== *)
theory Nm_Capi
  imports Nm_Ctx
begin

text \<open>
  The guarantees of the NeuroMorph interface: the shared dataset is the one of the last seed, a
  seeded context computes the digest of its seed whatever other contexts do in between, nothing is
  used after it was released, and which failures leave blocks behind.
\<close>

subsection \<open>The dataset\<close>

lemma shape_None: "shape m' i = shape m i \<Longrightarrow> blocks m' i = None \<longleftrightarrow> blocks m i = None"
  by (auto simp: shape_def)

lemma nm_inv_shape:
  assumes inv: "nm_inv st" and sh: "\<And>i. shape m i = shape (nm_os st) i" "os_next m = os_next (nm_os st)"
    and st': "nm_os st' = m" "workers st' = workers st" "g_datasetBuf st' = g_datasetBuf st"
    and words: "g_datasetValid st' \<Longrightarrow> words_at m (buf_ptr (g_datasetBuf st)) = Some (dataset_words (g_datasetKey st'))"
  shows "nm_inv st'"
proof -
  have "worker_ok m h w" if "worker_ok (nm_os st) h w" for h w
    by (rule worker_frame [OF _ that]) (simp add: sh)
  moreover have "buffer_ok m b n" if "buffer_ok (nm_os st) b n" for b n
    by (rule buffer_frame [OF _ that]) (simp add: sh)
  moreover have "bounded m" using inv sh(2) shape_None [OF sh(1)] by (simp add: nm_inv_def bounded_def)
  ultimately show ?thesis
    using inv st' words by (auto simp: nm_inv_def data_ok_def data_set_def words_at_def split: if_splits)
qed

lemma build_at_ok:
  assumes "buffer_ok m b NM_DATASET_WORDS" and "buf_ptr b = Some i"
  shows "\<exists>m'. build_at (Some i) key m = Some m' \<and> (\<forall>j. shape m' j = shape m j) \<and> os_next m' = os_next m
    \<and> (\<forall>j. j \<noteq> i \<longrightarrow> blocks m' j = blocks m j) \<and> words_at m' (Some i) = Some (dataset_words key)"
proof -
  obtain bl where bl: "blocks m i = Some bl" "length (b_words bl) = NM_DATASET_WORDS"
    using assms by (auto simp: buffer_ok_def holds_def shape_def)
  have "build_at (Some i) key m = Some (m\<lparr>blocks := (blocks m)(i \<mapsto> bl\<lparr>b_words := dataset_words key\<rparr>)\<rparr>)"
    using bl by (simp add: build_at_def build_dataset_words)
  then show ?thesis using bl by (simp add: shape_def words_at_def)
qed

lemma dataset_buffer_inv:
  assumes inv: "nm_inv st" and al: "al_ok al" and ptr: "buf_ptr (g_datasetBuf st) = None"
    and ab: "alloc_buffer al NM_DATASET_BYTES (nm_os st) = (b, m)"
    and st': "nm_os st' = m" "workers st' = workers st" "g_datasetBuf st' = b" "\<not> g_datasetValid st'"
  shows "nm_inv st'"
proof -
  have b: "bounded (nm_os st)" and d: "data_ok st" using inv by (simp_all add: nm_inv_def)
  have ext: "ext (nm_os st) m" using alloc_buffer_ext [OF b, of al NM_DATASET_BYTES] ab by simp
  have w: "worker_ok m h w" "worker_set h w \<inter> data_set st' = {}" if "workers st h = Some w" for h w
  proof -
    note ok = nm_inv_worker(1) [OF inv that]
    show "worker_ok m h w"
      using worker_bound [OF ok b] by (intro worker_frame [OF _ ok]) (simp add: ext_shape [OF ext])
    have "0 < NM_DATASET_BYTES" "kHugePageSize dvd NM_DATASET_BYTES" by (simp_all add: NM_DATASET_BYTES_def kHugePageSize_def)
    then have "os_next (nm_os st) \<le> i" if "buf_ptr b = Some i" for i
      using alloc_buffer_ok(2) [OF al _ _ ab that] by simp
    then show "worker_set h w \<inter> data_set st' = {}"
      using worker_bound [OF ok b] st' by (fastforce simp: data_set_def)
  qed
  have "NM_DATASET_BYTES div 8 = NM_DATASET_WORDS" "0 < NM_DATASET_BYTES" "kHugePageSize dvd NM_DATASET_BYTES"
    by (simp_all add: NM_DATASET_BYTES_def NM_DATASET_WORDS_def kHugePageSize_def)
  then have "data_ok st'" using alloc_buffer_ok(1) [OF al _ _ ab] st' by (auto simp: data_ok_def)
  then show ?thesis using inv w st' ext_bounded [OF ext] by (auto simp: nm_inv_def)
qed

lemma refresh_dataset_ok:
  assumes inv: "nm_inv st" and ptr: "buf_ptr (g_datasetBuf st) = Some i"
  shows "\<exists>m' st'. refresh_dataset key st = Some (Some i, st')
    \<and> nm_inv st' \<and> st' = st\<lparr>nm_os := m', g_datasetKey := key, g_datasetValid := True\<rparr>
    \<and> dom (blocks m') = dom (blocks (nm_os st))"
proof (cases "\<not> g_datasetValid st \<or> g_datasetKey st \<noteq> key")
  case True
  have "buffer_ok (nm_os st) (g_datasetBuf st) NM_DATASET_WORDS" using inv ptr by (simp add: nm_inv_def data_ok_def)
  then obtain m' where m': "build_at (Some i) key (nm_os st) = Some m'" "\<And>j. shape m' j = shape (nm_os st) j"
    "os_next m' = os_next (nm_os st)" "words_at m' (Some i) = Some (dataset_words key)"
    using build_at_ok [OF _ ptr] by blast
  then have "nm_inv (st\<lparr>nm_os := m', g_datasetKey := key, g_datasetValid := True\<rparr>)"
    using ptr by (intro nm_inv_shape [OF inv m'(2,3)]) simp_all
  moreover have "dom (blocks m') = dom (blocks (nm_os st))" using shape_None [OF m'(2)] by (simp add: dom_def)
  ultimately show ?thesis using True m' ptr by (auto simp: refresh_dataset_def Let_def)
next
  case False
  then have "st = st\<lparr>nm_os := nm_os st, g_datasetKey := key, g_datasetValid := True\<rparr>" by simp
  then show ?thesis using False inv ptr
    by (intro exI [of _ "nm_os st"] exI [of _ st]) (simp add: refresh_dataset_def Let_def)
qed

lemma ensure_dataset_ok:
  assumes inv: "nm_inv st" and al: "al_ok al"
  shows "nm_inv (ensure_dataset al st)" "workers (ensure_dataset al st) = workers st"
    "dom (blocks (nm_os (ensure_dataset al st))) - data_set (ensure_dataset al st) = dom (blocks (nm_os st)) - data_set st"
    "buf_ptr (g_datasetBuf st) \<noteq> None \<Longrightarrow> ensure_dataset al st = st"
proof -
  obtain b m where ab: "alloc_buffer al NM_DATASET_BYTES (nm_os st) = (b, m)" by fastforce
  have "\<not> g_datasetValid st" if "buf_ptr (g_datasetBuf st) = None" using inv that by (simp add: nm_inv_def data_ok_def)
  then show "nm_inv (ensure_dataset al st)"
    using inv by (cases "buf_ptr (g_datasetBuf st)")
      (auto intro!: dataset_buffer_inv [OF inv al _ ab] simp: ensure_dataset_def ab)
  show "workers (ensure_dataset al st) = workers st" by (simp add: ensure_dataset_def ab)
  have "i \<notin> dom (blocks (nm_os st))" if "buf_ptr b = Some i" for i
  proof -
    have "0 < NM_DATASET_BYTES" "kHugePageSize dvd NM_DATASET_BYTES" by (simp_all add: NM_DATASET_BYTES_def kHugePageSize_def)
    then have "os_next (nm_os st) \<le> i" using alloc_buffer_ok(2) [OF al _ _ ab that] by simp
    then show ?thesis using inv by (auto simp: nm_inv_def bounded_def)
  qed
  then show "dom (blocks (nm_os (ensure_dataset al st))) - data_set (ensure_dataset al st) = dom (blocks (nm_os st)) - data_set st"
    using alloc_buffer_dom [OF ab] by (cases "buf_ptr b") (auto simp: ensure_dataset_def ab data_set_def)
  show "buf_ptr (g_datasetBuf st) \<noteq> None \<Longrightarrow> ensure_dataset al st = st" by (auto simp: ensure_dataset_def)
qed

text \<open>What \<^verbatim>\<open>shared_dataset\<close> returns, and what it leaves alone.\<close>

lemma shared_dataset_ok:
  assumes inv: "nm_inv st" and al: "al_ok al"
  shows "\<exists>p st'. shared_dataset al key st = Some (p, st') \<and> nm_inv st' \<and> workers st' = workers st
    \<and> p = buf_ptr (g_datasetBuf st') \<and> (p \<noteq> None \<longrightarrow> g_datasetValid st' \<and> g_datasetKey st' = key)
    \<and> dom (blocks (nm_os st')) - data_set st' = dom (blocks (nm_os st)) - data_set st
    \<and> (buf_ptr (g_datasetBuf st) \<noteq> None \<longrightarrow> g_datasetBuf st' = g_datasetBuf st)"
proof -
  define s1 where "s1 = ensure_dataset al st"
  note s1 = ensure_dataset_ok [OF inv al, folded s1_def]
  show ?thesis
  proof (cases "buf_ptr (g_datasetBuf s1)")
    case None
    then have "shared_dataset al key st = Some (None, s1)" by (simp add: shared_dataset_def s1_def refresh_dataset_def)
    then show ?thesis using s1 None by auto
  next
    case (Some i)
    obtain m' st' where b: "refresh_dataset key s1 = Some (Some i, st')" "nm_inv st'"
      "st' = s1\<lparr>nm_os := m', g_datasetKey := key, g_datasetValid := True\<rparr>" "dom (blocks m') = dom (blocks (nm_os s1))"
      using refresh_dataset_ok [OF s1(1) Some] by blast
    then show ?thesis using Some s1 by (auto simp: shared_dataset_def s1_def [symmetric] data_set_def)
  qed
qed

subsection \<open>Seeding and hashing\<close>

text \<open>A context is seeded when its parameters and the shared dataset are those of the seed.\<close>

definition seeded :: "nm_state \<Rightarrow> nat \<Rightarrow> u8 list \<Rightarrow> bool" where
  "seeded st h seed \<longleftrightarrow> (\<exists>w. workers st h = Some w \<and> (let p = nm_derive_params seed; c = w_ctx w in
     c_params c = p \<and> c_aes c = nm_aes128_expand (aes_key p) \<and> c_dataset c = buf_ptr (g_datasetBuf st)
     \<and> buf_ptr (g_datasetBuf st) \<noteq> None \<and> g_datasetValid st \<and> g_datasetKey st = dataset_key p))"

definition nm_digest :: "u8 list \<Rightarrow> u8 list \<Rightarrow> u64 \<Rightarrow> u8 list" where
  "nm_digest seed header height =
     (let p = nm_derive_params seed
      in fst (the (nm_hash_run 0 (\<lambda>_. 0) p (nm_aes128_expand (aes_key p)) (replicate NM_SCRATCH_WORDS 0)
                     (Some (dataset_words (dataset_key p))) header height)))"

lemma worker_upd_inv:
  assumes inv: "nm_inv st" and h: "workers st h = Some w"
    and st': "nm_os st' = nm_os st" "workers st' = (workers st)(h \<mapsto> w\<lparr>w_ctx := c\<rparr>)" "g_datasetBuf st' = g_datasetBuf st"
      "g_datasetValid st' = g_datasetValid st" "g_datasetKey st' = g_datasetKey st"
    and c: "c_scratch c = c_scratch (w_ctx w)" "c_prog c = c_prog (w_ctx w)" "c_taken c = c_taken (w_ctx w)"
      "c_owns_scratch c = c_owns_scratch (w_ctx w)" "c_owns_dataset c = c_owns_dataset (w_ctx w)"
  shows "nm_inv st'"
proof -
  have ws: "worker_set h (w\<lparr>w_ctx := c\<rparr>) = worker_set h w" using c by (simp add: worker_set_def)
  have "worker_ok (nm_os st) h (w\<lparr>w_ctx := c\<rparr>)" using nm_inv_worker(1) [OF inv h] c by (auto simp: worker_ok_def Let_def)
  then show ?thesis using inv h st' ws unfolding nm_inv_def data_ok_def data_set_def by (auto split: if_splits)
qed

lemma set_seed_ok:
  assumes inv: "nm_inv st" and al: "al_ok al" and h: "workers st h = Some w"
  shows "\<exists>rc st'. nm_capi_set_seed al h seed st = Some (rc, st') \<and> nm_inv st' \<and> rc \<in> {0, -1}
    \<and> dom (workers st') = dom (workers st) \<and> (rc = 0 \<longrightarrow> seeded st' h seed)
    \<and> (\<forall>h'. h' \<noteq> h \<longrightarrow> workers st' h' = workers st h')
    \<and> (buf_ptr (g_datasetBuf st) \<noteq> None \<longrightarrow> g_datasetBuf st' = g_datasetBuf st \<and> rc = 0)
    \<and> leaked st' = leaked st"
proof -
  let ?c = "nm_ctx_set_params (w_ctx w) seed" and ?k = "dataset_key (nm_derive_params seed)"
  define s1 where "s1 = st\<lparr>workers := (workers st)(h \<mapsto> w\<lparr>w_ctx := ?c\<rparr>), g_error := []\<rparr>"
  have c: "c_params ?c = nm_derive_params seed" "c_aes ?c = nm_aes128_expand (aes_key (nm_derive_params seed))"
    by (simp_all add: nm_ctx_set_params_def Let_def)
  have s1: "nm_inv s1"
    by (rule worker_upd_inv [OF inv h, of _ ?c]) (simp_all add: s1_def nm_ctx_set_params_def Let_def)
  obtain p s2 where s2: "shared_dataset al ?k s1 = Some (p, s2)" "nm_inv s2" "workers s2 = workers s1"
    "p = buf_ptr (g_datasetBuf s2)" "p \<noteq> None \<longrightarrow> g_datasetValid s2 \<and> g_datasetKey s2 = ?k"
    "dom (blocks (nm_os s2)) - data_set s2 = dom (blocks (nm_os s1)) - data_set s1"
    "buf_ptr (g_datasetBuf s1) \<noteq> None \<longrightarrow> g_datasetBuf s2 = g_datasetBuf s1"
    using shared_dataset_ok [OF s1 al] by blast
  define st' where "st' = (if p = None then s2\<lparr>g_error := ''out of memory allocating the 64 MiB NeuroMorph dataset''\<rparr>
      else s2\<lparr>workers := (workers s2)(h \<mapsto> w\<lparr>w_ctx := nm_ctx_attach_dataset ?c p ?k\<rparr>)\<rparr>)"
  have run: "nm_capi_set_seed al h seed st = Some (if p = None then -1 else 0, st')"
    using h s2(1) by (simp add: nm_capi_set_seed_def c Let_def s1_def st'_def)
  have h2: "workers s2 h = Some (w\<lparr>w_ctx := ?c\<rparr>)" using s2(3) by (simp add: s1_def)
  have inv': "nm_inv st'"
  proof (cases p)
    case None
    then show ?thesis using s2(2) by (auto simp: st'_def nm_inv_def data_ok_def data_set_def split: if_splits)
  next
    case (Some i)
    show ?thesis
      by (rule worker_upd_inv [OF s2(2) h2, of _ "nm_ctx_attach_dataset ?c p ?k"])
        (use Some in \<open>simp_all add: st'_def nm_ctx_attach_dataset_def\<close>)
  qed
  have seeded: "seeded st' h seed" if "p \<noteq> None"
    using that s2(4,5) c by (auto simp: seeded_def st'_def nm_ctx_attach_dataset_def Let_def)
  have "leaked st' = leaked st"
  proof -
    have "worker_set h (w\<lparr>w_ctx := ?c\<rparr>) = worker_set h w" "worker_set h (w\<lparr>w_ctx := nm_ctx_attach_dataset ?c p ?k\<rparr>) = worker_set h w"
      by (simp_all add: worker_set_def nm_ctx_set_params_def nm_ctx_attach_dataset_def Let_def)
    then have "\<Union> {worker_set h w | h w. workers st' h = Some w} = \<Union> {worker_set h w | h w. workers st h = Some w}"
      using h s2(3) by (intro worker_union_eq) (auto simp: st'_def s1_def)
    moreover have "data_set st' = data_set s2" "nm_os st' = nm_os s2" "data_set s1 = data_set st" "nm_os s1 = nm_os st"
      by (simp_all add: st'_def s1_def data_set_def)
    moreover have "A - (B \<union> C) = A - B - C" for A B C :: "nat set" by blast
    ultimately show ?thesis using s2(6) by (simp only: leaked_def owned_def)
  qed
  then show ?thesis
    using run inv' seeded s2 h by (auto simp: st'_def s1_def)
qed

lemma hash_ok:
  assumes inv: "nm_inv st" and sd: "seeded st h seed" and seed: "length seed = 32" and hd: "NM_HEADER_LEN \<le> length header"
  shows "\<exists>m. nm_capi_hash q stk h header height st = Some (nm_digest seed header height, st\<lparr>nm_os := m\<rparr>)
    \<and> nm_inv (st\<lparr>nm_os := m\<rparr>) \<and> leaked (st\<lparr>nm_os := m\<rparr>) = leaked st"
proof -
  let ?p = "nm_derive_params seed"
  obtain w where w: "workers st h = Some w" "c_params (w_ctx w) = ?p" "c_aes (w_ctx w) = nm_aes128_expand (aes_key ?p)"
    and ds: "c_dataset (w_ctx w) = buf_ptr (g_datasetBuf st)" "buf_ptr (g_datasetBuf st) \<noteq> None"
      "g_datasetValid st" "g_datasetKey st = dataset_key ?p"
    using sd unfolding seeded_def Let_def by blast
  have ok: "worker_ok (nm_os st) h w" using nm_inv_worker(1) [OF inv w(1)] .
  then obtain i b where i: "c_scratch (w_ctx w) = Some i" "blocks (nm_os st) i = Some b" "length (b_words b) = NM_SCRATCH_WORDS"
    by (auto simp: worker_ok_def buffer_ok_def holds_def shape_def Let_def)
  obtain pw tw where pt: "words_at (nm_os st) (c_prog (w_ctx w)) = Some pw" "words_at (nm_os st) (c_taken (w_ctx w)) = Some tw"
    using ok by (auto simp: worker_ok_def words_at_def holds_def shape_def Let_def)
  have words: "words_at (nm_os st) (buf_ptr (g_datasetBuf st)) = Some (dataset_words (dataset_key ?p))"
    using inv ds by (simp add: nm_inv_def data_ok_def)
  have "hash_input_ok ?p (replicate NM_SCRATCH_WORDS 0) (Some (dataset_words (dataset_key ?p))) header height"
    using derive_params_ok [OF seed] hd by (simp add: hash_input_ok_def)
  from nm_hash_run_agree [OF this i(3), of 0 "\<lambda>_. 0" "nm_aes128_expand (aes_key ?p)" q stk]
  obtain dg sc where run: "nm_hash_run 0 (\<lambda>_. 0) ?p (nm_aes128_expand (aes_key ?p)) (replicate NM_SCRATCH_WORDS 0)
        (Some (dataset_words (dataset_key ?p))) header height = Some (dg, sc)"
      "nm_hash_run q stk ?p (nm_aes128_expand (aes_key ?p)) (b_words b) (Some (dataset_words (dataset_key ?p))) header height = Some (dg, sc)"
      "length sc = NM_SCRATCH_WORDS"
    by (auto simp: agree_def)
  define m where "m = (nm_os st)\<lparr>blocks := (blocks (nm_os st))(i \<mapsto> b\<lparr>b_words := sc\<rparr>)\<rparr>"
  have sh: "shape m j = shape (nm_os st) j" for j using i run(3) by (simp add: m_def shape_def)
  have "i \<notin> data_set st" using nm_inv_worker(2) [OF inv w(1)] i(1) by (auto simp: worker_set_def)
  then have "words_at m (buf_ptr (g_datasetBuf st)) = words_at (nm_os st) (buf_ptr (g_datasetBuf st))"
    by (auto simp: words_at_def m_def data_set_def Option.bind_eq_Some_conv split: Option.bind_split)
  then have "nm_inv (st\<lparr>nm_os := m\<rparr>)"
    using words ds by (intro nm_inv_shape [OF inv sh]) (simp_all add: m_def)
  moreover have "nm_capi_hash q stk h header height st = Some (nm_digest seed header height, st\<lparr>nm_os := m\<rparr>)"
    using w ds i pt words run by (simp add: nm_capi_hash_def nm_hash_def nm_digest_def m_def Let_def)
  moreover have "leaked (st\<lparr>nm_os := m\<rparr>) = leaked st"
    using i by (auto simp: leaked_def owned_def data_set_def m_def)
  ultimately show ?thesis by blast
qed

lemma seeded_os [simp]: "seeded (st\<lparr>nm_os := m\<rparr>) h seed = seeded st h seed"
  by (simp add: seeded_def)

lemma create_seeded:
  assumes inv: "nm_inv st" and ok: "create_ok st (p, st')" and sd: "seeded st h seed"
  shows "seeded st' h seed"
proof (cases p)
  case None
  then show ?thesis using ok sd by (auto simp: create_ok_def seeded_def)
next
  case (Some h')
  obtain w where w: "workers st h = Some w" using sd by (auto simp: seeded_def)
  have "h < os_next (nm_os st)"
    using worker_bound [OF nm_inv_worker(1) [OF inv w]] inv by (simp add: nm_inv_def worker_set_def)
  moreover have "os_next (nm_os st) \<le> h'" using ok Some by (auto simp: create_ok_def worker_set_def)
  ultimately show ?thesis using ok sd Some by (auto simp: create_ok_def seeded_def)
qed

lemma destroy_seeded:
  assumes "nm_inv st" "workers st h' = Some w" "nm_capi_destroy_ctx (Some h') st = Some st'" "h \<noteq> h'" "seeded st h seed"
  shows "seeded st' h seed"
  using destroy_ok [OF assms(1,2)] assms(3-5) by (auto simp: seeded_def)

lemma set_seed_seeded:
  assumes inv: "nm_inv st" and al: "al_ok al" and w: "workers st h' = Some w"
    and ss: "nm_capi_set_seed al h' seed st = Some (rc, st')" and sd: "seeded st h seed"
  shows "seeded st' h seed"
proof -
  have ptr: "buf_ptr (g_datasetBuf st) \<noteq> None" using sd by (auto simp: seeded_def Let_def)
  then have st': "seeded st' h' seed" "g_datasetBuf st' = g_datasetBuf st" "\<And>k. k \<noteq> h' \<Longrightarrow> workers st' k = workers st k"
    using set_seed_ok [OF inv al w, of seed] ss by auto
  then show ?thesis using sd by (cases "h = h'") (auto simp: seeded_def Let_def)
qed

subsection \<open>Sequences of calls\<close>

text \<open>
  The calls a host makes, in any order: a handle it passes is one it has and, for a hash, one that
  is seeded; seeds have 32 bytes and headers their full length.
\<close>

datatype nm_call = Create | Destroy nat | SetSeed nat "u8 list" | HashOne nat "u8 list" u64

inductive nm_step :: "u64 \<Rightarrow> allocator \<Rightarrow> nm_state \<Rightarrow> nm_call \<Rightarrow> nm_state \<Rightarrow> bool" for q al where
  create: "nm_capi_create_ctx al st = Some (p, st') \<Longrightarrow> nm_step q al st Create st'"
| destroy: "workers st h \<noteq> None \<Longrightarrow> nm_capi_destroy_ctx (Some h) st = Some st' \<Longrightarrow> nm_step q al st (Destroy h) st'"
| set_seed: "workers st h \<noteq> None \<Longrightarrow> length seed = 32 \<Longrightarrow> nm_capi_set_seed al h seed st = Some (rc, st')
    \<Longrightarrow> nm_step q al st (SetSeed h seed) st'"
| hash: "seeded st h seed \<Longrightarrow> length seed = 32 \<Longrightarrow> NM_HEADER_LEN \<le> length header
    \<Longrightarrow> nm_capi_hash q stk h header height st = Some (digest, st') \<Longrightarrow> nm_step q al st (HashOne h header height) st'"

inductive nm_run :: "u64 \<Rightarrow> allocator \<Rightarrow> nm_state \<Rightarrow> nm_call list \<Rightarrow> nm_state \<Rightarrow> bool" for q al where
  stop: "nm_run q al st [] st"
| more: "nm_step q al st c st' \<Longrightarrow> nm_run q al st' cs st'' \<Longrightarrow> nm_run q al st (c # cs) st''"

inductive_cases nm_stepE: "nm_step q al st c st'"
inductive_cases nm_runE: "nm_run q al st (c # cs) st'"

text \<open>Calls after which context \<open>h\<close> is still seeded: those that seed with the same seed, and none that destroys \<open>h\<close>.\<close>

fun keeps :: "nat \<Rightarrow> u8 list \<Rightarrow> nm_call \<Rightarrow> bool" where
  "keeps h seed (Destroy h') \<longleftrightarrow> h' \<noteq> h"
| "keeps h seed (SetSeed h' seed') \<longleftrightarrow> seed' = seed"
| "keeps h seed _ \<longleftrightarrow> True"

lemma nm_step_inv:
  assumes "al_ok al" and "nm_inv st" and "nm_step q al st c st'"
  shows "nm_inv st'" and "keeps h seed c \<Longrightarrow> seeded st h seed \<Longrightarrow> seeded st' h seed"
proof -
  have b: "bounded (nm_os st)" using assms(2) by (simp add: nm_inv_def)
  show "nm_inv st'" using assms(3)
  proof cases
    case (create p)
    then show ?thesis using create_ctx_ok [OF assms(1) b] create_inv [OF assms(2)] by auto
  next
    case (destroy h)
    then show ?thesis using destroy_inv [OF assms(2)] by blast
  next
    case (set_seed h seed rc)
    then obtain w where "workers st h = Some w" by blast
    then show ?thesis using set_seed_ok [OF assms(2,1), of h w seed] set_seed by auto
  next
    case (hash h seed header stk height digest)
    then show ?thesis using hash_ok [OF assms(2) hash(2-4), of q stk height] by auto
  qed
  show "seeded st' h seed" if k: "keeps h seed c" and sd: "seeded st h seed" using assms(3)
  proof cases
    case (create p)
    then show ?thesis using create_ctx_ok [OF assms(1) b] create_seeded [OF assms(2) _ sd] by auto
  next
    case (destroy h')
    then show ?thesis using destroy_seeded [OF assms(2) _ _ _ sd] k by auto
  next
    case (set_seed h' seed' rc)
    then show ?thesis using set_seed_seeded [OF assms(2,1) _ _ sd] k by auto
  next
    case (hash h' seed' header stk height digest)
    then obtain m where "st' = st\<lparr>nm_os := m\<rparr>" using hash_ok [OF assms(2) hash(2-4), of q stk height] by auto
    then show ?thesis using sd by simp
  qed
qed

lemma nm_run_inv:
  assumes "nm_run q al st cs st'" and "al_ok al" and "nm_inv st"
  shows "nm_inv st'" and "list_all (keeps h seed) cs \<Longrightarrow> seeded st h seed \<Longrightarrow> seeded st' h seed"
  using assms by (induction rule: nm_run.induct) (auto dest: nm_step_inv)

subsection \<open>Leaks\<close>

lemma worker_union_iff: "x \<in> \<Union> {worker_set h w | h w. W h = Some w} \<longleftrightarrow> (\<exists>h w. W h = Some w \<and> x \<in> worker_set h w)"
  by auto

lemma worker_union_upd:
  assumes "W h = None"
  shows "\<Union> {worker_set h' w' | h' w'. (W(h \<mapsto> w)) h' = Some w'} = worker_set h w \<union> \<Union> {worker_set h' w' | h' w'. W h' = Some w'}"
proof (rule set_eqI)
  fix x
  have "(\<exists>h' w'. (W(h \<mapsto> w)) h' = Some w' \<and> x \<in> worker_set h' w')
      \<longleftrightarrow> x \<in> worker_set h w \<or> (\<exists>h' w'. W h' = Some w' \<and> x \<in> worker_set h' w')"
    using assms by (metis fun_upd_apply option.distinct(1) option.inject)
  then show "x \<in> \<Union> {worker_set h' w' | h' w'. (W(h \<mapsto> w)) h' = Some w'} \<longleftrightarrow>
      x \<in> worker_set h w \<union> \<Union> {worker_set h' w' | h' w'. W h' = Some w'}"
    by (simp only: Un_iff worker_union_iff)
qed

lemma create_leaked:
  assumes inv: "nm_inv st" and ok: "create_ok st (Some h, st')"
  shows "leaked st' = leaked st"
proof -
  obtain m w e where st': "st' = st\<lparr>nm_os := m, workers := (workers st)(h \<mapsto> w), g_error := e\<rparr>"
    and fresh: "\<forall>i \<in> worker_set h w. os_next (nm_os st) \<le> i" and dom: "dom (blocks m) = dom (blocks (nm_os st)) \<union> worker_set h w"
    using ok by (auto simp: create_ok_def)
  have new: "i \<notin> worker_set h w" if "i < os_next (nm_os st)" for i using fresh that by force
  have b: "bounded (nm_os st)" using inv by (simp add: nm_inv_def)
  have "workers st h = None"
  proof (rule ccontr)
    assume "workers st h \<noteq> None"
    then obtain w' where "workers st h = Some w'" by blast
    then have "h < os_next (nm_os st)" using worker_bound [OF nm_inv_worker(1) [OF inv] b] by (simp add: worker_set_def)
    then show False using new [of h] by (simp add: worker_set_def)
  qed
  then have "\<Union> {worker_set h w | h w. workers st' h = Some w} = worker_set h w \<union> \<Union> {worker_set h w | h w. workers st h = Some w}"
    using worker_union_upd [of "workers st" h w] by (simp add: st')
  moreover have "dom (blocks (nm_os st)) \<inter> worker_set h w = {}" using b fresh by (auto simp: bounded_def)
  moreover have "(D \<union> S) - (G \<union> (S \<union> U)) = D - (G \<union> U)" if "D \<inter> S = {}" for D S G U :: "nat set" using that by blast
  moreover have "data_set st' = data_set st" "nm_os st' = m" by (simp_all add: st' data_set_def)
  ultimately show ?thesis unfolding leaked_def owned_def by (simp only: dom)
qed

lemma destroy_leaked:
  assumes inv: "nm_inv st" and h: "workers st h = Some w" and ds: "nm_capi_destroy_ctx (Some h) st = Some st'"
  shows "leaked st' = leaked st"
proof -
  obtain m where st': "st' = st\<lparr>nm_os := m, workers := (workers st)(h := None)\<rparr>"
    and m: "blocks m = (blocks (nm_os st)) |` (- worker_set h w)" using destroy_ok [OF inv h] ds by auto
  have "\<Union> {worker_set h w | h w. workers st h = Some w} = worker_set h w \<union> \<Union> {worker_set h w | h w. workers st' h = Some w}"
    using worker_union_upd [of "(workers st)(h := None)" h w] h by (simp add: st' fun_upd_idem)
  moreover have "worker_set h w \<inter> \<Union> {worker_set h w | h w. workers st' h = Some w} = {}"
  proof -
    have "worker_set h w \<inter> worker_set h' w' = {}" if "workers st h' = Some w'" "h' \<noteq> h" for h' w'
      using inv h that unfolding nm_inv_def by blast
    then show ?thesis unfolding st' by (auto split: if_splits)
  qed
  moreover have "worker_set h w \<inter> data_set st = {}" using nm_inv_worker(2) [OF inv h] .
  moreover have "D \<inter> - S - (G \<union> U) = D - (G \<union> (S \<union> U))" if "S \<inter> U = {}" "S \<inter> G = {}" for D S G U :: "nat set" using that by blast
  moreover have "data_set st' = data_set st" "dom (blocks (nm_os st')) = dom (blocks (nm_os st)) \<inter> - worker_set h w"
    by (auto simp: st' data_set_def m restrict_map_def split: if_splits)
  ultimately show ?thesis unfolding leaked_def owned_def by (simp only:)
qed

text \<open>When the C heap never runs out, creation and seeding succeed; large pages may still be missing.\<close>

definition heap_ok :: "allocator \<Rightarrow> bool" where
  "heap_ok al \<longleftrightarrow> (\<forall>sz i. al False sz i \<noteq> None)"

lemma os_alloc_heap:
  assumes "heap_ok al"
  obtains m' where "os_alloc al False sz m = (Some (os_next m), m')"
proof -
  obtain ws where "al False sz (os_next m) = Some ws" using assms by (auto simp: heap_ok_def)
  then show thesis using that by (simp add: os_alloc_def Let_def)
qed

lemma alloc_buffer_heap:
  assumes "heap_ok al"
  obtains b m' where "alloc_buffer al sz m = (b, m')" "buf_ptr b \<noteq> None"
proof -
  obtain p m1 where p: "allocateLargePagesMemory al sz m = (p, m1)" by fastforce
  obtain m2 where "os_alloc al False sz m1 = (Some (os_next m1), m2)" using os_alloc_heap [OF assms] .
  with p show thesis using that by (cases p) (auto simp: alloc_buffer_def)
qed

lemma create_heap:
  assumes al: "al_ok al" and heap: "heap_ok al" and inv: "nm_inv st"
  shows "\<exists>st'. nm_capi_create_ctx al st = Some (Some (os_next (nm_os st)), st') \<and> create_ok st (Some (os_next (nm_os st)), st')"
proof -
  have b: "bounded (nm_os st)" using inv by (simp add: nm_inv_def)
  have rc: "\<exists>c m'. nm_ctx_init_shared al m = (0, c, m')" for m
  proof -
    obtain m1 where 1: "os_alloc al False (NM_SCRATCH_WORDS * 8) m = (Some (os_next m), m1)" using os_alloc_heap [OF heap] .
    obtain m2 where 2: "os_alloc al False (NM_PROG_MAX * 8) m1 = (Some (os_next m1), m2)" using os_alloc_heap [OF heap] .
    obtain m3 where 3: "os_alloc al False NM_PROG_MAX m2 = (Some (os_next m2), m3)" using os_alloc_heap [OF heap] .
    show ?thesis using 1 2 3 by (simp add: nm_ctx_init_shared_def alloc_thread_buffers_def)
  qed
  obtain p st' where r: "nm_capi_create_ctx al st = Some (p, st')" "create_ok st (p, st')" using create_ctx_ok [OF al b] by auto
  moreover have "p = Some (os_next (nm_os st))"
  proof -
    obtain m where m: "os_alloc al False sizeof_Worker (nm_os st) = (Some (os_next (nm_os st)), m)"
      using os_alloc_heap [OF heap] .
    obtain c m2 where c: "nm_ctx_init_shared al m = (0, c, m2)" using rc by blast
    obtain bf m3 where bf: "alloc_buffer al NM_SCRATCH_BYTES m2 = (bf, m3)" "buf_ptr bf \<noteq> None"
      using alloc_buffer_heap [OF heap] .
    show ?thesis using r(1) m c bf by (auto simp: nm_capi_create_ctx_def bind_eq_Some_conv)
  qed
  ultimately show ?thesis by auto
qed

lemma set_seed_heap: "heap_ok al \<Longrightarrow> nm_capi_set_seed al h seed st = Some (rc, st') \<Longrightarrow> rc = 0"
proof -
  assume heap: "heap_ok al" and ss: "nm_capi_set_seed al h seed st = Some (rc, st')"
  have e: "buf_ptr (g_datasetBuf (ensure_dataset al s)) \<noteq> None" for s
    by (rule alloc_buffer_heap [OF heap, of NM_DATASET_BYTES "nm_os s"]) (auto simp: ensure_dataset_def)
  have "p \<noteq> None" if "shared_dataset al key s = Some (p, s')" for key s p s'
  proof -
    have "p = buf_ptr (g_datasetBuf (ensure_dataset al s))"
      using that unfolding shared_dataset_def refresh_dataset_def Let_def by (auto simp: bind_eq_Some_conv split: if_splits)
    then show ?thesis using e by simp
  qed
  then show ?thesis using ss by (auto simp: nm_capi_set_seed_def bind_eq_Some_conv Let_def split: if_splits)
qed

lemma nm_run_leaked:
  assumes "nm_run q al st cs st'" and "al_ok al" and "heap_ok al" and "nm_inv st"
  shows "leaked st' = leaked st"
  using assms
proof (induction rule: nm_run.induct)
  case (more st c st' cs st'')
  have "leaked st' = leaked st" using more.hyps(1)
  proof cases
    case (create p)
    then show ?thesis using create_heap [OF more.prems] create_leaked [OF more.prems(3)] by auto
  next
    case (destroy h)
    then show ?thesis using destroy_leaked [OF more.prems(3)] by blast
  next
    case (set_seed h seed rc)
    then obtain w where "workers st h = Some w" by blast
    then show ?thesis using set_seed_ok [OF more.prems(3,1), of h w seed] set_seed by auto
  next
    case (hash h seed header stk height digest)
    then show ?thesis using hash_ok [OF more.prems(3) hash(2-4), of q stk height] by auto
  qed
  then show ?case using more.IH [OF more.prems(1,2) nm_step_inv(1) [OF more.prems(1,3) more.hyps(1)]] by simp
qed simp

subsection \<open>The self-test\<close>

lemma selftest_hashes_ok:
  assumes inv: "nm_inv st" and a: "seeded st a selftest_seed" and b: "seeded st b selftest_seed" and ab: "a \<noteq> b"
  shows "\<exists>rc st'. selftest_hashes q stk a b st = Some (rc, st') \<and> rc \<in> {0, -5} \<and> workers st' = (workers st)(a := None, b := None)
    \<and> leaked st' = leaked st
    \<and> (rc = 0 \<longleftrightarrow> nm_digest selftest_seed selftest_header 100000
           \<noteq> nm_digest selftest_seed (selftest_header[NM_NONCE_OFFSET := selftest_header ! NM_NONCE_OFFSET XOR 1]) 100000)"
proof -
  let ?hd = "selftest_header" and ?hd' = "selftest_header[NM_NONCE_OFFSET := selftest_header ! NM_NONCE_OFFSET XOR 1]"
  have len: "length selftest_seed = 32" "NM_HEADER_LEN \<le> length ?hd" "NM_HEADER_LEN \<le> length ?hd'"
    by (simp_all add: selftest_seed_def selftest_header_def)
  obtain m1 where h1: "nm_capi_hash q (stk 0) a ?hd 100000 st = Some (nm_digest selftest_seed ?hd 100000, st\<lparr>nm_os := m1\<rparr>)"
    "nm_inv (st\<lparr>nm_os := m1\<rparr>)" "leaked (st\<lparr>nm_os := m1\<rparr>) = leaked st" using hash_ok [OF inv a len(1,2)] by blast
  obtain m2 where h2: "nm_capi_hash q (stk 1) a ?hd 100000 (st\<lparr>nm_os := m1\<rparr>) = Some (nm_digest selftest_seed ?hd 100000, st\<lparr>nm_os := m2\<rparr>)"
    "nm_inv (st\<lparr>nm_os := m2\<rparr>)" "leaked (st\<lparr>nm_os := m2\<rparr>) = leaked st"
    using hash_ok [OF h1(2) _ len(1,2), of a q "stk 1" 100000] a h1(3) by auto
  obtain m3 where h3: "nm_capi_hash q (stk 2) b ?hd 100000 (st\<lparr>nm_os := m2\<rparr>) = Some (nm_digest selftest_seed ?hd 100000, st\<lparr>nm_os := m3\<rparr>)"
    "nm_inv (st\<lparr>nm_os := m3\<rparr>)" "leaked (st\<lparr>nm_os := m3\<rparr>) = leaked st"
    using hash_ok [OF h2(2) _ len(1,2), of b q "stk 2" 100000] b h2(3) by auto
  obtain m4 where h4: "nm_capi_hash q (stk 3) a ?hd' 100000 (st\<lparr>nm_os := m3\<rparr>) = Some (nm_digest selftest_seed ?hd' 100000, st\<lparr>nm_os := m4\<rparr>)"
    "nm_inv (st\<lparr>nm_os := m4\<rparr>)" "leaked (st\<lparr>nm_os := m4\<rparr>) = leaked st"
    using hash_ok [OF h3(2) _ len(1,3), of a q "stk 3" 100000] a h3(3) by auto
  obtain wa wb where w: "workers st a = Some wa" "workers st b = Some wb" using a b by (auto simp: seeded_def)
  then obtain m5 where d1: "nm_capi_destroy_ctx (Some a) (st\<lparr>nm_os := m4\<rparr>) = Some (st\<lparr>nm_os := m5, workers := (workers st)(a := None)\<rparr>)"
    using destroy_ok [OF h4(2), of a wa] by auto
  have i5: "nm_inv (st\<lparr>nm_os := m5, workers := (workers st)(a := None)\<rparr>)"
    "leaked (st\<lparr>nm_os := m5, workers := (workers st)(a := None)\<rparr>) = leaked st"
    using destroy_inv [OF h4(2) _ d1] destroy_leaked [OF h4(2) _ d1] w h4(3) by simp_all
  then obtain m6 where d2: "nm_capi_destroy_ctx (Some b) (st\<lparr>nm_os := m5, workers := (workers st)(a := None)\<rparr>)
      = Some (st\<lparr>nm_os := m6, workers := (workers st)(a := None, b := None)\<rparr>)"
    using destroy_ok [OF i5(1), of b wb] w ab by auto
  have "leaked (st\<lparr>nm_os := m6, workers := (workers st)(a := None, b := None)\<rparr>) = leaked st"
    using destroy_leaked [OF i5(1) _ d2] w ab i5(2) by simp
  then show ?thesis
    using h1(1) h2(1) h3(1) h4(1) d1 d2 by (auto simp: selftest_hashes_def leaked_def owned_def data_set_def Let_def)
qed

lemma destroy_opt_ok:
  assumes "nm_inv st" and "p = None \<or> workers st (the p) \<noteq> None"
  shows "\<exists>st'. nm_capi_destroy_ctx p st = Some st' \<and> nm_inv st' \<and> (\<forall>h. p \<noteq> Some h \<longrightarrow> workers st' h = workers st h)"
proof (cases p)
  case (Some h)
  then obtain w where w: "workers st h = Some w" using assms(2) by auto
  then obtain m where d: "nm_capi_destroy_ctx (Some h) st = Some (st\<lparr>nm_os := m, workers := (workers st)(h := None)\<rparr>)"
    using destroy_ok [OF assms(1)] by blast
  then show ?thesis using destroy_inv [OF assms(1) w d] Some by simp
qed (use assms in \<open>simp add: nm_capi_destroy_ctx_def\<close>)

lemma create_handle:
  assumes inv: "nm_inv st" and ok: "create_ok st (Some h, st')"
  shows "workers st' h \<noteq> None" and "workers st h = None" and "\<And>k. k \<noteq> h \<Longrightarrow> workers st' k = workers st k"
proof -
  show "workers st' h \<noteq> None" "\<And>k. k \<noteq> h \<Longrightarrow> workers st' k = workers st k" using ok by (auto simp: create_ok_def)
  have "os_next (nm_os st) \<le> h" using ok by (auto simp: create_ok_def worker_set_def)
  then show "workers st h = None"
    using worker_bound [OF nm_inv_worker(1) [OF inv], of h _ h] inv by (fastforce simp: nm_inv_def worker_set_def)
qed

lemma nm_inv_error: "nm_inv (st\<lparr>g_error := e\<rparr>) = nm_inv st"
  by (simp add: nm_inv_def data_ok_def data_set_def)

lemma selftest_seeding:
  assumes al: "al_ok al" and inv: "nm_inv st" and a: "workers st a \<noteq> None" and b: "workers st b \<noteq> None" and ab: "a \<noteq> b"
  shows "\<exists>rc st'. selftest_run q stk al a b st = Some (rc, st') \<and> rc \<in> {0, -2, -5}"
proof -
  obtain wa where wa: "workers st a = Some wa" using a by blast
  obtain ra s1 where r1: "nm_capi_set_seed al a selftest_seed st = Some (ra, s1)" "nm_inv s1" "dom (workers s1) = dom (workers st)"
    "ra = 0 \<longrightarrow> seeded s1 a selftest_seed" using set_seed_ok [OF inv al wa] by blast
  have live: "workers s1 a \<noteq> None" "workers s1 b \<noteq> None" using r1(3) a b by (auto simp: dom_def set_eq_iff)
  obtain d1 where d1: "nm_capi_destroy_ctx (Some a) s1 = Some d1" "nm_inv d1" "workers d1 b \<noteq> None"
    using destroy_opt_ok [OF r1(2), of "Some a"] live ab by auto
  obtain d2 where d2: "nm_capi_destroy_ctx (Some b) d1 = Some d2" using destroy_opt_ok [OF d1(2), of "Some b"] d1(3) by auto
  show ?thesis
  proof (cases "ra = 0")
    case False
    then show ?thesis using r1 d1 d2 by (simp add: selftest_run_def)
  next
    case True
    obtain wb where wb: "workers s1 b = Some wb" using live by blast
    have sa: "seeded s1 a selftest_seed" using r1(4) True by simp
    then have "buf_ptr (g_datasetBuf s1) \<noteq> None" unfolding seeded_def Let_def by blast
    then obtain s2 where r2: "nm_capi_set_seed al b selftest_seed s1 = Some (0, s2)" "nm_inv s2" "seeded s2 b selftest_seed"
      using set_seed_ok [OF r1(2) al wb, of selftest_seed] by auto
    have "seeded s2 a selftest_seed" using set_seed_seeded [OF r1(2) al wb r2(1) sa] .
    then show ?thesis using selftest_hashes_ok [OF r2(2) _ r2(3) ab, of q stk] r1(1) r2(1) True by (auto simp: selftest_run_def)
  qed
qed

lemma selftest_ok:
  assumes al: "al_ok al" and inv: "nm_inv st"
  shows "\<exists>rc st'. nm_capi_selftest q stk al st = Some (rc, st') \<and> rc \<in> {0, -1, -2, -5}"
proof -
  define s0 where "s0 = st\<lparr>g_error := []\<rparr>"
  have i0: "nm_inv s0" using inv by (simp add: s0_def nm_inv_error)
  have bd: "bounded (nm_os s)" if "nm_inv s" for s using that by (simp add: nm_inv_def)
  obtain a s1 where c1: "nm_capi_create_ctx al s0 = Some (a, s1)" "create_ok s0 (a, s1)" using create_ctx_ok [OF al bd [OF i0]] by auto
  have i1: "nm_inv s1" using create_inv [OF i0 c1(2)] .
  obtain b s2 where c2: "nm_capi_create_ctx al s1 = Some (b, s2)" "create_ok s1 (b, s2)" using create_ctx_ok [OF al bd [OF i1]] by auto
  have i2: "nm_inv s2" using create_inv [OF i1 c2(2)] .
  have w1: "a = None \<or> workers s1 (the a) \<noteq> None" using create_handle(1) [OF i0] c1(2) by (cases a) auto
  have w2: "a = None \<or> workers s2 (the a) \<noteq> None" "b = None \<or> workers s2 (the b) \<noteq> None" "a \<noteq> None \<Longrightarrow> a \<noteq> b"
  proof -
    show "b = None \<or> workers s2 (the b) \<noteq> None" using create_handle(1) [OF i1] c2(2) by (cases b) auto
    show "a \<noteq> None \<Longrightarrow> a \<noteq> b" using create_handle(2) [OF i1] c2(2) w1 by (cases b) auto
    then show "a = None \<or> workers s2 (the a) \<noteq> None"
      using create_handle(3) [OF i1] c2(2) w1 by (cases a; cases b) (auto simp: create_ok_def)
  qed
  show ?thesis
  proof (cases "a = None \<or> b = None")
    case True
    obtain s3 where d1: "nm_capi_destroy_ctx a s2 = Some s3" "nm_inv s3" "\<And>h. a \<noteq> Some h \<Longrightarrow> workers s3 h = workers s2 h"
      using destroy_opt_ok [OF i2 w2(1)] by blast
    have "b = None \<or> workers s3 (the b) \<noteq> None" using w2 d1(3) True by auto
    then obtain s4 where "nm_capi_destroy_ctx b s3 = Some s4" using destroy_opt_ok [OF d1(2)] by blast
    then show ?thesis using True c1(1) c2(1) d1(1) by (simp add: nm_capi_selftest_def s0_def)
  next
    case False
    then obtain ha hb where h: "a = Some ha" "b = Some hb" by auto
    then show ?thesis
      using selftest_seeding [OF al i2, of ha hb q stk] w2 c1(1) c2(1) by (auto simp: nm_capi_selftest_def s0_def)
  qed
qed

subsection \<open>An allocator that always succeeds\<close>

definition zero_al :: allocator where
  "zero_al mapped sz i = (if mapped then None else Some (replicate (sz div 8) 0))"

lemma zero_al_ok: "al_ok zero_al" "heap_ok zero_al"
  by (simp_all add: al_ok_def heap_ok_def zero_al_def)

lemma zero_al_session:
  assumes "length seed = 32"
  shows "\<exists>st0 st1. nm_run q zero_al nm_init_state [Create] st0 \<and> nm_capi_set_seed zero_al 0 seed st0 = Some (0, st1)
    \<and> (\<exists>st2. nm_run q zero_al st1 [Create] st2)"
proof -
  have n: "os_next (nm_os nm_init_state) = 0" by (simp add: nm_init_state_def)
  obtain st0 where c: "nm_capi_create_ctx zero_al nm_init_state = Some (Some 0, st0)" "create_ok nm_init_state (Some 0, st0)"
    using create_heap [OF zero_al_ok nm_init_inv, unfolded n] by blast
  have i0: "nm_inv st0" using create_inv [OF nm_init_inv c(2)] .
  obtain w where "workers st0 0 = Some w" using create_handle(1) [OF nm_init_inv c(2)] by blast
  then obtain rc st1 where s: "nm_capi_set_seed zero_al 0 seed st0 = Some (rc, st1)" "nm_inv st1"
    using set_seed_ok [OF i0 zero_al_ok(1)] by blast
  then have "rc = 0" using set_seed_heap [OF zero_al_ok(2)] by blast
  moreover obtain p st2 where "nm_capi_create_ctx zero_al st1 = Some (p, st2)" using create_heap [OF zero_al_ok s(2)] by blast
  ultimately show ?thesis using c(1) s(1) by (blast intro: nm_run.intros nm_step.intros)
qed

subsection \<open>Properties\<close>

text \<open>
  C10. A context hashes for the seed it was given: from a fresh process, after any sequence of
  calls, a successful \<^verbatim>\<open>nm_capi_set_seed\<close> on a context and any further sequence that destroys no
  such context and seeds only with the same seed, \<^verbatim>\<open>nm_capi_hash\<close> returns the digest that the seed,
  the header and the height determine, whichever context computes it and whatever was hashed
  before.
\<close>

theorem nm_capi_hash_of_seed:
  assumes "al_ok al" and "nm_run q al nm_init_state before st0"
    and "nm_capi_set_seed al h seed st0 = Some (0, st1)" and "length seed = 32"
    and "nm_run q al st1 between st2" and "list_all (keeps h seed) between" and "NM_HEADER_LEN \<le> length header"
  shows "map_option fst (nm_capi_hash q stk h header height st2) = Some (nm_digest seed header height)"
proof -
  have i0: "nm_inv st0" using nm_run_inv(1) [OF assms(2,1) nm_init_inv] .
  obtain w where w: "workers st0 h = Some w" using assms(3) by (auto simp: nm_capi_set_seed_def bind_eq_Some_conv)
  have i1: "nm_inv st1" "seeded st1 h seed" using set_seed_ok [OF i0 assms(1) w, of seed] assms(3) by auto
  have "nm_inv st2" "seeded st2 h seed" using nm_run_inv [OF assms(5,1) i1(1)] i1(2) assms(6) by auto
  then show ?thesis using hash_ok [OF _ _ assms(4,7), of st2 h q stk height] by auto
qed

theorem nm_capi_hash_of_seed_witness:
  "\<exists>st0 st1 st2. nm_run 0 zero_al nm_init_state [Create] st0
    \<and> nm_capi_set_seed zero_al 0 (replicate 32 7) st0 = Some (0, st1) \<and> nm_run 0 zero_al st1 [Create] st2
    \<and> map_option fst (nm_capi_hash 0 (\<lambda>_. 5) 0 (replicate 124 1) 100000 st2) = Some (nm_digest (replicate 32 7) (replicate 124 1) 100000)"
proof -
  obtain st0 st1 st2 where run: "nm_run 0 zero_al nm_init_state [Create] st0"
    "nm_capi_set_seed zero_al 0 (replicate 32 7) st0 = Some (0, st1)" "nm_run 0 zero_al st1 [Create] st2"
    using zero_al_session [of "replicate 32 7" 0] by auto
  have "map_option fst (nm_capi_hash 0 (\<lambda>_. 5) 0 (replicate 124 1) 100000 st2) = Some (nm_digest (replicate 32 7) (replicate 124 1) 100000)"
    by (rule nm_capi_hash_of_seed [OF zero_al_ok(1) run(1,2) _ run(3)]) (simp_all add: NM_HEADER_LEN_def)
  with run show ?thesis by blast
qed

text \<open>
  C30. The self-test finishes in every state the interface can reach, whatever allocations fail,
  and never reports an inconsistency: its result is 0, an allocation failure (-1 or -2) or, should
  the two headers collide, -5. The results -3 and -4 cannot occur.
\<close>

theorem nm_capi_selftest_consistent:
  assumes "al_ok al" and "nm_run q al nm_init_state calls st"
  shows "\<exists>rc st'. nm_capi_selftest q stk al st = Some (rc, st') \<and> rc \<in> {0, -1, -2, -5}"
  using selftest_ok [OF assms(1) nm_run_inv(1) [OF assms(2,1) nm_init_inv]] .

theorem nm_capi_selftest_consistent_witness:
  "\<exists>rc st'. nm_capi_selftest 0 (\<lambda>_ _. 5) zero_al nm_init_state = Some (rc, st') \<and> rc \<in> {0, -1, -2, -5}"
  by (rule nm_capi_selftest_consistent [OF zero_al_ok(1) nm_run.stop])

text \<open>
  C31. While the C heap has memory, no sequence of calls loses a block: every block that is
  allocated belongs to a live context or is the shared dataset. Large pages may be missing.
\<close>

theorem nm_capi_no_leak:
  assumes "al_ok al" and "heap_ok al" and "nm_run q al nm_init_state calls st"
  shows "dom (blocks (nm_os st)) \<subseteq> owned st"
proof -
  have "leaked nm_init_state = {}" by (simp add: leaked_def nm_init_state_def)
  then have "leaked st = {}" using nm_run_leaked [OF assms(3,1,2) nm_init_inv] by simp
  then show ?thesis by (auto simp: leaked_def)
qed

theorem nm_capi_no_leak_witness:
  "\<exists>st. nm_run 0 zero_al nm_init_state [Create] st \<and> dom (blocks (nm_os st)) \<subseteq> owned st"
proof -
  obtain st where run: "nm_run 0 zero_al nm_init_state [Create] st" using zero_al_session [of "replicate 32 7"] by auto
  show ?thesis using nm_capi_no_leak [OF zero_al_ok run] run by blast
qed

text \<open>
  C32. When the branch-count buffer cannot be allocated, \<^verbatim>\<open>nm_capi_create_ctx\<close> reports the failure
  but releases only the worker record: the two megabytes of scratchpad and the program buffer stay
  allocated and belong to nobody.
\<close>

theorem nm_create_ctx_leaks:
  assumes "nm_inv st" and "n = os_next (nm_os st)"
    and "al False sizeof_Worker n = Some wr" and "al False (NM_SCRATCH_WORDS * 8) (n + 1) = Some sc"
    and "al False (NM_PROG_MAX * 8) (n + 2) = Some pr" and "al False NM_PROG_MAX (n + 3) = None"
  shows "\<exists>st'. nm_capi_create_ctx al st = Some (None, st')
    \<and> g_error st' = ''nm_ctx_init_shared failed (program buffer allocation)'' \<and> {n + 1, n + 2} \<subseteq> leaked st'"
proof -
  define m where "m = (nm_os st)\<lparr>os_next := n + 4, blocks := (blocks (nm_os st))
    (n + 1 \<mapsto> \<lparr>b_mapped = False, b_words = sc\<rparr>, n + 2 \<mapsto> \<lparr>b_mapped = False, b_words = pr\<rparr>, n := None)\<rparr>"
  define st' where "st' = st\<lparr>nm_os := m, g_error := ''nm_ctx_init_shared failed (program buffer allocation)''\<rparr>"
  have i: "Suc (Suc n) = n + 2" "Suc (n + 2) = n + 3" "Suc (n + 3) = n + 4" by simp_all
  have a: "os_alloc al False sizeof_Worker (nm_os st) = (Some n, (nm_os st)\<lparr>os_next := n + 1,
      blocks := (blocks (nm_os st))(n \<mapsto> \<lparr>b_mapped = False, b_words = wr\<rparr>)\<rparr>)"
    using assms by (simp add: os_alloc_def Let_def)
  have "nm_ctx_init_shared al ((nm_os st)\<lparr>os_next := n + 1, blocks := (blocks (nm_os st))(n \<mapsto> \<lparr>b_mapped = False, b_words = wr\<rparr>)\<rparr>)
    = (-1, zero_ctx\<lparr>c_scratch := Some (n + 1), c_prog := Some (n + 2), c_taken := None, c_owns_scratch := True\<rparr>,
       (nm_os st)\<lparr>os_next := n + 4, blocks := (blocks (nm_os st))(n \<mapsto> \<lparr>b_mapped = False, b_words = wr\<rparr>,
         n + 1 \<mapsto> \<lparr>b_mapped = False, b_words = sc\<rparr>, n + 2 \<mapsto> \<lparr>b_mapped = False, b_words = pr\<rparr>)\<rparr>)"
    using assms(4-6) by (simp add: nm_ctx_init_shared_def alloc_thread_buffers_def os_alloc_def i Let_def del: add_2_eq_Suc')
  then have "nm_capi_create_ctx al st = Some (None, st')"
    using a by (simp add: nm_capi_create_ctx_def os_free_def st'_def m_def fun_upd_twist)
  moreover have "{n + 1, n + 2} \<subseteq> leaked st'"
  proof -
    have b: "bounded (nm_os st)" using assms(1) by (simp add: nm_inv_def)
    have "i < n" if "i \<in> owned st" for i
      using that assms(1,2) worker_bound [OF nm_inv_worker(1) [OF assms(1)] b] data_bound [OF _ b]
      by (auto simp: owned_def nm_inv_def)
    moreover have "owned st' = owned st" by (simp add: owned_def st'_def data_set_def)
    moreover have "{n + 1, n + 2} \<subseteq> dom (blocks (nm_os st'))" by (auto simp: st'_def m_def)
    ultimately show ?thesis by (fastforce simp: leaked_def)
  qed
  ultimately show ?thesis by (auto simp: st'_def)
qed

theorem nm_create_ctx_leaks_witness:
  "\<exists>st'. nm_capi_create_ctx (\<lambda>mapped sz i. if i = 3 then None else zero_al mapped sz i) nm_init_state = Some (None, st')
    \<and> g_error st' = ''nm_ctx_init_shared failed (program buffer allocation)'' \<and> {0 + 1, 0 + 2} \<subseteq> leaked st'"
  by (rule nm_create_ctx_leaks [OF nm_init_inv]) (simp_all add: nm_init_state_def zero_al_def)

end
