(* ===== verification/Rx_Prims.thy ===== *)
theory Rx_Prims
  imports Prelude
begin

text \<open>
  The integer primitives RandomX is built on: byte order (\<^verbatim>\<open>blake2/endian.h\<close>,
  \<^verbatim>\<open>blake2/blake2-impl.h\<close>), the portable rotations and high products of
  \<^verbatim>\<open>instructions_portable.cpp\<close>, sign extension (\<^verbatim>\<open>intrin_portable.h\<close>) and the reciprocal of
  \<^verbatim>\<open>reciprocal.c\<close>.
\<close>

subsection \<open>Byte order\<close>

definition load32 :: "u8 list \<Rightarrow> u32" where
  "load32 p = ucast (p ! 0) OR push_bit 8 (ucast (p ! 1)) OR push_bit 16 (ucast (p ! 2)) OR push_bit 24 (ucast (p ! 3))"

definition load64 :: "u8 list \<Rightarrow> u64" where
  "load64 p = ucast (p ! 0) OR push_bit 8 (ucast (p ! 1)) OR push_bit 16 (ucast (p ! 2)) OR push_bit 24 (ucast (p ! 3))
     OR push_bit 32 (ucast (p ! 4)) OR push_bit 40 (ucast (p ! 5)) OR push_bit 48 (ucast (p ! 6)) OR push_bit 56 (ucast (p ! 7))"

definition load48 :: "u8 list \<Rightarrow> u64" where
  "load48 p = ucast (p ! 0) OR push_bit 8 (ucast (p ! 1)) OR push_bit 16 (ucast (p ! 2)) OR push_bit 24 (ucast (p ! 3))
     OR push_bit 32 (ucast (p ! 4)) OR push_bit 40 (ucast (p ! 5))"

definition load64_native :: "u8 list \<Rightarrow> u64" where
  "load64_native p = le_word (take 8 p)"

definition store64_native :: "u64 \<Rightarrow> u8 list" where
  "store64_native w = le_bytes 8 w"

text \<open>A store writes the low byte and shifts the word, \<open>n\<close> times.\<close>

fun store_bytes :: "nat \<Rightarrow> 'a::len word \<Rightarrow> u8 list" where
  "store_bytes 0 w = []"
| "store_bytes (Suc n) w = ucast w # store_bytes n (drop_bit 8 w)"

definition store32 :: "u32 \<Rightarrow> u8 list" where "store32 w = store_bytes 4 w"
definition store64 :: "u64 \<Rightarrow> u8 list" where "store64 w = store_bytes 8 w"
definition store48 :: "u64 \<Rightarrow> u8 list" where "store48 w = store_bytes 6 w"

subsection \<open>Rotations and high products\<close>

definition rx_rotr64 :: "u64 \<Rightarrow> nat \<Rightarrow> u64" where
  "rx_rotr64 a b = drop_bit b a OR push_bit (unat ((- of_nat b :: u32) AND 63)) a"

definition rx_rotl64 :: "u64 \<Rightarrow> nat \<Rightarrow> u64" where
  "rx_rotl64 a b = push_bit b a OR drop_bit (unat ((- of_nat b :: u32) AND 63)) a"

text \<open>The rotations of \<^verbatim>\<open>blake2-impl.h\<close>.\<close>

definition rotr32 :: "u32 \<Rightarrow> nat \<Rightarrow> u32" where
  "rotr32 w c = drop_bit c w OR push_bit (32 - c) w"

definition blake_rotr64 :: "u64 \<Rightarrow> nat \<Rightarrow> u64" where
  "blake_rotr64 w c = drop_bit c w OR push_bit (64 - c) w"

definition LO :: "u64 \<Rightarrow> u64" where "LO x = x AND 0xFFFFFFFF"
definition HI :: "u64 \<Rightarrow> u64" where "HI x = drop_bit 32 x"

definition mulh :: "u64 \<Rightarrow> u64 \<Rightarrow> u64" where
  "mulh a b =
     (let ah = HI a; al = LO a; bh = HI b; bl = LO b;
          x00 = al * bl; x01 = al * bh; x10 = ah * bl; x11 = ah * bh;
          m1 = LO x10 + LO x01 + HI x00;
          m2 = HI x10 + HI x01 + LO x11 + HI m1;
          m3 = HI x11 + HI m2
      in push_bit 32 m3 + LO m2)"

text \<open>The two products on a compiler with 128-bit integers.\<close>

definition mulh_int128 :: "u64 \<Rightarrow> u64 \<Rightarrow> u64" where
  "mulh_int128 a b = ucast (drop_bit 64 (ucast a * ucast b :: 128 word))"

definition smulh_int128 :: "u64 \<Rightarrow> u64 \<Rightarrow> u64" where
  "smulh_int128 a b = ucast (signed_drop_bit 64 (scast a * scast b :: 128 word))"

text \<open>The arguments of \<^verbatim>\<open>smulh\<close> are the bit patterns of two signed numbers.\<close>

definition smulh :: "u64 \<Rightarrow> u64 \<Rightarrow> u64" where
  "smulh a b =
     (let hi = mulh a b;
          hi = (if sint a < 0 then hi - b else hi)
      in if sint b < 0 then hi - a else hi)"

definition signExtend2sCompl :: "u32 \<Rightarrow> u64" where
  "signExtend2sCompl x = scast x"

definition isZeroOrPowerOf2 :: "u64 \<Rightarrow> bool" where
  "isZeroOrPowerOf2 x \<longleftrightarrow> x AND (x - 1) = 0"

subsection \<open>Reciprocal\<close>

text \<open>The loop that counts the significant bits.\<close>

function bsr_loop :: "u64 \<Rightarrow> nat \<Rightarrow> nat" where
  "bsr_loop b bsr = (if b > 0 then bsr_loop (drop_bit 1 b) (bsr + 1) else bsr)"
  by pat_completeness auto

termination
  by (relation "measure (\<lambda>(b, bsr). unat b)") (auto simp: drop_bit_eq_div unat_div_distrib word_gt_0 unat_gt_0)

declare bsr_loop.simps [simp del]

definition recip_turn :: "u64 \<Rightarrow> u64 \<times> u64 \<Rightarrow> u64 \<times> u64" where
  "recip_turn divisor s = (case s of (q, remainder) \<Rightarrow>
     if remainder \<ge> divisor - remainder then (q * 2 + 1, remainder * 2 - divisor)
     else (q * 2, remainder * 2))"

definition randomx_reciprocal :: "u64 \<Rightarrow> u64" where
  "randomx_reciprocal divisor =
     (let p2exp63 = push_bit 63 1
      in fst (fold (\<lambda>_. recip_turn divisor) [0..<bsr_loop divisor 0] (p2exp63 div divisor, p2exp63 mod divisor)))"

text \<open>\<^verbatim>\<open>__builtin_clzll\<close> is 64 less the number of significant bits.\<close>

definition randomx_reciprocal_fast :: "u64 \<Rightarrow> u64" where
  "randomx_reciprocal_fast divisor =
     (let q = push_bit 63 1 div divisor; r = push_bit 63 1 mod divisor; shift = bsr_loop divisor 0
      in push_bit shift q + push_bit shift r div divisor)"

subsection \<open>Byte order lemmas\<close>

lemma store_bytes_le_bytes: "store_bytes n w = le_bytes n w"
proof (induction n arbitrary: w)
  case 0
  then show ?case by (simp add: le_bytes_def)
next
  case (Suc n)
  have "le_bytes (Suc n) w = ucast w # le_bytes n (drop_bit 8 w)"
    unfolding le_bytes_def by (simp add: upt_conv_Cons add.commute flip: map_Suc_upt del: upt_Suc)
  then show ?case using Suc by simp
qed

lemma store_le_bytes: "store32 w = le_bytes 4 w" "store64 v = le_bytes 8 v" "store48 v = le_bytes 6 v"
  by (simp_all add: store32_def store64_def store48_def store_bytes_le_bytes)

lemma upt_bytes:
  "[0..<4] = [0, 1, 2, 3]" "[0..<6] = [0, 1, 2, 3, 4, 5]" "[0..<8] = [0, 1, 2, 3, 4, 5, 6, 7]"
  by code_simp+

lemma load_le_word:
  "8 \<le> length p \<Longrightarrow> load64 p = le_word (take 8 p)"
  "4 \<le> length p \<Longrightarrow> load32 p = le_word (take 4 p)"
  "6 \<le> length p \<Longrightarrow> load48 p = le_word (take 6 p)"
  by (simp_all add: load64_def load32_def load48_def le_word_def upt_bytes ac_simps)

text \<open>C39. A 64-bit store followed by a load returns the word, a load followed by a store returns
  the eight bytes, and the portable byte loop is the native \<^verbatim>\<open>memcpy\<close> of a little-endian machine.\<close>

theorem load64_store64:
  assumes "length p = 8"
  shows "load64 (store64 w) = w \<and> store64 (load64 p) = p \<and> load64 p = load64_native p \<and> store64 w = store64_native w"
proof -
  have "store64 (load64 p) = p"
    using le_bytes_le_word [where 'a = 64, of p] assms by (simp add: load_le_word store_le_bytes)
  then show ?thesis using assms by (simp add: load_le_word store_le_bytes load64_native_def store64_native_def)
qed

theorem load64_store64_witness:
  "load64 (store64 258) = 258 \<and> store64 (load64 [1, 2, 3, 4, 5, 6, 7, 8]) = [1, 2, 3, 4, 5, 6, 7, 8]"
proof -
  have "length [1, 2, 3, 4, 5, 6, 7, 8 :: u8] = 8" by simp
  from load64_store64 [OF this, of 258] show ?thesis by blast
qed

subsection \<open>High products\<close>

lemma div_mult_add_less: "r < c \<Longrightarrow> (q * c + r) div c = q" for q c r :: nat
  by simp

lemma limb_product:
  fixes B ah al bh bl :: nat
  assumes "0 < B"
  defines "m1 \<equiv> (ah * bl) mod B + (al * bh) mod B + (al * bl) div B"
  defines "m2 \<equiv> (ah * bl) div B + (al * bh) div B + (ah * bh) mod B + m1 div B"
  shows "(ah * B + al) * (bh * B + bl) div (B * B) = ((ah * bh) div B + m2 div B) * B + m2 mod B"
proof -
  let ?q = "ah * bh + (ah * bl) div B + (al * bh) div B + m1 div B"
  have split: "u * B = u div B * (B * B) + u mod B * B" for u
    by (metis add_mult_distrib div_mult_mod_eq mult.assoc)
  have "(ah * B + al) * (bh * B + bl) = ah * bh * (B * B) + (ah * bl) * B + (al * bh) * B + al * bl"
    by (simp add: algebra_simps)
  also have "\<dots> = (ah * bh + (ah * bl) div B + (al * bh) div B) * (B * B) + m1 * B + (al * bl) mod B"
    using split [of "ah * bl"] split [of "al * bh"] div_mult_mod_eq [of "al * bl" B]
    unfolding m1_def add_mult_distrib by linarith
  also have "\<dots> = ?q * (B * B) + (m1 mod B * B + (al * bl) mod B)"
    using split [of m1] unfolding add_mult_distrib by linarith
  finally have eq: "(ah * B + al) * (bh * B + bl) = ?q * (B * B) + (m1 mod B * B + (al * bl) mod B)" .
  have "m1 mod B * B + (al * bl) mod B < m1 mod B * B + B" using assms by simp
  also have "\<dots> = Suc (m1 mod B) * B" by simp
  also have "\<dots> \<le> B * B" using assms by (intro mult_le_mono1) (simp add: Suc_le_eq)
  finally have "(ah * B + al) * (bh * B + bl) div (B * B) = ?q" unfolding eq by (rule div_mult_add_less)
  also have "\<dots> = (ah * bh) div B * B + m2" by (simp add: m2_def)
  also have "\<dots> = ((ah * bh) div B + m2 div B) * B + m2 mod B"
    by (simp only: add_mult_distrib add.assoc div_mult_mod_eq)
  finally show ?thesis .
qed

lemma unat_LO: "unat (LO x) = unat x mod 2 ^ 32"
proof -
  have "LO x = take_bit 32 x" unfolding LO_def by (simp add: take_bit_eq_mask mask_eq_exp_minus_1)
  then show ?thesis by (simp only: unsigned_take_bit_eq) (simp add: take_bit_eq_mod)
qed

lemma unat_HI: "unat (HI x) = unat x div 2 ^ 32"
  unfolding HI_def by (simp add: drop_bit_eq_div unat_div_distrib)

lemma unat_add_small: "unat x + unat y < 2 ^ 64 \<Longrightarrow> unat (x + y) = unat x + unat y" for x y :: u64
  using unat_add_lem [of x y] by simp

lemma unat_mult_small: "unat x * unat y < 2 ^ 64 \<Longrightarrow> unat (x * y) = unat x * unat y" for x y :: u64
  using unat_mult_lem [of x y] by simp

lemma unat_push_bit_small: "unat x * 2 ^ k < 2 ^ 64 \<Longrightarrow> unat (push_bit k x) = unat x * 2 ^ k" for x :: u64
  by (simp only: unsigned_push_bit_eq) (simp add: push_bit_eq_mult take_bit_eq_mod)

lemma half_product: "x < 2 ^ 32 \<Longrightarrow> y < 2 ^ 32 \<Longrightarrow> x * y \<le> (2 ^ 32 - 1) * (2 ^ 32 - 1)" for x y :: nat
  by (intro mult_le_mono) auto

lemma unat_add_halves:
  fixes w x y z :: u64
  assumes "unat x < 2 ^ 32" "unat y < 2 ^ 32" "unat z < 2 ^ 32"
  shows "unat (x + y + z) = unat x + unat y + unat z"
    and "unat w < 2 ^ 32 \<Longrightarrow> unat (x + y + z + w) = unat x + unat y + unat z + unat w"
  using assms by (simp_all add: unat_add_small)

lemma unat_half_less: "unat (LO x) < 2 ^ 32" "unat (HI x) < 2 ^ 32"
  using unat_u64_less [of x] by (simp_all add: unat_LO unat_HI less_mult_imp_div_less)

lemma unat_mulh: "unat (mulh a b) = unat a * unat b div 2 ^ 64"
proof -
  let ?B = "4294967296 :: nat"
  define ah al bh bl where "ah = unat a div ?B" and "al = unat a mod ?B" and "bh = unat b div ?B" and "bl = unat b mod ?B"
  define m1 where "m1 = (ah * bl) mod ?B + (al * bh) mod ?B + (al * bl) div ?B"
  define m2 where "m2 = (ah * bl) div ?B + (al * bh) div ?B + (ah * bh) mod ?B + m1 div ?B"
  define m3 where "m3 = (ah * bh) div ?B + m2 div ?B"
  have B: "ah < ?B" "al < ?B" "bh < ?B" "bl < ?B"
    unfolding ah_def al_def bh_def bl_def using unat_u64_less [of a] unat_u64_less [of b] by auto
  have p: "unat (HI a) = ah" "unat (LO a) = al" "unat (HI b) = bh" "unat (LO b) = bl"
    by (simp_all add: unat_LO unat_HI ah_def al_def bh_def bl_def)
  have le: "ah * bl \<le> 18446744065119617025" "al * bh \<le> 18446744065119617025" "ah * bh \<le> 18446744065119617025"
    "al * bl \<le> 18446744065119617025"
    using half_product B by auto
  have x: "unat (LO a * LO b) = al * bl" "unat (LO a * HI b) = al * bh" "unat (HI a * LO b) = ah * bl" "unat (HI a * HI b) = ah * bh"
    by (subst unat_mult_small; use le p in simp)+
  have m1: "unat (LO (HI a * LO b) + LO (LO a * HI b) + HI (LO a * LO b)) = m1"
    unfolding m1_def by (simp only: unat_add_halves unat_half_less) (simp add: unat_LO unat_HI x)
  have m2: "unat (HI (HI a * LO b) + HI (LO a * HI b) + LO (HI a * HI b) + HI (LO (HI a * LO b) + LO (LO a * HI b) + HI (LO a * LO b))) = m2"
    unfolding m2_def by (simp only: unat_add_halves unat_half_less) (simp add: unat_LO unat_HI x m1)
  have ua: "unat a = ah * ?B + al" "unat b = bh * ?B + bl" by (simp_all add: ah_def al_def bh_def bl_def)
  have BB: "?B * ?B = 18446744073709551616" by simp
  have ab: "unat a * unat b div 18446744073709551616 = m3 * ?B + m2 mod ?B"
    unfolding ua BB [symmetric] m3_def m2_def m1_def by (rule limb_product) simp
  have "unat a * unat b \<le> 18446744073709551615 * 18446744073709551615"
    using unat_u64_less [of a] unat_u64_less [of b] by (intro mult_le_mono) auto
  then have small: "m3 * ?B + m2 mod ?B < 18446744073709551616"
    unfolding ab [symmetric] by (simp add: less_mult_imp_div_less)
  then have m3: "unat (push_bit 32 (HI (HI a * HI b) + HI (HI (HI a * LO b) + HI (LO a * HI b) + LO (HI a * HI b) + HI (LO (HI a * LO b) + LO (LO a * HI b) + HI (LO a * LO b))))) = m3 * ?B"
    by (subst push_bit_eq_mult, subst unat_mult_small) (auto simp: unat_add_small unat_HI x m2 m3_def)
  have "unat (mulh a b) = m3 * ?B + m2 mod ?B"
    unfolding mulh_def Let_def using small by (subst unat_add_small) (auto simp: m3 unat_LO m2)
  then show ?thesis using ab by simp
qed

lemma uint_mulh: "uint (mulh a b) = uint a * uint b div 2 ^ 64"
  using arg_cong [OF unat_mulh [of a b], of int] by (simp add: zdiv_int)

lemma sint_range64: "- (2 ^ 63) \<le> sint a" "sint a < 2 ^ 63" for a :: u64
  using sint_range_size [of a] by (simp_all add: word_size)

lemma uint_sint64: "uint a = (if sint a < 0 then sint a + 2 ^ 64 else sint a)" for a :: u64
proof -
  have "uint a = sint a mod 2 ^ 64" using uint_word_of_int [where 'a = 64, of "sint a"] by simp
  moreover have "(sint a + 2 ^ 64) mod 2 ^ 64 = sint a + 2 ^ 64" if "sint a < 0"
    by (rule mod_pos_pos_trivial) (use that sint_range64 [of a] in auto)
  moreover have "sint a mod 2 ^ 64 = sint a" if "\<not> sint a < 0"
    by (rule mod_pos_pos_trivial) (use that sint_range64 [of a] in auto)
  ultimately show ?thesis by simp
qed

lemma smulh_eq: "smulh a b = word_of_int (sint a * sint b div 2 ^ 64)"
proof -
  let ?M = "2 ^ 64 :: int"
  have m: "mulh a b = word_of_int (uint a * uint b div ?M)" by (metis uint_mulh word_of_int_uint)
  have a: "(if sint a < 0 then mulh a b - b else mulh a b) = word_of_int (sint a * uint b div ?M)"
  proof (cases "sint a < 0")
    case True
    then have "uint a * uint b = sint a * uint b + uint b * ?M" using uint_sint64 [of a] by (simp add: algebra_simps)
    then have "uint a * uint b div ?M = sint a * uint b div ?M + uint b" by simp
    then show ?thesis using True by (simp add: m)
  qed (use m uint_sint64 [of a] in simp)
  show ?thesis
  proof (cases "sint b < 0")
    case True
    then have "sint a * uint b = sint a * sint b + sint a * ?M" using uint_sint64 [of b] by (simp add: algebra_simps)
    then have "sint a * uint b div ?M = sint a * sint b div ?M + sint a" by simp
    then show ?thesis using True a by (simp add: smulh_def Let_def)
  qed (use a uint_sint64 [of b] in \<open>simp add: smulh_def Let_def\<close>)
qed

lemma sint_smulh: "sint (smulh a b) = sint a * sint b div 2 ^ 64"
proof -
  have "\<bar>sint a * sint b\<bar> \<le> 2 ^ 63 * 2 ^ 63"
    unfolding abs_mult by (intro mult_mono) (use sint_range64 [of a] sint_range64 [of b] in auto)
  then have "- (2 ^ 63) \<le> sint a * sint b div 2 ^ 64" "sint a * sint b div 2 ^ 64 < 2 ^ 63" by auto
  then show ?thesis unfolding smulh_eq by (simp add: sint_sbintrunc' signed_take_bit_int_eq_self)
qed

lemma mulh_int128_eq: "mulh_int128 a b = mulh a b"
proof (rule word_unat_eq_iff [THEN iffD2])
  let ?p = "ucast a * ucast b :: 128 word"
  have "unat a * unat b \<le> 18446744073709551615 * 18446744073709551615"
    using unat_u64_less [of a] unat_u64_less [of b] by (intro mult_le_mono) auto
  then have p: "unat ?p = unat a * unat b"
    using unat_u64_less [of a] unat_u64_less [of b]
    by (simp add: unat_word_ariths unsigned_ucast_eq take_bit_eq_mod)
  have "unat (drop_bit 64 ?p) = unat (mulh a b)"
    unfolding unat_mulh by (simp add: drop_bit_eq_div unat_div_distrib p)
  then show "unat (mulh_int128 a b) = unat (mulh a b)"
    using unat_u64_less [of "mulh a b"] by (simp add: mulh_int128_def unsigned_ucast_eq take_bit_eq_mod)
qed

lemma smulh_int128_eq: "smulh_int128 a b = smulh a b"
proof -
  let ?p = "scast a * scast b :: 128 word"
  have "\<bar>sint a * sint b\<bar> \<le> 2 ^ 63 * 2 ^ 63"
    unfolding abs_mult by (intro mult_mono) (use sint_range64 [of a] sint_range64 [of b] in auto)
  then have "- (2 ^ 127) \<le> sint a * sint b" "sint a * sint b < 2 ^ 127" by auto
  moreover have "?p = word_of_int (sint a * sint b)" by (simp only: scast_eq of_int_mult)
  ultimately have p: "sint ?p = sint a * sint b" by (simp only: sint_sbintrunc') (simp add: signed_take_bit_int_eq_self)
  have "ucast v = (word_of_int (sint v) :: u64)" for v :: "128 word"
    by (rule bit_word_eqI) (auto simp: bit_simps)
  then have "smulh_int128 a b = word_of_int (sint (signed_drop_bit 64 ?p))" by (simp only: smulh_int128_def)
  also have "sint (signed_drop_bit 64 ?p) = sint a * sint b div 2 ^ 64"
    by (simp add: sint_signed_drop_bit_eq p drop_bit_eq_div)
  finally show ?thesis by (simp add: smulh_eq)
qed

text \<open>C38. The portable 32-bit-limb multiplications compute the high 64 bits of the full 128-bit
  product, unsigned and signed, and agree with the variants compiled where 128-bit integers exist.\<close>

theorem mulh_smulh_correct:
  "unat (mulh a b) = unat a * unat b div 2 ^ 64
   \<and> sint (smulh a b) = sint a * sint b div 2 ^ 64
   \<and> mulh_int128 a b = mulh a b \<and> smulh_int128 a b = smulh a b"
  using unat_mulh sint_smulh mulh_int128_eq smulh_int128_eq by blast

subsection \<open>Reciprocal lemmas\<close>

lemma bsr_loop_0: "bsr_loop 0 n = n"
  by (simp add: bsr_loop.simps [of 0])

lemma bsr_loop_spec:
  "\<exists>k. bsr_loop b n = n + k \<and> unat b < 2 ^ k \<and> (b \<noteq> 0 \<longrightarrow> 0 < k \<and> 2 ^ (k - 1) \<le> unat b)"
proof (induction b n rule: bsr_loop.induct)
  case (1 b n)
  show ?case
  proof (cases "b > 0")
    case True
    let ?c = "drop_bit 1 b"
    have c: "unat ?c = unat b div 2" by (simp add: drop_bit_eq_div unat_div_distrib)
    have pos: "0 < unat b" using True by (simp add: word_gt_0 unat_gt_0)
    obtain k where k: "bsr_loop ?c (n + 1) = n + 1 + k" "unat ?c < 2 ^ k" "?c \<noteq> 0 \<Longrightarrow> 0 < k \<and> 2 ^ (k - 1) \<le> unat ?c"
      using 1 True by blast
    have low: "2 ^ k \<le> unat b"
    proof (cases "?c = 0")
      case True
      then have "unat b div 2 = 0" using c by simp
      moreover have "bsr_loop ?c (n + 1) = n + 1" using True by (simp add: bsr_loop_0)
      ultimately show ?thesis using k(1) pos by simp
    next
      case False
      then obtain j where "k = Suc j" "2 ^ j \<le> unat b div 2" using k(3) c by (cases k) auto
      then show ?thesis by simp
    qed
    have "bsr_loop b n = n + Suc k" using True k(1) by (simp add: bsr_loop.simps [of b])
    moreover have "unat b < 2 ^ Suc k" using k(2) c by simp
    ultimately show ?thesis using low by (intro exI [of _ "Suc k"]) simp
  next
    case False
    then show ?thesis by (intro exI [of _ 0]) (simp add: bsr_loop_0 word_gt_0)
  qed
qed

lemma power_of_2_isZeroOrPowerOf2:
  assumes "unat d = 2 ^ k"
  shows "isZeroOrPowerOf2 d"
proof -
  have "(2 :: nat) ^ k < 2 ^ 64" using assms unat_u64_less [of d] by simp
  then have "k < 64" by (rule power_less_imp_less_exp [rotated]) simp
  have "d = of_nat (unat d)" by simp
  then have "d = 2 ^ k" unfolding assms by simp
  then have "d AND (d - 1) = 2 ^ k AND mask k" by (simp add: mask_eq_exp_minus_1)
  also have "\<dots> = take_bit k (2 ^ k)" by (rule take_bit_eq_mask [symmetric])
  also have "\<dots> = 0" by (rule bit_word_eqI) (auto simp: bit_take_bit_iff bit_exp_iff)
  finally show ?thesis by (simp add: isZeroOrPowerOf2_def)
qed

lemma bsr_bounds:
  assumes "\<not> isZeroOrPowerOf2 d"
  shows "2 ^ (bsr_loop d 0 - 1) < unat d" "unat d < 2 ^ bsr_loop d 0" "0 < bsr_loop d 0"
proof -
  have "d \<noteq> 0" using assms by (auto simp: isZeroOrPowerOf2_def)
  then show "unat d < 2 ^ bsr_loop d 0" "0 < bsr_loop d 0" using bsr_loop_spec [of d 0] by auto
  have "unat d \<noteq> 2 ^ (bsr_loop d 0 - 1)" using power_of_2_isZeroOrPowerOf2 assms by blast
  then show "2 ^ (bsr_loop d 0 - 1) < unat d" using \<open>d \<noteq> 0\<close> bsr_loop_spec [of d 0] by auto
qed

lemma mod_mult_add_less: "r < c \<Longrightarrow> (q * c + r) mod c = r" for q c r :: nat
  by simp

lemma double_div_mod:
  fixes d x :: nat
  assumes "0 < d"
  shows "2 * x div d = 2 * (x div d) + (if d \<le> 2 * (x mod d) then 1 else 0)"
    and "2 * x mod d = 2 * (x mod d) - (if d \<le> 2 * (x mod d) then d else 0)"
proof -
  let ?c = "if d \<le> 2 * (x mod d) then 1 else 0 :: nat"
  have lt: "2 * (x mod d) - ?c * d < d" using mod_less_divisor [OF assms, of x] by auto
  have "?c * d \<le> 2 * (x mod d)" by simp
  then have eq: "2 * x = (2 * (x div d) + ?c) * d + (2 * (x mod d) - ?c * d)"
    using div_mult_mod_eq [of x d] unfolding add_mult_distrib mult.assoc by linarith
  show "2 * x div d = 2 * (x div d) + ?c" by (subst eq) (rule div_mult_add_less [OF lt])
  have "2 * x mod d = 2 * (x mod d) - ?c * d" by (subst eq) (rule mod_mult_add_less [OF lt])
  then show "2 * x mod d = 2 * (x mod d) - (if d \<le> 2 * (x mod d) then d else 0)" by simp
qed

lemma recip_turn_step:
  assumes d: "0 < unat d" and x: "unat q = x div unat d" "unat r = x mod unat d" and small: "2 * x div unat d < 2 ^ 64"
    and s: "recip_turn d (q, r) = (q', r')"
  shows "unat q' = 2 * x div unat d \<and> unat r' = 2 * x mod unat d"
proof -
  have rd: "unat r < unat d" using x d by simp
  have sub: "unat (d - r) = unat d - unat r" by (intro unat_sub) (use rd in \<open>simp add: word_le_nat_alt\<close>)
  have c: "d - r \<le> r \<longleftrightarrow> unat d \<le> 2 * (x mod unat d)" unfolding word_le_nat_alt sub using x by auto
  note dm = double_div_mod [OF d, of x]
  show ?thesis
  proof (cases "d - r \<le> r")
    case True
    have q2: "unat (q * 2) = 2 * unat q"
      using unat_mult_small [of q 2] small dm(1) x by (simp split: if_splits)
    have "unat (q * 2 + 1) = 2 * unat q + 1"
      using unat_add_small [of "q * 2" 1] q2 small dm(1) x True c by simp
    moreover have "r * 2 - d = r - (d - r)" by simp
    then have "unat (r * 2 - d) = unat r - (unat d - unat r)" using unat_sub [OF True] sub by (simp only:)
    then have "unat (r * 2 - d) = 2 * unat r - unat d" using rd by linarith
    ultimately show ?thesis using s True c x dm by (simp add: recip_turn_def)
  next
    case False
    have "unat (q * 2) = 2 * unat q" using unat_mult_small [of q 2] small dm(1) x False c by simp
    moreover have "unat (r * 2) = 2 * unat r"
      using unat_mult_small [of r 2] False c x unat_u64_less [of d] by simp
    ultimately show ?thesis using s False c x dm by (simp add: recip_turn_def)
  qed
qed

lemma recip_loop:
  assumes d: "0 < unat d" and small: "2 ^ (63 + n) div unat d < 2 ^ 64"
  defines "st \<equiv> fold (\<lambda>_. recip_turn d) [0..<n] (push_bit 63 1 div d, push_bit 63 1 mod d)"
  shows "unat (fst st) = 2 ^ (63 + n) div unat d \<and> unat (snd st) = 2 ^ (63 + n) mod unat d"
  using small unfolding st_def
proof (induction n)
  case 0
  then show ?case by (simp add: unat_div_distrib unat_mod_distrib)
next
  case (Suc n)
  have "2 ^ (63 + n) div unat d \<le> 2 ^ (63 + Suc n) div unat d" by (intro div_le_mono) simp
  then have "2 ^ (63 + n) div unat d < 2 ^ 64" using Suc.prems by (rule le_less_trans)
  note IH = Suc.IH [OF this]
  obtain q r where qr: "fold (\<lambda>_. recip_turn d) [0..<n] (push_bit 63 1 div d, push_bit 63 1 mod d) = (q, r)"
    by (cases "fold (\<lambda>_. recip_turn d) [0..<n] (push_bit 63 1 div d, push_bit 63 1 mod d)")
  obtain q' r' where s: "recip_turn d (q, r) = (q', r')" by (cases "recip_turn d (q, r)")
  have p: "(2 :: nat) ^ (63 + Suc n) = 2 * 2 ^ (63 + n)" by (simp only: add_Suc_right power_Suc)
  have "unat q' = 2 * 2 ^ (63 + n) div unat d \<and> unat r' = 2 * 2 ^ (63 + n) mod unat d"
    using recip_turn_step [OF d _ _ Suc.prems [unfolded p] s] IH qr by simp
  then show ?case unfolding p using qr s by simp
qed

lemma reciprocal_small:
  assumes "\<not> isZeroOrPowerOf2 d"
  shows "2 ^ (63 + bsr_loop d 0) div unat d < 2 ^ 64"
proof -
  let ?k = "bsr_loop d 0 - 1"
  have k: "63 + bsr_loop d 0 = 64 + ?k" using bsr_bounds(3) [OF assms] by simp
  have "2 ^ 64 * 2 ^ ?k < 2 ^ 64 * unat d" using bsr_bounds(1) [OF assms] by simp
  then have "(2 :: nat) ^ (64 + ?k) < unat d * 2 ^ 64" by (simp only: power_add mult.commute)
  then show ?thesis unfolding k by (simp only: less_mult_imp_div_less mult.commute)
qed

lemma randomx_reciprocal_eq:
  assumes "\<not> isZeroOrPowerOf2 d"
  shows "unat (randomx_reciprocal d) = 2 ^ (63 + bsr_loop d 0) div unat d"
proof -
  have "0 < unat d" using bsr_bounds(1) [OF assms] by auto
  from recip_loop [OF this reciprocal_small [OF assms]] show ?thesis by (simp add: randomx_reciprocal_def)
qed

lemma randomx_reciprocal_fast_eq:
  assumes np: "\<not> isZeroOrPowerOf2 d" and d32: "unat d < 2 ^ 32"
  shows "randomx_reciprocal_fast d = randomx_reciprocal d"
proof -
  let ?k = "bsr_loop d 0" and ?X = "2 ^ 63 :: nat"
  define q r where "q = (push_bit 63 1 :: u64) div d" and "r = (push_bit 63 1 :: u64) mod d"
  have d: "0 < unat d" using bsr_bounds(1) [OF np] by auto
  have qr: "unat q = ?X div unat d" "unat r = ?X mod unat d"
    by (simp_all add: q_def r_def unat_div_distrib unat_mod_distrib)
  have X: "2 ^ (63 + ?k) = (unat q * 2 ^ ?k) * unat d + unat r * 2 ^ ?k"
  proof -
    have "2 ^ (63 + ?k) = (unat q * unat d + unat r) * 2 ^ ?k" unfolding qr by (simp only: div_mult_mod_eq power_add)
    then show ?thesis by (simp only: add_mult_distrib mult.assoc mult.commute [of "unat d"])
  qed
  have div: "2 ^ (63 + ?k) div unat d = unat q * 2 ^ ?k + unat r * 2 ^ ?k div unat d"
    unfolding X using d by simp
  have "(2 :: nat) ^ (?k - 1) < 2 ^ 32" using bsr_bounds(1) [OF np] d32 by simp
  then have "?k - 1 < 32" by (rule power_less_imp_less_exp [rotated]) simp
  then have k: "?k \<le> 32" by simp
  have "unat r * 2 ^ ?k < 2 ^ 32 * 2 ^ 32"
  proof (rule mult_less_le_imp_less)
    show "unat r < 2 ^ 32" using qr(2) d d32 by (metis mod_less_divisor less_trans)
    show "(2 :: nat) ^ ?k \<le> 2 ^ 32" using k by (rule power_increasing) simp
  qed auto
  then have r: "unat (push_bit ?k r) = unat r * 2 ^ ?k"
    by (simp add: unat_push_bit_small)
  have small: "unat q * 2 ^ ?k + unat r * 2 ^ ?k div unat d < 2 ^ 64" using reciprocal_small [OF np] unfolding div .
  then have q: "unat (push_bit ?k q) = unat q * 2 ^ ?k"
    by (simp add: unat_push_bit_small)
  have "unat (randomx_reciprocal_fast d) = unat q * 2 ^ ?k + unat r * 2 ^ ?k div unat d"
    unfolding randomx_reciprocal_fast_def Let_def q_def [symmetric] r_def [symmetric]
    by (subst unat_add_small) (use small in \<open>simp_all add: q r unat_div_distrib\<close>)
  then show ?thesis using randomx_reciprocal_eq [OF np] div by (simp add: word_unat_eq_iff)
qed

text \<open>C37. As its comment promises, \<^verbatim>\<open>randomx_reciprocal\<close> of a 64-bit divisor that is not zero or a
  power of two is \<open>2 ^ x\<close> divided by the divisor for the highest \<open>x\<close> whose quotient fits 64 bits,
  although the quotient is built bit by bit in wrapping words; where the divisor is below \<open>2 ^ 32\<close>,
  as it is in every call, the division-based \<^verbatim>\<open>randomx_reciprocal_fast\<close> returns the same word.\<close>

theorem randomx_reciprocal_correct:
  assumes "\<not> isZeroOrPowerOf2 d"
  shows "(\<exists>x. unat (randomx_reciprocal d) = 2 ^ x div unat d \<and> 2 ^ x div unat d < 2 ^ 64 \<and> 2 ^ 64 \<le> 2 ^ (x + 1) div unat d)
    \<and> (unat d < 2 ^ 32 \<longrightarrow> randomx_reciprocal_fast d = randomx_reciprocal d)"
proof -
  let ?x = "63 + bsr_loop d 0"
  have "0 < unat d" using bsr_bounds(1) [OF assms] by auto
  moreover have "2 ^ 64 * unat d \<le> 2 ^ (?x + 1)"
  proof -
    have "2 ^ 64 * unat d \<le> 2 ^ 64 * 2 ^ bsr_loop d 0" using bsr_bounds(2) [OF assms] by simp
    also have "\<dots> = 2 ^ (64 + bsr_loop d 0)" by (simp only: power_add)
    also have "64 + bsr_loop d 0 = ?x + 1" by simp
    finally show ?thesis .
  qed
  ultimately have "2 ^ 64 \<le> 2 ^ (?x + 1) div unat d" by (simp only: less_eq_div_iff_mult_less_eq)
  then show ?thesis
    using randomx_reciprocal_eq [OF assms] reciprocal_small [OF assms] randomx_reciprocal_fast_eq [OF assms] by blast
qed

theorem randomx_reciprocal_correct_witness:
  "(\<exists>x. unat (randomx_reciprocal 3) = 2 ^ x div 3 \<and> 2 ^ x div 3 < (2 ^ 64 :: nat) \<and> 2 ^ 64 \<le> 2 ^ (x + 1) div (3 :: nat))
    \<and> randomx_reciprocal_fast 3 = randomx_reciprocal 3
    \<and> (\<exists>x. unat (randomx_reciprocal 12884901888) = 2 ^ x div 12884901888)"
proof -
  have u: "unat (3 :: u64) = 3" by simp
  have "\<not> isZeroOrPowerOf2 3" by code_simp
  moreover have "(3 :: nat) < 2 ^ 32" by simp
  moreover have "unat (12884901888 :: u64) = 12884901888" by simp
  moreover have "\<not> isZeroOrPowerOf2 12884901888" by code_simp
  ultimately show ?thesis
    using randomx_reciprocal_correct [of 3, unfolded u] randomx_reciprocal_correct [of 12884901888] by metis
qed

lemma rx_rotations:
  assumes "c < 64"
  shows "rx_rotr64 a c = word_rotr c a" "rx_rotl64 a c = word_rotl c a" "0 < c \<Longrightarrow> blake_rotr64 a c = word_rotr c a"
proof -
  have rot0: "word_rotr 0 a = a" "word_rotl 0 a = a"
    by (auto intro!: bit_word_eqI simp: bit_word_rotr_iff bit_word_rotl_iff dest: bit_imp_le_length)
  have neg: "unat ((- of_nat c :: u32) AND 63) = (if c = 0 then 0 else 64 - c)"
  proof (cases "c = 0")
    case False
    have "- of_nat c = (of_nat (4294967296 - c) :: u32)" using assms by (simp add: of_nat_diff)
    moreover have "unat (of_nat (4294967296 - c) :: u32) = 67108863 * 64 + (64 - c)"
      by (subst unat_of_nat) (use assms False in simp)
    ultimately show ?thesis using False mod_mult_add_less [of "64 - c" 64 67108863] by (simp only: unat_and_63) simp
  qed simp
  show "rx_rotr64 a c = word_rotr c a" "rx_rotl64 a c = word_rotl c a" "0 < c \<Longrightarrow> blake_rotr64 a c = word_rotr c a"
    unfolding rx_rotr64_def rx_rotl64_def blake_rotr64_def neg
    using shift_or_rotr [of c a] shift_or_rotl [of c a] assms rot0 by auto
qed

lemma sint_signExtend2sCompl: "sint (signExtend2sCompl x) = sint x"
  by (simp add: signExtend2sCompl_def sint_up_scast is_up)

end
