(* ===== verification/Rx_Generator.thy ===== *)
theory Rx_Generator
  imports Rx_Prims "HOL-Library.Monad_Syntax"
begin

text \<open>
  The random generator of RandomX (\<^verbatim>\<open>blake2_generator.cpp\<close>): 64 bytes of data that are hashed in
  place when they run out. The hash is the function pointer \<^verbatim>\<open>rx_blake2b\<close> applied to the data, the
  argument \<open>H\<close>. Reads go through \<open>get\<close>, so that \<open>None\<close> is an access outside the data.
\<close>

subsection \<open>Computations that return\<close>

text \<open>\<open>returns m P\<close>: the computation \<open>m\<close> returns, with a result for which \<open>P\<close> holds.\<close>

definition returns :: "'a option \<Rightarrow> ('a \<Rightarrow> bool) \<Rightarrow> bool" where
  "returns m P \<longleftrightarrow> (\<exists>r. m = Some r \<and> P r)"

lemma returns_Some [simp]: "returns (Some x) P \<longleftrightarrow> P x"
  by (simp add: returns_def)

lemma returns_bind: "returns m P \<Longrightarrow> (\<And>r. P r \<Longrightarrow> returns (f r) Q) \<Longrightarrow> returns (m \<bind> f) Q"
  by (auto simp: returns_def)

lemma returns_bind_pair:
  "returns m (\<lambda>(a, b). P a b) \<Longrightarrow> (\<And>a b. P a b \<Longrightarrow> returns (f a b) Q) \<Longrightarrow> returns (m \<bind> (\<lambda>(a, b). f a b)) Q"
  by (auto simp: returns_def)

lemma returns_mono: "returns m P \<Longrightarrow> (\<And>r. P r \<Longrightarrow> Q r) \<Longrightarrow> returns m Q"
  by (auto simp: returns_def)

lemma returns_get: "i < length xs \<Longrightarrow> P (xs ! i) \<Longrightarrow> returns (get xs i) P"
  by simp

lemma returns_put: "i < length xs \<Longrightarrow> P (xs[i := v]) \<Longrightarrow> returns (put xs i v) P"
  by simp

subsection \<open>Generator\<close>

record blake2gen =
  gdata :: "u8 list"
  dataIndex :: nat

definition maxSeedSize :: nat where "maxSeedSize = 60"

definition Blake2Generator :: "u8 list \<Rightarrow> u32 \<Rightarrow> blake2gen" where
  "Blake2Generator seed nonce =
     (let d = replicate 64 0;
          d = blit d 0 (take (if length seed > maxSeedSize then maxSeedSize else length seed) seed);
          d = blit d maxSeedSize (store32 nonce)
      in \<lparr>gdata = d, dataIndex = 64\<rparr>)"

definition checkData :: "(u8 list \<Rightarrow> u8 list) \<Rightarrow> nat \<Rightarrow> blake2gen \<Rightarrow> blake2gen" where
  "checkData H bytesNeeded g =
     (if dataIndex g + bytesNeeded > 64 then \<lparr>gdata = H (gdata g), dataIndex = 0\<rparr> else g)"

definition getByte :: "(u8 list \<Rightarrow> u8 list) \<Rightarrow> blake2gen \<Rightarrow> (u8 \<times> blake2gen) option" where
  "getByte H g =
     (let g = checkData H 1 g
      in do {
        b \<leftarrow> get (gdata g) (dataIndex g);
        Some (b, g\<lparr>dataIndex := dataIndex g + 1\<rparr>)
      })"

definition getUInt32 :: "(u8 list \<Rightarrow> u8 list) \<Rightarrow> blake2gen \<Rightarrow> (u32 \<times> blake2gen) option" where
  "getUInt32 H g =
     (let g = checkData H 4 g
      in if dataIndex g + 4 \<le> length (gdata g)
         then Some (load32 (drop (dataIndex g) (gdata g)), g\<lparr>dataIndex := dataIndex g + 4\<rparr>)
         else None)"

text \<open>The two rejection loops of the instruction generator: a rotation count that is not zero and
  a divisor that is not zero or a power of two. A loop whose stream is rejected forever does not
  return, which is \<open>None\<close>.\<close>

partial_function (option) draw_rotation :: "(u8 list \<Rightarrow> u8 list) \<Rightarrow> blake2gen \<Rightarrow> (u32 \<times> blake2gen) option" where
  "draw_rotation H g = do {
     (b, g) \<leftarrow> getByte H g;
     if ucast b AND 63 = (0 :: u32) then draw_rotation H g else Some (ucast b AND 63, g)
   }"

partial_function (option) draw_divisor :: "(u8 list \<Rightarrow> u8 list) \<Rightarrow> blake2gen \<Rightarrow> (u32 \<times> blake2gen) option" where
  "draw_divisor H g = do {
     (v, g) \<leftarrow> getUInt32 H g;
     if isZeroOrPowerOf2 (ucast v) then draw_divisor H g else Some (v, g)
   }"

subsection \<open>Invariant\<close>

definition gen_ok :: "blake2gen \<Rightarrow> bool" where
  "gen_ok g \<longleftrightarrow> length (gdata g) = 64 \<and> dataIndex g \<le> 64"

text \<open>What the generator relies on of the hash: 64 bytes give 64 bytes.\<close>

definition hash64 :: "(u8 list \<Rightarrow> u8 list) \<Rightarrow> bool" where
  "hash64 H \<longleftrightarrow> (\<forall>d. length d = 64 \<longrightarrow> length (H d) = 64)"

lemma Blake2Generator_ok: "gen_ok (Blake2Generator seed nonce)"
  by (simp add: gen_ok_def Blake2Generator_def Let_def maxSeedSize_def store_le_bytes)

lemma checkData_ok:
  assumes "gen_ok g" "hash64 H" "n \<le> 64"
  shows "gen_ok (checkData H n g)" "dataIndex (checkData H n g) + n \<le> 64"
  using assms by (auto simp: gen_ok_def hash64_def checkData_def)

lemma getByte_ok:
  assumes "gen_ok g" "hash64 H"
  shows "returns (getByte H g) (\<lambda>(b, g'). gen_ok g')"
  using checkData_ok [OF assms, of 1] by (auto simp: getByte_def Let_def gen_ok_def)

lemma getUInt32_ok:
  assumes "gen_ok g" "hash64 H"
  shows "returns (getUInt32 H g) (\<lambda>(v, g'). gen_ok g')"
  using checkData_ok [OF assms, of 4] by (auto simp: getUInt32_def Let_def gen_ok_def)

subsection \<open>Rejection loops\<close>

text \<open>\<open>accepts draw P g\<close>: drawing again and again from \<open>g\<close> reaches a value that satisfies \<open>P\<close>.\<close>

inductive accepts :: "(blake2gen \<Rightarrow> ('v \<times> blake2gen) option) \<Rightarrow> ('v \<Rightarrow> bool) \<Rightarrow> blake2gen \<Rightarrow> bool"
  for draw :: "blake2gen \<Rightarrow> ('v \<times> blake2gen) option" and P :: "'v \<Rightarrow> bool"
where
  now: "draw g = Some (v, g') \<Longrightarrow> P v \<Longrightarrow> accepts draw P g"
| later: "draw g = Some (v, g') \<Longrightarrow> accepts draw P g' \<Longrightarrow> accepts draw P g"

text \<open>The stream of hashes never settles on rejected values.\<close>

definition fair :: "(u8 list \<Rightarrow> u8 list) \<Rightarrow> bool" where
  "fair H \<longleftrightarrow> (\<forall>g. gen_ok g \<longrightarrow>
     accepts (getByte H) (\<lambda>b. ucast b AND 63 \<noteq> (0 :: u32)) g \<and> accepts (getUInt32 H) (\<lambda>v. \<not> isZeroOrPowerOf2 (ucast v)) g)"

lemma draw_rotation_returns:
  assumes "accepts (getByte H) (\<lambda>b. ucast b AND 63 \<noteq> (0 :: u32)) g" "gen_ok g" "hash64 H"
  shows "returns (draw_rotation H g) (\<lambda>(v, g'). gen_ok g' \<and> v \<noteq> 0 \<and> unat v < 64)"
  using assms(1,2)
proof (induction rule: accepts.induct)
  case (now g b g')
  have "unat (ucast b AND 63 :: u32) < 64" unfolding unat_and_63 by simp
  then show ?case using now getByte_ok [OF now(3) assms(3)] by (subst draw_rotation.simps) (simp add: returns_def)
next
  case (later g b g')
  have ok: "gen_ok g'" using getByte_ok [OF later(4) assms(3)] later(1) by (simp add: returns_def)
  have "unat (ucast b AND 63 :: u32) < 64" unfolding unat_and_63 by simp
  then show ?case using later(1,3) ok by (subst draw_rotation.simps) (simp add: returns_def)
qed

lemma draw_divisor_returns:
  assumes "accepts (getUInt32 H) (\<lambda>v. \<not> isZeroOrPowerOf2 (ucast v)) g" "gen_ok g" "hash64 H"
  shows "returns (draw_divisor H g) (\<lambda>(v, g'). gen_ok g' \<and> \<not> isZeroOrPowerOf2 (ucast v))"
  using assms(1,2)
proof (induction rule: accepts.induct)
  case (now g b g')
  then show ?case using getUInt32_ok [OF now(3) assms(3)] by (subst draw_divisor.simps) (simp add: returns_def)
next
  case (later g b g')
  have ok: "gen_ok g'" using getUInt32_ok [OF later(4) assms(3)] later(1) by (simp add: returns_def)
  then show ?case using later(1,3) by (subst draw_divisor.simps) (simp add: returns_def)
qed

end
