(* ===== verification/Rx_Superscalar.thy ===== *)
theory Rx_Superscalar
  imports Rx_Generator
begin

text \<open>
  The generator of superscalar programs and their interpreter (\<^verbatim>\<open>superscalar.cpp\<close>,
  \<^verbatim>\<open>superscalar.hpp\<close>, \<^verbatim>\<open>superscalar_program.hpp\<close>, \<^verbatim>\<open>instruction.hpp\<close>). The generator simulates a
  processor: decode buffers are filled with macro-operations, which are scheduled on three
  execution ports, and registers are chosen among those that are ready. The argument \<open>L\<close> is
  \<^verbatim>\<open>RandomX_CurrentConfig.SuperscalarLatency\<close>, \<open>H\<close> the hash of the generator. Every array access goes
  through \<open>get\<close> and \<open>put\<close>; \<open>None\<close> is an access outside an array, the \<^verbatim>\<open>UNREACHABLE\<close> branch, or a
  rejection loop that does not end.
\<close>

subsection \<open>Instructions\<close>

datatype SuperscalarInstructionType =
  ISUB_R | IXOR_R | IADD_RS | IMUL_R | IROR_C | IADD_C7 | IXOR_C7 | IADD_C8 | IXOR_C8 | IADD_C9 | IXOR_C9
  | IMULH_R | ISMULH_R | IMUL_RCP | INVALID

fun type_code :: "SuperscalarInstructionType \<Rightarrow> int" where
  "type_code ISUB_R = 0" | "type_code IXOR_R = 1" | "type_code IADD_RS = 2" | "type_code IMUL_R = 3"
| "type_code IROR_C = 4" | "type_code IADD_C7 = 5" | "type_code IXOR_C7 = 6" | "type_code IADD_C8 = 7"
| "type_code IXOR_C8 = 8" | "type_code IADD_C9 = 9" | "type_code IXOR_C9 = 10" | "type_code IMULH_R = 11"
| "type_code ISMULH_R = 12" | "type_code IMUL_RCP = 13" | "type_code INVALID = - 1"

record Instruction =
  opcode :: u8
  dst :: u8
  src :: u8
  imod :: u8
  imm32 :: u32

definition getModMem :: "Instruction \<Rightarrow> u32" where "getModMem i = ucast (imod i) AND 3"
definition getModShift :: "Instruction \<Rightarrow> u32" where "getModShift i = drop_bit 2 (ucast (imod i)) AND 3"
definition getModCond :: "Instruction \<Rightarrow> u32" where "getModCond i = drop_bit 4 (ucast (imod i))"

definition isMultiplication :: "SuperscalarInstructionType \<Rightarrow> bool" where
  "isMultiplication t \<longleftrightarrow> t = IMUL_R \<or> t = IMULH_R \<or> t = ISMULH_R \<or> t = IMUL_RCP"

record SuperscalarProgram =
  programBuffer :: "Instruction list"
  psize :: nat
  addrReg :: nat
  codeSize :: nat
  macroOps :: nat
  decodeCycles :: nat
  cpuLatency :: nat
  asicLatency :: nat
  mulCount :: nat
  cpuLatencies :: "nat list"
  asicLatencies :: "nat list"

definition MAX_LATENCY :: nat where "MAX_LATENCY = 256"
definition SuperscalarMaxSize :: nat where "SuperscalarMaxSize = 3 * MAX_LATENCY + 2"
definition RegisterNeedsDisplacement :: nat where "RegisterNeedsDisplacement = 5"
definition CYCLE_MAP_SIZE :: nat where "CYCLE_MAP_SIZE = MAX_LATENCY + 4"
definition LOOK_FORWARD_CYCLES :: nat where "LOOK_FORWARD_CYCLES = 4"
definition MAX_THROWAWAY_COUNT :: nat where "MAX_THROWAWAY_COUNT = 256"

lemmas superscalar_consts [simp] = MAX_LATENCY_def SuperscalarMaxSize_def RegisterNeedsDisplacement_def
  CYCLE_MAP_SIZE_def LOOK_FORWARD_CYCLES_def MAX_THROWAWAY_COUNT_def

subsection \<open>Macro-operations\<close>

text \<open>The execution ports a micro-operation can go to, as a bit set.\<close>

record ports =
  onP0 :: bool
  onP1 :: bool
  onP5 :: bool

definition PNull :: ports where "PNull = \<lparr>onP0 = False, onP1 = False, onP5 = False\<rparr>"
definition P1 :: ports where "P1 = \<lparr>onP0 = False, onP1 = True, onP5 = False\<rparr>"
definition P5 :: ports where "P5 = \<lparr>onP0 = False, onP1 = False, onP5 = True\<rparr>"
definition P01 :: ports where "P01 = \<lparr>onP0 = True, onP1 = True, onP5 = False\<rparr>"
definition P05 :: ports where "P05 = \<lparr>onP0 = True, onP1 = False, onP5 = True\<rparr>"
definition P015 :: ports where "P015 = \<lparr>onP0 = True, onP1 = True, onP5 = True\<rparr>"

record MacroOp =
  mop_size :: nat
  mop_latency :: nat
  uop1 :: ports
  uop2 :: ports
  dependent :: bool

definition mop_mov :: "nat \<Rightarrow> MacroOp" where
  "mop_mov s = \<lparr>mop_size = s, mop_latency = 0, uop1 = PNull, uop2 = PNull, dependent = False\<rparr>"
definition mop_one :: "nat \<Rightarrow> nat \<Rightarrow> ports \<Rightarrow> MacroOp" where
  "mop_one s l u = \<lparr>mop_size = s, mop_latency = l, uop1 = u, uop2 = PNull, dependent = False\<rparr>"
definition mop_two :: "nat \<Rightarrow> nat \<Rightarrow> ports \<Rightarrow> ports \<Rightarrow> MacroOp" where
  "mop_two s l u v = \<lparr>mop_size = s, mop_latency = l, uop1 = u, uop2 = v, dependent = False\<rparr>"

definition isSimple :: "MacroOp \<Rightarrow> bool" where "isSimple m \<longleftrightarrow> uop2 m = PNull"
definition isEliminated :: "MacroOp \<Rightarrow> bool" where "isEliminated m \<longleftrightarrow> uop1 m = PNull"

definition Add_rr :: MacroOp where "Add_rr = mop_one 3 1 P015"
definition Sub_rr :: MacroOp where "Sub_rr = mop_one 3 1 P015"
definition Xor_rr :: MacroOp where "Xor_rr = mop_one 3 1 P015"
definition Imul_r :: MacroOp where "Imul_r = mop_two 3 4 P1 P5"
definition Mul_r :: MacroOp where "Mul_r = mop_two 3 4 P1 P5"
definition Mov_rr :: MacroOp where "Mov_rr = mop_mov 3"
definition Lea_sib :: MacroOp where "Lea_sib = mop_one 4 1 P01"
definition Imul_rr :: MacroOp where "Imul_rr = mop_one 4 3 P1"
definition Ror_ri :: MacroOp where "Ror_ri = mop_one 4 1 P05"
definition Add_ri :: MacroOp where "Add_ri = mop_one 7 1 P015"
definition Xor_ri :: MacroOp where "Xor_ri = mop_one 7 1 P015"
definition Mov_ri64 :: MacroOp where "Mov_ri64 = mop_one 10 1 P015"

record SuperscalarInstructionInfo =
  itype :: SuperscalarInstructionType
  iops :: "MacroOp list"
  ilatency :: nat
  resultOp :: nat
  dstOp :: nat
  srcOp :: int

definition info_one :: "SuperscalarInstructionType \<Rightarrow> MacroOp \<Rightarrow> int \<Rightarrow> SuperscalarInstructionInfo" where
  "info_one t m s = \<lparr>itype = t, iops = [m], ilatency = mop_latency m, resultOp = 0, dstOp = 0, srcOp = s\<rparr>"
definition info_many :: "SuperscalarInstructionType \<Rightarrow> MacroOp list \<Rightarrow> nat \<Rightarrow> nat \<Rightarrow> int \<Rightarrow> SuperscalarInstructionInfo" where
  "info_many t ms r d s = \<lparr>itype = t, iops = ms, ilatency = sum_list (map mop_latency ms), resultOp = r, dstOp = d, srcOp = s\<rparr>"

text \<open>The table of instruction descriptions, indexed by their type; \<open>INVALID\<close> is \<^verbatim>\<open>NOP\<close>.\<close>

fun info_of :: "SuperscalarInstructionType \<Rightarrow> SuperscalarInstructionInfo" where
  "info_of ISUB_R = info_one ISUB_R Sub_rr 0"
| "info_of IXOR_R = info_one IXOR_R Xor_rr 0"
| "info_of IADD_RS = info_one IADD_RS Lea_sib 0"
| "info_of IMUL_R = info_one IMUL_R Imul_rr 0"
| "info_of IROR_C = info_one IROR_C Ror_ri (- 1)"
| "info_of IADD_C7 = info_one IADD_C7 Add_ri (- 1)"
| "info_of IXOR_C7 = info_one IXOR_C7 Xor_ri (- 1)"
| "info_of IADD_C8 = info_one IADD_C8 Add_ri (- 1)"
| "info_of IXOR_C8 = info_one IXOR_C8 Xor_ri (- 1)"
| "info_of IADD_C9 = info_one IADD_C9 Add_ri (- 1)"
| "info_of IXOR_C9 = info_one IXOR_C9 Xor_ri (- 1)"
| "info_of IMULH_R = info_many IMULH_R [Mov_rr, Mul_r, Mov_rr] 1 0 1"
| "info_of ISMULH_R = info_many ISMULH_R [Mov_rr, Imul_r, Mov_rr] 1 0 1"
| "info_of IMUL_RCP = info_many IMUL_RCP [Mov_ri64, Imul_rr\<lparr>dependent := True\<rparr>] 1 1 (- 1)"
| "info_of INVALID = \<lparr>itype = INVALID, iops = [], ilatency = 0, resultOp = 0, dstOp = 0, srcOp = 0\<rparr>"

subsection \<open>Decode buffers\<close>

record DecoderBuffer =
  index :: int
  counts :: "nat list"

definition decodeBuffer484 :: DecoderBuffer where "decodeBuffer484 = \<lparr>index = 0, counts = [4, 8, 4]\<rparr>"
definition decodeBuffer7333 :: DecoderBuffer where "decodeBuffer7333 = \<lparr>index = 1, counts = [7, 3, 3, 3]\<rparr>"
definition decodeBuffer3733 :: DecoderBuffer where "decodeBuffer3733 = \<lparr>index = 2, counts = [3, 7, 3, 3]\<rparr>"
definition decodeBuffer493 :: DecoderBuffer where "decodeBuffer493 = \<lparr>index = 3, counts = [4, 9, 3]\<rparr>"
definition decodeBuffer4444 :: DecoderBuffer where "decodeBuffer4444 = \<lparr>index = 4, counts = [4, 4, 4, 4]\<rparr>"
definition decodeBuffer3310 :: DecoderBuffer where "decodeBuffer3310 = \<lparr>index = 5, counts = [3, 3, 10]\<rparr>"
definition decodeBuffers :: "DecoderBuffer list" where
  "decodeBuffers = [decodeBuffer484, decodeBuffer7333, decodeBuffer3733, decodeBuffer493]"
definition Default :: DecoderBuffer where "Default = \<lparr>index = - 1, counts = []\<rparr>"

definition fetchNextDefault :: "(u8 list \<Rightarrow> u8 list) \<Rightarrow> blake2gen \<Rightarrow> (DecoderBuffer \<times> blake2gen) option" where
  "fetchNextDefault H g = do {
     (b, g) \<leftarrow> getByte H g;
     d \<leftarrow> get decodeBuffers (unat (b AND 3));
     Some (d, g)
   }"

definition fetchNext :: "(u8 list \<Rightarrow> u8 list) \<Rightarrow> SuperscalarInstructionType \<Rightarrow> nat \<Rightarrow> nat \<Rightarrow> blake2gen \<Rightarrow> (DecoderBuffer \<times> blake2gen) option" where
  "fetchNext H instrType cyc mulcount g =
     (if instrType = IMULH_R \<or> instrType = ISMULH_R then Some (decodeBuffer3310, g)
      else if mulcount < cyc + 1 then Some (decodeBuffer4444, g)
      else if instrType = IMUL_RCP then do {
        (b, g) \<leftarrow> getByte H g;
        Some (if b AND 1 \<noteq> 0 then decodeBuffer484 else decodeBuffer493, g)
      }
      else fetchNextDefault H g)"

subsection \<open>Choosing an instruction\<close>

record SuperscalarInstruction =
  si_type :: SuperscalarInstructionType
  si_src :: int
  si_dst :: int
  si_mod :: u8
  si_imm32 :: u32
  opGroup :: SuperscalarInstructionType
  opGroupPar :: int
  canReuse :: bool
  groupParIsSource :: bool

text \<open>\<^verbatim>\<open>info_\<close> points to the description of the type.\<close>

abbreviation si_info :: "SuperscalarInstruction \<Rightarrow> SuperscalarInstructionInfo" where
  "si_info i \<equiv> info_of (si_type i)"

definition Null_instruction :: SuperscalarInstruction where
  "Null_instruction = \<lparr>si_type = INVALID, si_src = - 1, si_dst = - 1, si_mod = 0, si_imm32 = 0,
     opGroup = INVALID, opGroupPar = 0, canReuse = False, groupParIsSource = False\<rparr>"

definition toInstr :: "SuperscalarInstruction \<Rightarrow> Instruction" where
  "toInstr i = \<lparr>opcode = of_int (type_code (si_type i)), dst = of_int (si_dst i),
     src = of_int (if si_src i \<ge> 0 then si_src i else si_dst i), imod = si_mod i, imm32 = si_imm32 i\<rparr>"

definition create :: "(u8 list \<Rightarrow> u8 list) \<Rightarrow> SuperscalarInstructionType \<Rightarrow> SuperscalarInstruction \<Rightarrow> blake2gen \<Rightarrow> (SuperscalarInstruction \<times> blake2gen) option" where
  "create H t i g =
     (let i = i\<lparr>si_type := t\<rparr>;
          i = i\<lparr>si_src := - 1, si_dst := - 1, canReuse := False, groupParIsSource := False\<rparr>
      in case t of
        ISUB_R \<Rightarrow> Some (i\<lparr>si_mod := 0, si_imm32 := 0, opGroup := IADD_RS, groupParIsSource := True\<rparr>, g)
      | IXOR_R \<Rightarrow> Some (i\<lparr>si_mod := 0, si_imm32 := 0, opGroup := IXOR_R, groupParIsSource := True\<rparr>, g)
      | IADD_RS \<Rightarrow> do {
          (b, g) \<leftarrow> getByte H g;
          Some (i\<lparr>si_mod := b, si_imm32 := 0, opGroup := IADD_RS, groupParIsSource := True\<rparr>, g)
        }
      | IMUL_R \<Rightarrow> Some (i\<lparr>si_mod := 0, si_imm32 := 0, opGroup := IMUL_R, groupParIsSource := True\<rparr>, g)
      | IROR_C \<Rightarrow> do {
          (v, g) \<leftarrow> draw_rotation H g;
          Some (i\<lparr>si_mod := 0, si_imm32 := v, opGroup := IROR_C, opGroupPar := - 1\<rparr>, g)
        }
      | IMULH_R \<Rightarrow> do {
          (v, g) \<leftarrow> getUInt32 H g;
          Some (i\<lparr>canReuse := True, si_mod := 0, si_imm32 := 0, opGroup := IMULH_R, opGroupPar := sint v\<rparr>, g)
        }
      | ISMULH_R \<Rightarrow> do {
          (v, g) \<leftarrow> getUInt32 H g;
          Some (i\<lparr>canReuse := True, si_mod := 0, si_imm32 := 0, opGroup := ISMULH_R, opGroupPar := sint v\<rparr>, g)
        }
      | IMUL_RCP \<Rightarrow> do {
          (v, g) \<leftarrow> draw_divisor H g;
          Some (i\<lparr>si_mod := 0, si_imm32 := v, opGroup := IMUL_RCP, opGroupPar := - 1\<rparr>, g)
        }
      | INVALID \<Rightarrow> Some (i, g)
      | _ \<Rightarrow> do {
          (v, g) \<leftarrow> getUInt32 H g;
          Some (i\<lparr>si_mod := 0, si_imm32 := v,
                  opGroup := (if t = IADD_C7 \<or> t = IADD_C8 \<or> t = IADD_C9 then IADD_C7 else IXOR_C7), opGroupPar := - 1\<rparr>, g)
        })"

definition slot_3 :: "SuperscalarInstructionType list" where "slot_3 = [ISUB_R, IXOR_R]"
definition slot_3L :: "SuperscalarInstructionType list" where "slot_3L = [ISUB_R, IXOR_R, IMULH_R, ISMULH_R]"
definition slot_4 :: "SuperscalarInstructionType list" where "slot_4 = [IROR_C, IADD_RS]"
definition slot_7 :: "SuperscalarInstructionType list" where "slot_7 = [IXOR_C7, IADD_C7]"
definition slot_8 :: "SuperscalarInstructionType list" where "slot_8 = [IXOR_C8, IADD_C8]"
definition slot_9 :: "SuperscalarInstructionType list" where "slot_9 = [IXOR_C9, IADD_C9]"
definition slot_10 :: SuperscalarInstructionType where "slot_10 = IMUL_RCP"

definition create_from :: "(u8 list \<Rightarrow> u8 list) \<Rightarrow> SuperscalarInstructionType list \<Rightarrow> u8 \<Rightarrow> SuperscalarInstruction \<Rightarrow> blake2gen \<Rightarrow> (SuperscalarInstruction \<times> blake2gen) option" where
  "create_from H slot m i g = do {
     (b, g) \<leftarrow> getByte H g;
     t \<leftarrow> get slot (unat (b AND m));
     create H t i g
   }"

definition createForSlot :: "(u8 list \<Rightarrow> u8 list) \<Rightarrow> nat \<Rightarrow> int \<Rightarrow> bool \<Rightarrow> bool \<Rightarrow> SuperscalarInstruction \<Rightarrow> blake2gen \<Rightarrow> (SuperscalarInstruction \<times> blake2gen) option" where
  "createForSlot H slotSize fetchType isLast isFirst i g =
     (if slotSize = 3 then
        if isLast then create_from H slot_3L 3 i g else create_from H slot_3 1 i g
      else if slotSize = 4 then
        if fetchType = 4 \<and> \<not> isLast then create H IMUL_R i g else create_from H slot_4 1 i g
      else if slotSize = 7 then create_from H slot_7 1 i g
      else if slotSize = 8 then create_from H slot_8 1 i g
      else if slotSize = 9 then create_from H slot_9 1 i g
      else if slotSize = 10 then create H slot_10 i g
      else None)"

subsection \<open>Choosing registers\<close>

record RegisterInfo =
  latency :: nat
  lastOpGroup :: SuperscalarInstructionType
  lastOpPar :: int

definition selectRegister :: "(u8 list \<Rightarrow> u8 list) \<Rightarrow> nat list \<Rightarrow> blake2gen \<Rightarrow> (nat option \<times> blake2gen) option" where
  "selectRegister H availableRegisters g =
     (if length availableRegisters = 0 then Some (None, g)
      else if length availableRegisters > 1 then do {
        (v, g) \<leftarrow> getUInt32 H g;
        r \<leftarrow> get availableRegisters (unat v mod length availableRegisters);
        Some (Some r, g)
      }
      else do {
        r \<leftarrow> get availableRegisters 0;
        Some (Some r, g)
      })"

definition dst_available :: "nat \<Rightarrow> bool \<Rightarrow> RegisterInfo list \<Rightarrow> SuperscalarInstruction \<Rightarrow> nat list" where
  "dst_available cyc allowChainedMul regs ins =
     filter (\<lambda>i. latency (regs ! i) \<le> cyc \<and> (canReuse ins \<or> int i \<noteq> si_src ins)
         \<and> (allowChainedMul \<or> opGroup ins \<noteq> IMUL_R \<or> lastOpGroup (regs ! i) \<noteq> IMUL_R)
         \<and> (lastOpGroup (regs ! i) \<noteq> opGroup ins \<or> lastOpPar (regs ! i) \<noteq> opGroupPar ins)
         \<and> (si_type ins \<noteq> IADD_RS \<or> i \<noteq> RegisterNeedsDisplacement)) [0..<8]"

definition selectDestination :: "(u8 list \<Rightarrow> u8 list) \<Rightarrow> nat \<Rightarrow> bool \<Rightarrow> RegisterInfo list \<Rightarrow> SuperscalarInstruction \<Rightarrow> blake2gen \<Rightarrow> (bool \<times> SuperscalarInstruction \<times> blake2gen) option" where
  "selectDestination H cyc allowChainedMul regs ins g = do {
     (r, g) \<leftarrow> selectRegister H (dst_available cyc allowChainedMul regs ins) g;
     Some (case r of None \<Rightarrow> (False, ins, g) | Some d \<Rightarrow> (True, ins\<lparr>si_dst := int d\<rparr>, g))
   }"

definition src_available :: "nat \<Rightarrow> RegisterInfo list \<Rightarrow> nat list" where
  "src_available cyc regs = filter (\<lambda>i. latency (regs ! i) \<le> cyc) [0..<8]"

definition selectSource :: "(u8 list \<Rightarrow> u8 list) \<Rightarrow> nat \<Rightarrow> RegisterInfo list \<Rightarrow> SuperscalarInstruction \<Rightarrow> blake2gen \<Rightarrow> (bool \<times> SuperscalarInstruction \<times> blake2gen) option" where
  "selectSource H cyc regs ins g =
     (let av = src_available cyc regs
      in if length av = 2 \<and> si_type ins = IADD_RS
            \<and> (av ! 0 = RegisterNeedsDisplacement \<or> av ! 1 = RegisterNeedsDisplacement)
         then Some (True, ins\<lparr>si_src := int RegisterNeedsDisplacement, opGroupPar := int RegisterNeedsDisplacement\<rparr>, g)
         else do {
           (r, g) \<leftarrow> selectRegister H av g;
           Some (case r of
               None \<Rightarrow> (False, ins, g)
             | Some s \<Rightarrow>
                 let ins = ins\<lparr>si_src := int s\<rparr>
                 in (True, if groupParIsSource ins then ins\<lparr>opGroupPar := si_src ins\<rparr> else ins, g))
         })"

subsection \<open>Scheduling\<close>

text \<open>A row per cycle, with a flag for each of the ports P0, P1 and P5.\<close>

type_synonym port_map = "bool list list"

definition port_busy :: "port_map \<Rightarrow> nat \<Rightarrow> nat \<Rightarrow> bool option" where
  "port_busy pb cyc p = do { row \<leftarrow> get pb cyc; get row p }"

definition port_take :: "bool \<Rightarrow> port_map \<Rightarrow> nat \<Rightarrow> nat \<Rightarrow> port_map option" where
  "port_take commit pb cyc p =
     (if commit then do { row \<leftarrow> get pb cyc; row \<leftarrow> put row p True; put pb cyc row } else Some pb)"

text \<open>\<^verbatim>\<open>scheduleUop<commit>\<close>: the cycle found, \<open>None\<close> for the source's -1, and the port map.\<close>

function scheduleUop :: "bool \<Rightarrow> nat \<Rightarrow> ports \<Rightarrow> port_map \<Rightarrow> nat \<Rightarrow> (nat option \<times> port_map) option" where
  "scheduleUop commit L uop pb cyc =
     (if cyc < L + 4 then do {
        b5 \<leftarrow> port_busy pb cyc 2;
        b0 \<leftarrow> port_busy pb cyc 0;
        b1 \<leftarrow> port_busy pb cyc 1;
        if onP5 uop \<and> \<not> b5 then do { pb \<leftarrow> port_take commit pb cyc 2; Some (Some cyc, pb) }
        else if onP0 uop \<and> \<not> b0 then do { pb \<leftarrow> port_take commit pb cyc 0; Some (Some cyc, pb) }
        else if onP1 uop \<and> \<not> b1 then do { pb \<leftarrow> port_take commit pb cyc 1; Some (Some cyc, pb) }
        else scheduleUop commit L uop pb (cyc + 1)
      }
      else Some (None, pb))"
  by pat_completeness auto

termination
  by (relation "measure (\<lambda>(_, L, _, _, cyc). L + 4 - cyc)") auto

declare scheduleUop.simps [simp del]

function schedule_both :: "bool \<Rightarrow> nat \<Rightarrow> ports \<Rightarrow> ports \<Rightarrow> port_map \<Rightarrow> nat \<Rightarrow> (nat option \<times> port_map) option" where
  "schedule_both commit L u v pb cyc =
     (if cyc < L + 4 then do {
        (cycle1, _) \<leftarrow> scheduleUop False L u pb cyc;
        (cycle2, _) \<leftarrow> scheduleUop False L v pb cyc;
        if cycle1 \<noteq> None \<and> cycle1 = cycle2 then
          if commit then do {
            (_, pb) \<leftarrow> scheduleUop True L u pb (the cycle1);
            (_, pb) \<leftarrow> scheduleUop True L v pb (the cycle2);
            Some (cycle1, pb)
          }
          else Some (cycle1, pb)
        else schedule_both commit L u v pb (cyc + 1)
      }
      else Some (None, pb))"
  by pat_completeness auto

termination
  by (relation "measure (\<lambda>(_, L, _, _, _, cyc). L + 4 - cyc)") auto

declare schedule_both.simps [simp del]

definition scheduleMop :: "bool \<Rightarrow> nat \<Rightarrow> MacroOp \<Rightarrow> port_map \<Rightarrow> nat \<Rightarrow> nat \<Rightarrow> (nat option \<times> port_map) option" where
  "scheduleMop commit L mop pb cyc depCycle =
     (let cyc = (if dependent mop then (if cyc > depCycle then cyc else depCycle) else cyc)
      in if isEliminated mop then Some (Some cyc, pb)
         else if isSimple mop then scheduleUop commit L (uop1 mop) pb cyc
         else schedule_both commit L (uop1 mop) (uop2 mop) pb cyc)"

subsection \<open>State of the generator\<close>

record sgen =
  gen :: blake2gen
  portBusy :: port_map
  registers :: "RegisterInfo list"
  decodeBuffer :: DecoderBuffer
  currentInstruction :: SuperscalarInstruction
  macroOpIndex :: nat
  scodeSize :: nat
  macroOpCount :: nat
  cycle :: nat
  depCycle :: nat
  retireCycle :: nat
  portsSaturated :: bool
  prog :: "Instruction list"
  programSize :: nat
  smulCount :: nat
  throwAwayCount :: nat

abbreviation cur_size :: "sgen \<Rightarrow> nat" where
  "cur_size s \<equiv> length (iops (si_info (currentInstruction s)))"

text \<open>A new instruction when all macro-operations of the current one are issued; \<open>False\<close> is the
  \<^verbatim>\<open>break\<close> of a finished program.\<close>

definition new_instruction :: "(u8 list \<Rightarrow> u8 list) \<Rightarrow> nat \<Rightarrow> nat \<Rightarrow> sgen \<Rightarrow> (bool \<times> sgen) option" where
  "new_instruction H L bi s =
     (if macroOpIndex s \<ge> cur_size s then
        if portsSaturated s \<or> programSize s \<ge> 3 * L + 2 then Some (False, s)
        else do {
          c \<leftarrow> get (counts (decodeBuffer s)) bi;
          (i, g) \<leftarrow> createForSlot H c (index (decodeBuffer s)) (length (counts (decodeBuffer s)) = bi + 1) (bi = 0)
                       (currentInstruction s) (gen s);
          Some (True, s\<lparr>currentInstruction := i, gen := g, macroOpIndex := 0\<rparr>)
        }
      else Some (True, s))"

text \<open>The search for an operand: up to four cycles are tried, then the instruction is thrown away,
  or the decode buffer is left after too many throws in a row.\<close>

datatype outcome = Found nat | Throw | Abort

fun look_forward :: "(nat \<Rightarrow> sgen \<Rightarrow> (bool \<times> sgen) option) \<Rightarrow> nat \<Rightarrow> nat \<Rightarrow> sgen \<Rightarrow> (bool \<times> nat \<times> sgen) option" where
  "look_forward sel 0 sc s = Some (False, sc, s)"
| "look_forward sel (Suc k) sc s = do {
     (ok, s) \<leftarrow> sel sc s;
     if ok then Some (True, sc, s) else look_forward sel k (sc + 1) (s\<lparr>cycle := cycle s + 1\<rparr>)
   }"

definition operand_step :: "(nat \<Rightarrow> sgen \<Rightarrow> (bool \<times> sgen) option) \<Rightarrow> nat \<Rightarrow> sgen \<Rightarrow> (outcome \<times> sgen) option" where
  "operand_step sel sc s = do {
     (ok, sc, s) \<leftarrow> look_forward sel LOOK_FORWARD_CYCLES sc s;
     if ok then Some (Found sc, s)
     else if throwAwayCount s < MAX_THROWAWAY_COUNT then
       Some (Throw, s\<lparr>throwAwayCount := throwAwayCount s + 1, macroOpIndex := cur_size s\<rparr>)
     else Some (Abort, s\<lparr>currentInstruction := Null_instruction\<rparr>)
   }"

definition try_source :: "(u8 list \<Rightarrow> u8 list) \<Rightarrow> nat \<Rightarrow> sgen \<Rightarrow> (bool \<times> sgen) option" where
  "try_source H sc s = do {
     (ok, i, g) \<leftarrow> selectSource H sc (registers s) (currentInstruction s) (gen s);
     Some (ok, s\<lparr>currentInstruction := i, gen := g\<rparr>)
   }"

definition try_destination :: "(u8 list \<Rightarrow> u8 list) \<Rightarrow> nat \<Rightarrow> sgen \<Rightarrow> (bool \<times> sgen) option" where
  "try_destination H sc s = do {
     (ok, i, g) \<leftarrow> selectDestination H sc (throwAwayCount s > 0) (registers s) (currentInstruction s) (gen s);
     Some (ok, s\<lparr>currentInstruction := i, gen := g\<rparr>)
   }"

text \<open>The register that receives the result.\<close>

definition retire :: "sgen \<Rightarrow> sgen option" where
  "retire s =
     (if macroOpIndex s = resultOp (si_info (currentInstruction s)) then
        if si_dst (currentInstruction s) < 0 then None
        else do {
          rs \<leftarrow> put (registers s) (nat (si_dst (currentInstruction s)))
                  \<lparr>latency = depCycle s, lastOpGroup = opGroup (currentInstruction s),
                   lastOpPar = opGroupPar (currentInstruction s)\<rparr>;
          Some (s\<lparr>retireCycle := depCycle s, registers := rs\<rparr>)
        }
      else Some s)"

text \<open>A complete instruction is appended to the program.\<close>

definition emit :: "sgen \<Rightarrow> sgen option" where
  "emit s =
     (if macroOpIndex s \<ge> cur_size s then do {
        p \<leftarrow> put (prog s) (programSize s) (toInstr (currentInstruction s));
        Some (s\<lparr>prog := p, programSize := programSize s + 1,
                smulCount := smulCount s + (if isMultiplication (si_type (currentInstruction s)) then 1 else 0)\<rparr>)
      }
      else Some s)"

definition commit_step :: "nat \<Rightarrow> MacroOp \<Rightarrow> nat \<Rightarrow> nat \<Rightarrow> nat \<Rightarrow> sgen \<Rightarrow> (bool \<times> nat \<times> sgen) option" where
  "commit_step L mop topCycle bi sc s =
     (let s = s\<lparr>throwAwayCount := 0\<rparr> in do {
        (sc, pb) \<leftarrow> scheduleMop True L mop (portBusy s) sc sc;
        let s = s\<lparr>portBusy := pb\<rparr>;
        case sc of
          None \<Rightarrow> Some (False, bi, s\<lparr>portsSaturated := True\<rparr>)
        | Some sc \<Rightarrow> do {
            s \<leftarrow> retire (s\<lparr>depCycle := sc + mop_latency mop\<rparr>);
            let s = s\<lparr>scodeSize := scodeSize s + mop_size mop, macroOpIndex := macroOpIndex s + 1,
                      macroOpCount := macroOpCount s + 1,
                      portsSaturated := (portsSaturated s \<or> sc \<ge> L), cycle := topCycle\<rparr>;
            s \<leftarrow> emit s;
            Some (True, bi + 1, s)
          }
      })"

text \<open>The source and the destination register, when the macro-operation needs them.\<close>

definition destination_step :: "(u8 list \<Rightarrow> u8 list) \<Rightarrow> nat \<Rightarrow> MacroOp \<Rightarrow> nat \<Rightarrow> nat \<Rightarrow> nat \<Rightarrow> sgen \<Rightarrow> (bool \<times> nat \<times> sgen) option" where
  "destination_step H L mop topCycle bi sc s = do {
     (r, s) \<leftarrow> (if macroOpIndex s = dstOp (si_info (currentInstruction s))
                then operand_step (try_destination H) sc s else Some (Found sc, s));
     case r of
       Throw \<Rightarrow> Some (True, bi, s)
     | Abort \<Rightarrow> Some (False, bi, s)
     | Found sc \<Rightarrow> commit_step L mop topCycle bi sc s
   }"

definition source_step :: "(u8 list \<Rightarrow> u8 list) \<Rightarrow> nat \<Rightarrow> MacroOp \<Rightarrow> nat \<Rightarrow> nat \<Rightarrow> nat \<Rightarrow> sgen \<Rightarrow> (bool \<times> nat \<times> sgen) option" where
  "source_step H L mop topCycle bi sc s = do {
     (r, s) \<leftarrow> (if int (macroOpIndex s) = srcOp (si_info (currentInstruction s))
                then operand_step (try_source H) sc s else Some (Found sc, s));
     case r of
       Throw \<Rightarrow> Some (True, bi, s)
     | Abort \<Rightarrow> Some (False, bi, s)
     | Found sc \<Rightarrow> destination_step H L mop topCycle bi sc s
   }"

text \<open>One turn of the loop over the slots of a decode buffer: whether the loop goes on, the slot
  and the state.\<close>

definition slot_body :: "(u8 list \<Rightarrow> u8 list) \<Rightarrow> nat \<Rightarrow> nat \<Rightarrow> sgen \<Rightarrow> (bool \<times> nat \<times> sgen) option" where
  "slot_body H L bi s =
     (let topCycle = cycle s in do {
        (go, s) \<leftarrow> new_instruction H L bi s;
        if \<not> go then Some (False, bi, s)
        else do {
          mop \<leftarrow> get (iops (si_info (currentInstruction s))) (macroOpIndex s);
          (sc, _) \<leftarrow> scheduleMop False L mop (portBusy s) (cycle s) (depCycle s);
          case sc of
            None \<Rightarrow> Some (False, bi, s\<lparr>portsSaturated := True\<rparr>)
          | Some sc \<Rightarrow> source_step H L mop topCycle bi sc s
        }
      })"

subsection \<open>The slot loop ends\<close>

text \<open>What a turn does to the loop variables: the slot advances and the count of throws is reset, or
  one more instruction is thrown away.\<close>

lemma new_instruction_frame:
  "new_instruction H L bi s = Some (go, s') \<Longrightarrow> decodeBuffer s' = decodeBuffer s \<and> throwAwayCount s' = throwAwayCount s"
  by (auto simp: new_instruction_def split: if_splits bind_splits)

lemma look_forward_frame:
  assumes "\<And>sc s ok s'. sel sc s = Some (ok, s') \<Longrightarrow> decodeBuffer s' = decodeBuffer s \<and> throwAwayCount s' = throwAwayCount s"
  shows "look_forward sel k sc s = Some (ok, sc', s') \<Longrightarrow> decodeBuffer s' = decodeBuffer s \<and> throwAwayCount s' = throwAwayCount s"
proof (induction k arbitrary: sc s)
  case (Suc k)
  then show ?case using assms by (auto split: if_splits bind_splits)
qed simp

lemma try_frame:
  "try_source H sc s = Some (ok, s') \<Longrightarrow> decodeBuffer s' = decodeBuffer s \<and> throwAwayCount s' = throwAwayCount s"
  "try_destination H sc s = Some (ok, s') \<Longrightarrow> decodeBuffer s' = decodeBuffer s \<and> throwAwayCount s' = throwAwayCount s"
  by (auto simp: try_source_def try_destination_def split: bind_splits)

lemma operand_step_frame:
  assumes "operand_step sel sc s = Some (r, s')" and "sel = try_source H \<or> sel = try_destination H"
  shows "decodeBuffer s' = decodeBuffer s"
    and "r = Throw \<Longrightarrow> throwAwayCount s < 256 \<and> throwAwayCount s' = Suc (throwAwayCount s)"
    and "r = Found sc' \<Longrightarrow> throwAwayCount s' = throwAwayCount s"
proof -
  obtain ok sc1 s1 where l: "look_forward sel LOOK_FORWARD_CYCLES sc s = Some (ok, sc1, s1)"
    using assms(1) by (auto simp: operand_step_def split: bind_splits)
  have f: "decodeBuffer s1 = decodeBuffer s \<and> throwAwayCount s1 = throwAwayCount s"
    using look_forward_frame [OF _ l] try_frame assms(2) by blast
  show "decodeBuffer s' = decodeBuffer s"
    "r = Throw \<Longrightarrow> throwAwayCount s < 256 \<and> throwAwayCount s' = Suc (throwAwayCount s)"
    "r = Found sc' \<Longrightarrow> throwAwayCount s' = throwAwayCount s"
    using assms(1) l f by (auto simp: operand_step_def split: if_splits)
qed

text \<open>The loop variables after a turn that goes on.\<close>

definition progress :: "nat \<Rightarrow> sgen \<Rightarrow> nat \<Rightarrow> sgen \<Rightarrow> bool" where
  "progress bi s bi' s' \<longleftrightarrow> decodeBuffer s' = decodeBuffer s
     \<and> (bi' = Suc bi \<and> throwAwayCount s' = 0 \<or> bi' = bi \<and> throwAwayCount s < 256 \<and> throwAwayCount s' = Suc (throwAwayCount s))"

lemma retire_emit_frame:
  "retire s = Some s' \<Longrightarrow> decodeBuffer s' = decodeBuffer s \<and> throwAwayCount s' = throwAwayCount s"
  "emit s = Some s' \<Longrightarrow> decodeBuffer s' = decodeBuffer s \<and> throwAwayCount s' = throwAwayCount s"
  by (auto simp: retire_def emit_def bind_eq_Some_conv split: if_splits)

lemma commit_step_progress:
  "commit_step L mop topc bi sc s = Some (True, bi', s') \<Longrightarrow> progress bi s bi' s'"
  by (auto simp: progress_def commit_step_def Let_def bind_eq_Some_conv split: option.splits dest!: retire_emit_frame)

lemma destination_step_progress:
  assumes "destination_step H L mop topc bi sc s = Some (True, bi', s')"
  shows "progress bi s bi' s'"
proof -
  obtain r s1 where r: "(if macroOpIndex s = dstOp (si_info (currentInstruction s))
      then operand_step (try_destination H) sc s else Some (Found sc, s)) = Some (r, s1)"
    and k: "(case r of Throw \<Rightarrow> Some (True, bi, s1) | Abort \<Rightarrow> Some (False, bi, s1) | Found sc \<Rightarrow> commit_step L mop topc bi sc s1) = Some (True, bi', s')"
    using assms unfolding destination_step_def by (auto simp: bind_eq_Some_conv)
  have f: "decodeBuffer s1 = decodeBuffer s" "r = Throw \<Longrightarrow> throwAwayCount s < 256 \<and> throwAwayCount s1 = Suc (throwAwayCount s)"
    "r = Found sc' \<Longrightarrow> throwAwayCount s1 = throwAwayCount s" for sc'
    using r operand_step_frame [of "try_destination H" sc s r s1 H] by (auto split: if_splits)
  show ?thesis using k f by (cases r) (auto simp: progress_def dest!: commit_step_progress)
qed

lemma source_step_progress:
  assumes "source_step H L mop topc bi sc s = Some (True, bi', s')"
  shows "progress bi s bi' s'"
proof -
  obtain r s1 where r: "(if int (macroOpIndex s) = srcOp (si_info (currentInstruction s))
      then operand_step (try_source H) sc s else Some (Found sc, s)) = Some (r, s1)"
    and k: "(case r of Throw \<Rightarrow> Some (True, bi, s1) | Abort \<Rightarrow> Some (False, bi, s1) | Found sc \<Rightarrow> destination_step H L mop topc bi sc s1) = Some (True, bi', s')"
    using assms unfolding source_step_def by (auto simp: bind_eq_Some_conv)
  have f: "decodeBuffer s1 = decodeBuffer s" "r = Throw \<Longrightarrow> throwAwayCount s < 256 \<and> throwAwayCount s1 = Suc (throwAwayCount s)"
    "r = Found sc' \<Longrightarrow> throwAwayCount s1 = throwAwayCount s" for sc'
    using r operand_step_frame [of "try_source H" sc s r s1 H] by (auto split: if_splits)
  show ?thesis using k f by (cases r) (auto simp: progress_def dest!: destination_step_progress)
qed

lemma slot_body_progress:
  assumes "slot_body H L bi s = Some (True, bi', s')"
  shows "progress bi s bi' s'"
proof -
  obtain s1 where n: "new_instruction H L bi s = Some (True, s1)"
    using assms by (auto simp: slot_body_def Let_def bind_eq_Some_conv split: if_splits)
  obtain mop sc where "source_step H L mop (cycle s) bi sc s1 = Some (True, bi', s')"
    using assms n by (auto simp: slot_body_def Let_def bind_eq_Some_conv split: option.splits)
  from source_step_progress [OF this] new_instruction_frame [OF n] show ?thesis by (simp add: progress_def)
qed

function fill_slots :: "(u8 list \<Rightarrow> u8 list) \<Rightarrow> nat \<Rightarrow> nat \<Rightarrow> sgen \<Rightarrow> sgen option" where
  "fill_slots H L bi s =
     (if bi < length (counts (decodeBuffer s)) then
        case slot_body H L bi s of
          None \<Rightarrow> None
        | Some (go, bi', s') \<Rightarrow> if go then fill_slots H L bi' s' else Some s'
      else Some s)"
  by pat_completeness auto

termination
  by (relation "measure (\<lambda>(H, L, bi, s). (length (counts (decodeBuffer s)) - bi) * 257 + (256 - throwAwayCount s))")
     (auto dest!: slot_body_progress simp: progress_def)

declare fill_slots.simps [simp del]

function decode_loop :: "(u8 list \<Rightarrow> u8 list) \<Rightarrow> nat \<Rightarrow> nat \<Rightarrow> sgen \<Rightarrow> (nat \<times> sgen) option" where
  "decode_loop H L decodeCycle s =
     (if decodeCycle < L \<and> \<not> portsSaturated s \<and> programSize s < 3 * L + 2 then do {
        (d, g) \<leftarrow> fetchNext H (si_type (currentInstruction s)) decodeCycle (smulCount s) (gen s);
        s \<leftarrow> fill_slots H L 0 (s\<lparr>decodeBuffer := d, gen := g\<rparr>);
        decode_loop H L (decodeCycle + 1) (s\<lparr>cycle := cycle s + 1\<rparr>)
      }
      else Some (decodeCycle, s))"
  by pat_completeness auto

termination
  by (relation "measure (\<lambda>(H, L, decodeCycle, s). L - decodeCycle)") auto

declare decode_loop.simps [simp del]

definition asic_step :: "Instruction \<Rightarrow> nat list \<Rightarrow> nat list option" where
  "asic_step i lat = do {
     d \<leftarrow> get lat (unat (dst i));
     let latDst = d + 1;
     latSrc \<leftarrow> (if dst i \<noteq> src i then do { l \<leftarrow> get lat (unat (src i)); Some (l + 1) } else Some 0);
     put lat (unat (dst i)) (if latDst > latSrc then latDst else latSrc)
   }"

definition address_register :: "nat list \<Rightarrow> nat \<times> nat" where
  "address_register lat =
     fold (\<lambda>i (m, r). if lat ! i > m then (lat ! i, i) else (m, r)) [0..<8] (0, 0)"

definition sgen_init :: "Instruction list \<Rightarrow> blake2gen \<Rightarrow> sgen" where
  "sgen_init p g = \<lparr>gen = g, portBusy = replicate CYCLE_MAP_SIZE (replicate 3 False),
     registers = replicate 8 \<lparr>latency = 0, lastOpGroup = INVALID, lastOpPar = - 1\<rparr>, decodeBuffer = Default,
     currentInstruction = Null_instruction, macroOpIndex = 0, scodeSize = 0, macroOpCount = 0, cycle = 0, depCycle = 0,
     retireCycle = 0, portsSaturated = False, prog = p, programSize = 0, smulCount = 0, throwAwayCount = 0\<rparr>"

text \<open>The whole generator, on the program buffer \<open>p\<close>; the statistic \<^verbatim>\<open>ipc\<close> is left out.\<close>

definition generateSuperscalar :: "(u8 list \<Rightarrow> u8 list) \<Rightarrow> nat \<Rightarrow> Instruction list \<Rightarrow> blake2gen \<Rightarrow> (SuperscalarProgram \<times> blake2gen) option" where
  "generateSuperscalar H L p g = do {
     (dc, s) \<leftarrow> decode_loop H L 0 (sgen_init p g);
     lat \<leftarrow> foldM asic_step (take (programSize s) (prog s)) (replicate 8 0);
     let (asicLatencyMax, addressReg) = address_register lat;
     Some (\<lparr>programBuffer = prog s, psize = programSize s, addrReg = addressReg, codeSize = scodeSize s,
            macroOps = macroOpCount s, decodeCycles = dc, cpuLatency = retireCycle s, asicLatency = asicLatencyMax,
            mulCount = smulCount s, cpuLatencies = map latency (registers s), asicLatencies = lat\<rparr>, gen s)
   }"

subsection \<open>Execution\<close>

text \<open>An instruction without a source register has its destination in the source field.\<close>

definition execute_instr :: "Instruction \<Rightarrow> u64 list \<Rightarrow> u64 list option" where
  "execute_instr i r = do {
     d \<leftarrow> get r (unat (dst i));
     s \<leftarrow> get r (unat (src i));
     v \<leftarrow> (if opcode i = 0 then Some (d - s)
           else if opcode i = 1 then Some (d XOR s)
           else if opcode i = 2 then Some (d + push_bit (unat (getModShift i)) s)
           else if opcode i = 3 then Some (d * s)
           else if opcode i = 4 then Some (rx_rotr64 d (unat (imm32 i)))
           else if opcode i = 5 \<or> opcode i = 7 \<or> opcode i = 9 then Some (d + signExtend2sCompl (imm32 i))
           else if opcode i = 6 \<or> opcode i = 8 \<or> opcode i = 10 then Some (d XOR signExtend2sCompl (imm32 i))
           else if opcode i = 11 then Some (mulh d s)
           else if opcode i = 12 then Some (smulh d s)
           else if opcode i = 13 then Some (d * randomx_reciprocal (ucast (imm32 i)))
           else None);
     put r (unat (dst i)) v
   }"

definition executeSuperscalar :: "SuperscalarProgram \<Rightarrow> u64 list \<Rightarrow> u64 list option" where
  "executeSuperscalar p r = foldM execute_instr (take (psize p) (programBuffer p)) r"

end
