(* ===== verification/Rx_Program.thy ===== *)
theory Rx_Program
  imports Rx_Superscalar
begin

text \<open>
  The superscalar generator returns, with a well-formed program: the invariant of its state, what
  each operation keeps of it, and the safe execution of the programs it makes.
\<close>

subsection \<open>Well-formed programs\<close>

definition valid_instr :: "Instruction \<Rightarrow> bool" where
  "valid_instr i \<longleftrightarrow> opcode i < 14 \<and> dst i < 8 \<and> src i < 8
     \<and> (opcode i = 2 \<longrightarrow> dst i \<noteq> 5)
     \<and> (opcode i < 4 \<longrightarrow> src i \<noteq> dst i)
     \<and> (opcode i = 4 \<longrightarrow> imm32 i \<noteq> 0 \<and> imm32 i < 64)
     \<and> (opcode i = 13 \<longrightarrow> \<not> isZeroOrPowerOf2 (ucast (imm32 i)))"

definition valid_program :: "SuperscalarProgram \<Rightarrow> bool" where
  "valid_program p \<longleftrightarrow> psize p \<le> length (programBuffer p) \<and> list_all valid_instr (take (psize p) (programBuffer p)) \<and> addrReg p < 8"

subsection \<open>Invariant\<close>

definition src_done :: "SuperscalarInstruction \<Rightarrow> bool" where
  "src_done i \<longleftrightarrow> 0 \<le> si_src i \<and> si_src i < 8"

definition dst_done :: "SuperscalarInstruction \<Rightarrow> bool" where
  "dst_done i \<longleftrightarrow> 0 \<le> si_dst i \<and> si_dst i < 8 \<and> (\<not> canReuse i \<longrightarrow> si_dst i \<noteq> si_src i)
     \<and> (si_type i = IADD_RS \<longrightarrow> si_dst i \<noteq> 5)"

text \<open>An instruction as its creation leaves it.\<close>

definition fresh_ok :: "SuperscalarInstruction \<Rightarrow> bool" where
  "fresh_ok i \<longleftrightarrow> si_type i \<noteq> INVALID \<and> (canReuse i \<longleftrightarrow> si_type i = IMULH_R \<or> si_type i = ISMULH_R)
     \<and> (srcOp (si_info i) < 0 \<longrightarrow> si_src i = - 1)
     \<and> (si_type i = IROR_C \<longrightarrow> si_imm32 i \<noteq> 0 \<and> unat (si_imm32 i) < 64)
     \<and> (si_type i = IMUL_RCP \<longrightarrow> \<not> isZeroOrPowerOf2 (ucast (si_imm32 i)))"

text \<open>After \<open>m\<close> macro-operations the operands those needed are chosen.\<close>

definition cur_ok :: "nat \<Rightarrow> SuperscalarInstruction \<Rightarrow> bool" where
  "cur_ok m i \<longleftrightarrow> fresh_ok i \<and> (0 \<le> srcOp (si_info i) \<and> srcOp (si_info i) < int m \<longrightarrow> src_done i)
     \<and> (dstOp (si_info i) < m \<longrightarrow> dst_done i)"

definition ports_ok :: "port_map \<Rightarrow> bool" where
  "ports_ok pb \<longleftrightarrow> length pb = CYCLE_MAP_SIZE \<and> (\<forall>row \<in> set pb. length row = 3)"

definition base_ok :: "nat \<Rightarrow> sgen \<Rightarrow> bool" where
  "base_ok L s \<longleftrightarrow> gen_ok (gen s) \<and> ports_ok (portBusy s) \<and> length (registers s) = 8
     \<and> set (counts (decodeBuffer s)) \<subseteq> {3, 4, 7, 8, 9, 10}
     \<and> length (prog s) = SuperscalarMaxSize \<and> programSize s \<le> 3 * L + 2
     \<and> list_all valid_instr (take (programSize s) (prog s))"

definition issuing :: "nat \<Rightarrow> sgen \<Rightarrow> bool" where
  "issuing L s \<longleftrightarrow> base_ok L s \<and> macroOpIndex s < cur_size s \<and> cur_ok (macroOpIndex s) (currentInstruction s)
     \<and> programSize s < 3 * L + 2"

definition sgen_ok :: "nat \<Rightarrow> sgen \<Rightarrow> bool" where
  "sgen_ok L s \<longleftrightarrow> base_ok L s \<and> (macroOpIndex s < cur_size s \<longrightarrow> issuing L s)"

lemma sgen_okI: "issuing L s \<Longrightarrow> sgen_ok L s"
  by (simp add: sgen_ok_def issuing_def)

text \<open>The description table: every operand is chosen before the result is written, and before the
  last macro-operation.\<close>

lemma info_table:
  assumes "t \<noteq> INVALID"
  shows "dstOp (info_of t) \<le> resultOp (info_of t)" "resultOp (info_of t) < length (iops (info_of t))"
    "srcOp (info_of t) < int (length (iops (info_of t)))" "itype (info_of t) = t"
    "0 \<le> srcOp (info_of t) \<Longrightarrow> t \<noteq> IMULH_R \<Longrightarrow> t \<noteq> ISMULH_R \<Longrightarrow> srcOp (info_of t) = 0"
    "0 \<le> srcOp (info_of t) \<longleftrightarrow> t \<in> {ISUB_R, IXOR_R, IADD_RS, IMUL_R, IMULH_R, ISMULH_R}"
  using assms by (cases t; simp add: info_one_def info_many_def)+

lemma reg_word:
  assumes "0 \<le> a" "a < 8" "0 \<le> b" "b < 8"
  shows "(of_int a :: u8) < 8" "(of_int a :: u8) = of_int b \<longleftrightarrow> a = b" "(of_int a :: u8) = 5 \<longleftrightarrow> a = 5"
  using assms by (auto simp: word_less_def word_uint_eq_iff uint_word_of_int)

lemma valid_toInstr:
  assumes "fresh_ok i" "0 \<le> srcOp (si_info i) \<Longrightarrow> src_done i" "dst_done i"
  shows "valid_instr (toInstr i)"
proof -
  let ?d = "si_dst i" and ?s = "if si_src i \<ge> 0 then si_src i else si_dst i"
  have d: "0 \<le> ?d" "?d < 8" using assms(3) by (auto simp: dst_done_def)
  have t: "si_type i \<noteq> INVALID" using assms(1) by (simp add: fresh_ok_def)
  have s: "0 \<le> ?s" "?s < 8"
    using d assms(1,2) info_table(6) [OF t] by (auto simp: src_done_def fresh_ok_def)
  have "si_imm32 i < 64" if "si_type i = IROR_C" using assms(1) that by (simp add: fresh_ok_def word_less_nat_alt)
  then show ?thesis
    using assms info_table(6) [OF t] reg_word [OF d s] reg_word [OF s d]
    by (cases "si_type i") (auto simp: valid_instr_def toInstr_def fresh_ok_def dst_done_def src_done_def)
qed

subsection \<open>Generator draws\<close>

lemma mask_index: "unat (b AND 3) < 4" "unat (b AND 1) < 2" for b :: u8
proof -
  have "b AND 3 \<le> 3" "b AND 1 \<le> 1" by (simp_all add: word_and_le1)
  then show "unat (b AND 3) < 4" "unat (b AND 1) < 2" by (simp_all add: word_le_nat_alt)
qed

lemma create_ok:
  assumes "gen_ok g" "hash64 H" "fair H" "t \<noteq> INVALID"
  shows "returns (create H t i g) (\<lambda>(i, g). gen_ok g \<and> fresh_ok i)"
proof -
  have f: "accepts (getByte H) (\<lambda>b. ucast b AND 63 \<noteq> (0 :: u32)) g" "accepts (getUInt32 H) (\<lambda>v. \<not> isZeroOrPowerOf2 (ucast v)) g"
    using assms(1,3) by (auto simp: fair_def)
  note draws = getByte_ok [OF assms(1,2)] getUInt32_ok [OF assms(1,2)] draw_rotation_returns [OF f(1) assms(1,2)]
    draw_divisor_returns [OF f(2) assms(1,2)]
  show ?thesis
    using assms(4) draws assms(1)
    by (cases t) (auto simp: create_def Let_def fresh_ok_def returns_def info_one_def info_many_def)
qed

lemma create_from_ok:
  assumes "gen_ok g" "hash64 H" "fair H" "INVALID \<notin> set slot" "\<And>b. unat (b AND m) < length slot"
  shows "returns (create_from H slot m i g) (\<lambda>(i, g). gen_ok g \<and> fresh_ok i)"
  unfolding create_from_def
proof (rule returns_bind_pair [OF getByte_ok [OF assms(1,2)]])
  fix b g' assume g': "gen_ok g'"
  have "slot ! unat (b AND m) \<in> set slot" using assms(5) by simp
  then have "slot ! unat (b AND m) \<noteq> INVALID" using assms(4) by metis
  then show "returns (get slot (unat (b AND m)) \<bind> (\<lambda>t. create H t i g')) (\<lambda>(i, g). gen_ok g \<and> fresh_ok i)"
    using create_ok [OF g' assms(2,3)] assms(5) by simp
qed

lemma createForSlot_ok:
  assumes "gen_ok g" "hash64 H" "fair H" "c \<in> {3, 4, 7, 8, 9, 10}"
  shows "returns (createForSlot H c ft l f i g) (\<lambda>(i, g). gen_ok g \<and> fresh_ok i)"
proof -
  have "returns (create_from H slot m i g) (\<lambda>(i, g). gen_ok g \<and> fresh_ok i)"
    if "(slot, m) \<in> {(slot_3L, 3), (slot_3, 1), (slot_4, 1), (slot_7, 1), (slot_8, 1), (slot_9, 1)}" for slot m
    using that mask_index
    by (intro create_from_ok [OF assms(1-3)]) (auto simp: slot_3_def slot_3L_def slot_4_def slot_7_def slot_8_def slot_9_def numeral_eq_Suc)
  then show ?thesis
    using assms(4) create_ok [OF assms(1-3), of IMUL_R i] create_ok [OF assms(1-3), of slot_10 i]
    by (auto simp: createForSlot_def slot_10_def)
qed

lemma selectRegister_ok:
  assumes "gen_ok g" "hash64 H"
  shows "returns (selectRegister H av g) (\<lambda>(r, g). gen_ok g \<and> (\<forall>x. r = Some x \<longrightarrow> x \<in> set av))"
proof (cases "length av > 1")
  case True
  have "av ! (unat v mod length av) \<in> set av" for v :: u32 using True by (intro nth_mem mod_less_divisor) auto
  then show ?thesis using True getUInt32_ok [OF assms] unfolding selectRegister_def
    by (auto simp: returns_def)
next
  case False
  then show ?thesis using assms by (cases av) (auto simp: selectRegister_def)
qed

definition src_post :: "SuperscalarInstruction \<Rightarrow> bool \<Rightarrow> SuperscalarInstruction \<Rightarrow> bool" where
  "src_post i ok j \<longleftrightarrow> si_type j = si_type i \<and> si_dst j = si_dst i \<and> si_imm32 j = si_imm32 i \<and> canReuse j = canReuse i
     \<and> (if ok then src_done j else j = i)"

definition dst_post :: "SuperscalarInstruction \<Rightarrow> bool \<Rightarrow> SuperscalarInstruction \<Rightarrow> bool" where
  "dst_post i ok j \<longleftrightarrow> si_type j = si_type i \<and> si_src j = si_src i \<and> si_imm32 j = si_imm32 i \<and> canReuse j = canReuse i
     \<and> (if ok then dst_done j else j = i)"

lemma selectSource_ok:
  assumes "gen_ok g" "hash64 H"
  shows "returns (selectSource H cyc regs ins g) (\<lambda>(ok, i, g). gen_ok g \<and> src_post ins ok i)"
proof -
  let ?av = "src_available cyc regs"
  have av: "x \<in> set ?av \<Longrightarrow> x < 8" for x by (auto simp: src_available_def)
  obtain r g' where "selectRegister H ?av g = Some (r, g')" "gen_ok g'" "\<And>x. r = Some x \<Longrightarrow> x < 8"
    using selectRegister_ok [OF assms, of ?av] av by (auto simp: returns_def)
  then show ?thesis
    using assms(1) by (auto simp: selectSource_def Let_def src_post_def src_done_def split: option.splits)
qed

lemma selectDestination_ok:
  assumes "gen_ok g" "hash64 H"
  shows "returns (selectDestination H cyc chained regs ins g) (\<lambda>(ok, i, g). gen_ok g \<and> dst_post ins ok i)"
proof -
  let ?av = "dst_available cyc chained regs ins"
  have av: "x \<in> set ?av \<Longrightarrow> x < 8 \<and> (canReuse ins \<or> int x \<noteq> si_src ins) \<and> (si_type ins = IADD_RS \<longrightarrow> x \<noteq> 5)" for x
    by (auto simp: dst_available_def)
  obtain r g' where "selectRegister H ?av g = Some (r, g')" "gen_ok g'" "\<And>x. r = Some x \<Longrightarrow> x \<in> set ?av"
    using selectRegister_ok [OF assms, of ?av] by (auto simp: returns_def)
  then show ?thesis
    using assms(1) av by (auto simp: selectDestination_def dst_post_def dst_done_def split: option.splits)
qed

subsection \<open>Ports\<close>

lemma port_access:
  assumes "ports_ok pb" "cyc < CYCLE_MAP_SIZE" "p < 3"
  shows "returns (port_busy pb cyc p) (\<lambda>_. True)" "returns (port_take commit pb cyc p) ports_ok"
proof -
  have row: "cyc < length pb" "length (pb ! cyc) = 3" using assms by (auto simp: ports_ok_def)
  then show "returns (port_busy pb cyc p) (\<lambda>_. True)" using assms(3) by (simp add: port_busy_def)
  have "ports_ok (pb[cyc := row'])" if "length row' = 3" for row'
    using assms(1) that by (auto simp: ports_ok_def dest!: subsetD [OF set_update_subset_insert])
  then show "returns (port_take commit pb cyc p) ports_ok" using row assms by (simp add: port_take_def)
qed

lemma scheduleUop_ok:
  assumes "L \<le> MAX_LATENCY"
  shows "ports_ok pb \<Longrightarrow> returns (scheduleUop commit L uop pb cyc) (\<lambda>(r, pb'). ports_ok pb' \<and> (commit \<or> pb' = pb))"
  using assms
proof (induction commit L uop pb cyc rule: scheduleUop.induct)
  case (1 commit L uop pb cyc)
  show ?case
  proof (cases "cyc < L + 4")
    case True
    then have c: "cyc < CYCLE_MAP_SIZE" using 1(3) by simp
    obtain b5 b0 b1 where b: "port_busy pb cyc 2 = Some b5" "port_busy pb cyc 0 = Some b0" "port_busy pb cyc 1 = Some b1"
      using port_access(1) [OF 1(2) c] by (force simp: returns_def)
    have tk: "\<exists>pb'. port_take commit pb cyc p = Some pb' \<and> ports_ok pb' \<and> (commit \<or> pb' = pb)" if "p < 3" for p
      using port_access(2) [OF 1(2) c that, of commit] by (auto simp: returns_def port_take_def split: if_splits)
    show ?thesis using True b tk [of 0] tk [of 1] tk [of 2] 1(1) [OF True b _ _ _ 1(2,3)]
      by (subst scheduleUop.simps) auto
  next
    case False
    then show ?thesis using 1(2) by (subst scheduleUop.simps) simp
  qed
qed

lemma schedule_both_ok:
  assumes "L \<le> MAX_LATENCY"
  shows "ports_ok pb \<Longrightarrow> returns (schedule_both commit L u v pb cyc) (\<lambda>(r, pb'). ports_ok pb' \<and> (commit \<or> pb' = pb))"
proof (induction "L + 4 - cyc" arbitrary: cyc rule: less_induct)
  case less
  show ?case
  proof (cases "cyc < L + 4")
    case True
    obtain c1 where c1: "scheduleUop False L u pb cyc = Some (c1, pb)"
      using scheduleUop_ok [OF assms less.prems, of False u cyc] by (auto simp: returns_def)
    obtain c2 where c2: "scheduleUop False L v pb cyc = Some (c2, pb)"
      using scheduleUop_ok [OF assms less.prems, of False v cyc] by (auto simp: returns_def)
    obtain d1 pb1 where d1: "scheduleUop True L u pb (the c1) = Some (d1, pb1)" "ports_ok pb1"
      using scheduleUop_ok [OF assms less.prems, of True u "the c1"] by (auto simp: returns_def)
    obtain d2 pb2 where d2: "scheduleUop True L v pb1 (the c2) = Some (d2, pb2)" "ports_ok pb2"
      using scheduleUop_ok [OF assms d1(2), of True v "the c2"] by (auto simp: returns_def)
    have ih: "returns (schedule_both commit L u v pb (cyc + 1)) (\<lambda>(r, pb'). ports_ok pb' \<and> (commit \<or> pb' = pb))"
      using True less by simp
    show ?thesis
      using True c1 c2 d1 d2 ih less.prems by (subst schedule_both.simps) auto
  next
    case False
    then show ?thesis using less.prems by (subst schedule_both.simps) simp
  qed
qed

lemma scheduleMop_ok:
  assumes "L \<le> MAX_LATENCY" "ports_ok pb"
  shows "returns (scheduleMop commit L mop pb cyc dep) (\<lambda>(r, pb'). ports_ok pb' \<and> (commit \<or> pb' = pb))"
  using scheduleUop_ok [OF assms, of commit] schedule_both_ok [OF assms, of commit] assms(2)
  by (simp add: scheduleMop_def Let_def)

subsection \<open>One slot\<close>

text \<open>While a macro-operation is issued, its source and then its destination get chosen.\<close>

definition operands :: "bool \<Rightarrow> bool \<Rightarrow> sgen \<Rightarrow> bool" where
  "operands a b s \<longleftrightarrow>
     (a \<longrightarrow> int (macroOpIndex s) = srcOp (si_info (currentInstruction s)) \<longrightarrow> src_done (currentInstruction s))
     \<and> (b \<longrightarrow> macroOpIndex s = dstOp (si_info (currentInstruction s)) \<longrightarrow> dst_done (currentInstruction s))"

lemma base_ok_frame [simp]:
  "base_ok L (s\<lparr>cycle := c\<rparr>) = base_ok L s" "base_ok L (s\<lparr>currentInstruction := i\<rparr>) = base_ok L s"
  "base_ok L (s\<lparr>macroOpIndex := m\<rparr>) = base_ok L s" "base_ok L (s\<lparr>throwAwayCount := n\<rparr>) = base_ok L s"
  "base_ok L (s\<lparr>portsSaturated := q\<rparr>) = base_ok L s" "base_ok L (s\<lparr>depCycle := n\<rparr>) = base_ok L s"
  "base_ok L (s\<lparr>scodeSize := n\<rparr>) = base_ok L s" "base_ok L (s\<lparr>macroOpCount := n\<rparr>) = base_ok L s"
  by (simp_all add: base_ok_def)

lemma new_instruction_ok:
  assumes "sgen_ok L s" "bi < length (counts (decodeBuffer s))" "hash64 H" "fair H"
  shows "returns (new_instruction H L bi s) (\<lambda>(go, s'). sgen_ok L s' \<and> (go \<longrightarrow> issuing L s'))"
proof (cases "macroOpIndex s \<ge> cur_size s \<and> \<not> portsSaturated s \<and> programSize s < 3 * L + 2")
  case False
  then show ?thesis using assms(1) by (auto simp: new_instruction_def sgen_ok_def)
next
  case True
  let ?d = "decodeBuffer s"
  have b: "base_ok L s" "gen_ok (gen s)" using assms(1) by (auto simp: sgen_ok_def base_ok_def)
  have "counts ?d ! bi \<in> {3, 4, 7, 8, 9, 10}" using b(1) nth_mem [OF assms(2)] unfolding base_ok_def by blast
  then obtain i g where i: "createForSlot H (counts ?d ! bi) (index ?d) (length (counts ?d) = bi + 1) (bi = 0)
      (currentInstruction s) (gen s) = Some (i, g)" "gen_ok g" "fresh_ok i"
    using createForSlot_ok [OF b(2) assms(3,4), of "counts ?d ! bi" "index ?d" "length (counts ?d) = bi + 1" "bi = 0" "currentInstruction s"]
    by (auto simp: returns_def)
  have "si_type i \<noteq> INVALID" using i(3) by (simp add: fresh_ok_def)
  then have "issuing L (s\<lparr>currentInstruction := i, gen := g, macroOpIndex := 0\<rparr>)"
    using True b(1) i(2,3) info_table(2) [of "si_type i"] by (auto simp: issuing_def base_ok_def cur_ok_def)
  then show ?thesis using True assms(2) i by (simp add: new_instruction_def sgen_okI)
qed

lemma look_forward_ok:
  assumes sel: "\<And>sc s. I s \<Longrightarrow> returns (sel sc s) (\<lambda>(ok, s'). I s' \<and> (ok \<longrightarrow> Q s'))"
    and frame: "\<And>s. I s \<Longrightarrow> I (s\<lparr>cycle := cycle s + 1\<rparr>)"
  shows "I s \<Longrightarrow> returns (look_forward sel k sc s) (\<lambda>(ok, sc', s'). I s' \<and> (ok \<longrightarrow> Q s'))"
proof (induction k arbitrary: sc s)
  case (Suc k)
  obtain ok s' where "sel sc s = Some (ok, s')" "I s'" "ok \<longrightarrow> Q s'"
    using sel [OF Suc.prems, of sc] by (auto simp: returns_def)
  then show ?case using Suc.IH [OF frame, of s'] by simp
qed simp

lemma try_source_ok:
  assumes "issuing L s" "hash64 H" "int (macroOpIndex s) = srcOp (si_info (currentInstruction s))"
  shows "returns (try_source H sc s) (\<lambda>(ok, s'). (issuing L s' \<and> int (macroOpIndex s') = srcOp (si_info (currentInstruction s'))) \<and> (ok \<longrightarrow> operands True False s'))"
proof -
  let ?i = "currentInstruction s"
  have b: "gen_ok (gen s)" "cur_ok (macroOpIndex s) ?i" using assms(1) by (auto simp: issuing_def base_ok_def)
  obtain ok i g where r: "selectSource H sc (registers s) ?i (gen s) = Some (ok, i, g)" "gen_ok g" "src_post ?i ok i"
    using selectSource_ok [OF b(1) assms(2), of sc "registers s" ?i] by (auto simp: returns_def)
  have c: "cur_ok (macroOpIndex s) i"
  proof (cases ok)
    case True
    have t: "si_type i \<noteq> INVALID" "si_type i = si_type ?i" using b(2) r(3) by (auto simp: cur_ok_def fresh_ok_def src_post_def)
    have "canReuse ?i" if "dstOp (si_info ?i) < macroOpIndex s"
      using that assms(3) info_table(5) [OF t(1)] t(2) b(2) by (auto simp: cur_ok_def fresh_ok_def)
    then show ?thesis using True r(3) b(2) assms(3) by (auto simp: src_post_def cur_ok_def fresh_ok_def dst_done_def)
  qed (use r(3) b(2) in \<open>simp add: src_post_def\<close>)
  show ?thesis
    using r c assms by (auto simp: try_source_def issuing_def base_ok_def operands_def src_post_def)
qed

lemma try_destination_ok:
  assumes "issuing L s" "operands True False s" "hash64 H" "macroOpIndex s = dstOp (si_info (currentInstruction s))"
  shows "returns (try_destination H sc s) (\<lambda>(ok, s'). (issuing L s' \<and> operands True False s' \<and> macroOpIndex s' = dstOp (si_info (currentInstruction s')))
    \<and> (ok \<longrightarrow> operands True True s'))"
proof -
  let ?i = "currentInstruction s"
  have b: "gen_ok (gen s)" "cur_ok (macroOpIndex s) ?i" using assms(1) by (auto simp: issuing_def base_ok_def)
  obtain ok i g where r: "selectDestination H sc (throwAwayCount s > 0) (registers s) ?i (gen s) = Some (ok, i, g)" "gen_ok g" "dst_post ?i ok i"
    using selectDestination_ok [OF b(1) assms(3), of sc "throwAwayCount s > 0" "registers s" ?i] by (auto simp: returns_def)
  have "cur_ok (macroOpIndex s) i"
    using r(3) b(2) assms(4) by (auto simp: dst_post_def cur_ok_def fresh_ok_def src_done_def split: if_splits)
  then show ?thesis
    using r assms by (auto simp: try_destination_def issuing_def base_ok_def operands_def dst_post_def src_done_def)
qed

lemma operand_step_ok:
  assumes sel: "\<And>sc s. issuing L s \<and> R s \<Longrightarrow> returns (sel sc s) (\<lambda>(ok, s'). (issuing L s' \<and> R s') \<and> (ok \<longrightarrow> Q s'))"
    and frame: "\<And>s. R s \<Longrightarrow> R (s\<lparr>cycle := cycle s + 1\<rparr>)" and s: "issuing L s" "R s"
  shows "returns (operand_step sel sc s) (\<lambda>(r, s'). case r of Found sc' \<Rightarrow> issuing L s' \<and> Q s' | _ \<Rightarrow> sgen_ok L s')"
proof -
  have "returns (look_forward sel LOOK_FORWARD_CYCLES sc s) (\<lambda>(ok, sc', s'). (issuing L s' \<and> R s') \<and> (ok \<longrightarrow> Q s'))"
    by (rule look_forward_ok [where I = "\<lambda>s. issuing L s \<and> R s", OF sel]) (use s frame in \<open>auto simp: issuing_def\<close>)
  then obtain ok sc' s' where l: "look_forward sel LOOK_FORWARD_CYCLES sc s = Some (ok, sc', s')" "issuing L s'" "ok \<longrightarrow> Q s'"
    by (auto simp: returns_def)
  then show ?thesis
    by (auto simp: operand_step_def sgen_ok_def issuing_def Null_instruction_def)
qed

lemma retire_ok:
  assumes "issuing L s" "operands True True s"
  shows "returns (retire s) (\<lambda>s'. issuing L s' \<and> operands True True s' \<and> macroOpIndex s' = macroOpIndex s \<and> currentInstruction s' = currentInstruction s)"
proof (cases "macroOpIndex s = resultOp (si_info (currentInstruction s))")
  case True
  let ?i = "currentInstruction s"
  have t: "si_type ?i \<noteq> INVALID" using assms(1) by (simp add: issuing_def cur_ok_def fresh_ok_def)
  have "dst_done ?i"
    using assms True info_table(1) [OF t] by (cases "macroOpIndex s = dstOp (si_info ?i)") (auto simp: issuing_def cur_ok_def operands_def)
  moreover have "length (registers s) = 8" using assms(1) by (simp add: issuing_def base_ok_def)
  ultimately have "\<not> si_dst ?i < 0" "nat (si_dst ?i) < length (registers s)" by (auto simp: dst_done_def)
  then show ?thesis using True assms by (simp add: retire_def issuing_def base_ok_def operands_def)
next
  case False
  then show ?thesis using assms by (simp add: retire_def)
qed

lemma emit_ok:
  assumes "base_ok L s" "programSize s < 3 * L + 2" "L \<le> MAX_LATENCY" "0 < macroOpIndex s"
    and "cur_ok (macroOpIndex s) (currentInstruction s)"
  shows "returns (emit s) (sgen_ok L)"
proof (cases "macroOpIndex s \<ge> cur_size s")
  case True
  let ?i = "currentInstruction s"
  have t: "si_type ?i \<noteq> INVALID" using assms(5) by (simp add: cur_ok_def fresh_ok_def)
  have "valid_instr (toInstr ?i)"
    using assms(5) True info_table(1,2,3) [OF t] by (intro valid_toInstr) (auto simp: cur_ok_def)
  moreover have "programSize s < length (prog s)" using assms(1-3) by (simp add: base_ok_def)
  ultimately have "base_ok L (s\<lparr>prog := (prog s)[programSize s := toInstr ?i], programSize := programSize s + 1, smulCount := k\<rparr>)" for k
    using assms(1,2) by (auto simp: base_ok_def take_Suc_conv_app_nth take_update_cancel)
  then show ?thesis using True \<open>programSize s < length (prog s)\<close> by (simp add: emit_def sgen_ok_def)
next
  case False
  then show ?thesis using assms by (simp add: emit_def sgen_ok_def issuing_def)
qed

lemma commit_step_ok:
  assumes "issuing L s" "operands True True s" "L \<le> MAX_LATENCY"
  shows "returns (commit_step L mop topc bi sc s) (\<lambda>(go, bi', s'). sgen_ok L s')"
proof -
  have "ports_ok (portBusy s)" using assms(1) by (simp add: issuing_def base_ok_def)
  then obtain r pb where r: "scheduleMop True L mop (portBusy s) sc sc = Some (r, pb)" "ports_ok pb"
    using scheduleMop_ok [OF assms(3), of "portBusy s" True mop sc sc] by (auto simp: returns_def)
  let ?s = "s\<lparr>throwAwayCount := 0, portBusy := pb\<rparr>"
  have s1: "issuing L ?s" "operands True True ?s"
    using assms r(2) by (auto simp: issuing_def base_ok_def operands_def)
  show ?thesis
  proof (cases r)
    case None
    then show ?thesis using r s1(1) by (simp add: commit_step_def Let_def sgen_ok_def issuing_def base_ok_def)
  next
    case (Some c)
    let ?t = "?s\<lparr>depCycle := c + mop_latency mop\<rparr>"
    have "issuing L ?t" "operands True True ?t" using s1 by (auto simp: issuing_def base_ok_def operands_def)
    then obtain u where u: "retire ?t = Some u" "issuing L u" "operands True True u" using retire_ok [of L ?t] by (auto simp: returns_def)
    let ?v = "u\<lparr>scodeSize := scodeSize u + mop_size mop, macroOpIndex := macroOpIndex u + 1,
                macroOpCount := macroOpCount u + 1, portsSaturated := (portsSaturated u \<or> c \<ge> L), cycle := topc\<rparr>"
    have "cur_ok (macroOpIndex ?v) (currentInstruction ?v)"
      using u(2,3) by (auto simp: issuing_def cur_ok_def operands_def less_Suc_eq)
    moreover have "base_ok L ?v" "programSize ?v < 3 * L + 2" using u(2) by (auto simp: issuing_def base_ok_def)
    ultimately have "returns (emit ?v) (sgen_ok L)" using assms(3) by (intro emit_ok) simp_all
    then obtain w where "emit ?v = Some w" "sgen_ok L w" by (auto simp: returns_def)
    then show ?thesis using r Some u(1) by (simp add: commit_step_def Let_def)
  qed
qed

lemma destination_step_ok:
  assumes "issuing L s" "operands True False s" "L \<le> MAX_LATENCY" "hash64 H"
  shows "returns (destination_step H L mop topc bi sc s) (\<lambda>(go, bi', s'). sgen_ok L s')"
proof -
  have "returns (if macroOpIndex s = dstOp (si_info (currentInstruction s)) then operand_step (try_destination H) sc s else Some (Found sc, s))
      (\<lambda>(r, s'). case r of Found sc' \<Rightarrow> issuing L s' \<and> operands True True s' | _ \<Rightarrow> sgen_ok L s')"
  proof (cases "macroOpIndex s = dstOp (si_info (currentInstruction s))")
    case True
    have "returns (operand_step (try_destination H) sc s) (\<lambda>(r, s'). case r of Found sc' \<Rightarrow> issuing L s' \<and> operands True True s' | _ \<Rightarrow> sgen_ok L s')"
      by (rule operand_step_ok [where R = "\<lambda>s. operands True False s \<and> macroOpIndex s = dstOp (si_info (currentInstruction s))"])
         (use try_destination_ok [OF _ _ assms(4)] assms(1,2) True in \<open>auto simp: operands_def\<close>)
    then show ?thesis using True by simp
  next
    case False
    then show ?thesis using assms(1,2) by (simp add: operands_def)
  qed
  then show ?thesis unfolding destination_step_def
    by (rule returns_bind_pair) (use commit_step_ok [OF _ _ assms(3)] in \<open>auto split: outcome.splits\<close>)
qed

lemma source_step_ok:
  assumes "issuing L s" "L \<le> MAX_LATENCY" "hash64 H"
  shows "returns (source_step H L mop topc bi sc s) (\<lambda>(go, bi', s'). sgen_ok L s')"
proof -
  have "returns (if int (macroOpIndex s) = srcOp (si_info (currentInstruction s)) then operand_step (try_source H) sc s else Some (Found sc, s))
      (\<lambda>(r, s'). case r of Found sc' \<Rightarrow> issuing L s' \<and> operands True False s' | _ \<Rightarrow> sgen_ok L s')"
  proof (cases "int (macroOpIndex s) = srcOp (si_info (currentInstruction s))")
    case True
    have "returns (operand_step (try_source H) sc s) (\<lambda>(r, s'). case r of Found sc' \<Rightarrow> issuing L s' \<and> operands True False s' | _ \<Rightarrow> sgen_ok L s')"
      by (rule operand_step_ok [where R = "\<lambda>s. int (macroOpIndex s) = srcOp (si_info (currentInstruction s))"])
         (use try_source_ok [OF _ assms(3)] assms(1) True in auto)
    then show ?thesis using True by simp
  next
    case False
    then show ?thesis using assms(1) by (simp add: operands_def)
  qed
  then show ?thesis unfolding source_step_def
    by (rule returns_bind_pair) (use destination_step_ok [OF _ _ assms(2,3)] in \<open>auto split: outcome.splits\<close>)
qed

lemma slot_body_ok:
  assumes "sgen_ok L s" "bi < length (counts (decodeBuffer s))" "hash64 H" "fair H" "L \<le> MAX_LATENCY"
  shows "returns (slot_body H L bi s) (\<lambda>(go, bi', s'). sgen_ok L s')"
proof -
  obtain go s1 where n: "new_instruction H L bi s = Some (go, s1)" "sgen_ok L s1" "go \<longrightarrow> issuing L s1"
    using new_instruction_ok [OF assms(1-4)] by (auto simp: returns_def)
  show ?thesis
  proof (cases go)
    case True
    then have i: "issuing L s1" using n(3) by simp
    then have "macroOpIndex s1 < cur_size s1" "ports_ok (portBusy s1)" by (auto simp: issuing_def base_ok_def)
    then obtain mop r pb where m: "get (iops (si_info (currentInstruction s1))) (macroOpIndex s1) = Some mop"
      "scheduleMop False L mop (portBusy s1) (cycle s1) (depCycle s1) = Some (r, pb)"
      using scheduleMop_ok [OF assms(5), of "portBusy s1" False "iops (si_info (currentInstruction s1)) ! macroOpIndex s1" "cycle s1" "depCycle s1"]
      by (auto simp: returns_def)
    show ?thesis
    proof (cases r)
      case None
      then show ?thesis using n True m i by (simp add: slot_body_def Let_def sgen_ok_def issuing_def)
    next
      case (Some sc)
      then show ?thesis using n(1) True m source_step_ok [OF i assms(5,3)] by (simp add: slot_body_def Let_def)
    qed
  next
    case False
    then show ?thesis using n by (simp add: slot_body_def Let_def)
  qed
qed

subsection \<open>The loops\<close>

lemma fill_slots_ok:
  assumes "hash64 H" "fair H" "L \<le> MAX_LATENCY"
  shows "sgen_ok L s \<Longrightarrow> returns (fill_slots H L bi s) (sgen_ok L)"
  using assms
proof (induction H L bi s rule: fill_slots.induct)
  case (1 H L bi s)
  show ?case
  proof (cases "bi < length (counts (decodeBuffer s))")
    case True
    obtain go bi' s' where b: "slot_body H L bi s = Some (go, bi', s')" "sgen_ok L s'"
      using slot_body_ok [OF 1(2) True 1(3-5)] by (auto simp: returns_def)
    then show ?thesis using True 1(1) [OF True b(1) refl refl _ b(2) 1(3-5)] by (subst fill_slots.simps) simp
  next
    case False
    then show ?thesis using 1(2) by (subst fill_slots.simps) simp
  qed
qed

lemma fetchNext_ok:
  assumes "gen_ok g" "hash64 H"
  shows "returns (fetchNext H t c m g) (\<lambda>(d, g). gen_ok g \<and> set (counts d) \<subseteq> {3, 4, 7, 8, 9, 10})"
proof -
  obtain b g' where b: "getByte H g = Some (b, g')" "gen_ok g'" using getByte_ok [OF assms] by (auto simp: returns_def)
  have "\<forall>d \<in> set decodeBuffers. set (counts d) \<subseteq> {3, 4, 7, 8, 9, 10}"
    by (simp add: decodeBuffers_def decodeBuffer484_def decodeBuffer7333_def decodeBuffer3733_def decodeBuffer493_def)
  moreover have i: "unat (b AND 3) < length decodeBuffers" using mask_index(1) [of b] by (simp add: decodeBuffers_def)
  ultimately have "set (counts (decodeBuffers ! unat (b AND 3))) \<subseteq> {3, 4, 7, 8, 9, 10}" using nth_mem by blast
  then show ?thesis using b i assms(1)
    by (simp add: fetchNext_def fetchNextDefault_def decodeBuffer484_def decodeBuffer493_def decodeBuffer4444_def decodeBuffer3310_def)
qed

lemma decode_loop_ok:
  assumes "hash64 H" "fair H" "L \<le> MAX_LATENCY"
  shows "sgen_ok L s \<Longrightarrow> returns (decode_loop H L dc s) (\<lambda>(dc', s'). sgen_ok L s')"
proof (induction "L - dc" arbitrary: dc s rule: less_induct)
  case less
  show ?case
  proof (cases "dc < L \<and> \<not> portsSaturated s \<and> programSize s < 3 * L + 2")
    case True
    have g: "gen_ok (gen s)" using less.prems by (simp add: sgen_ok_def base_ok_def)
    obtain d g' where d: "fetchNext H (si_type (currentInstruction s)) dc (smulCount s) (gen s) = Some (d, g')"
      "gen_ok g'" "set (counts d) \<subseteq> {3, 4, 7, 8, 9, 10}"
      using fetchNext_ok [OF g assms(1), of "si_type (currentInstruction s)" dc "smulCount s"] by (auto simp: returns_def)
    have "sgen_ok L (s\<lparr>decodeBuffer := d, gen := g'\<rparr>)" using less.prems d by (simp add: sgen_ok_def issuing_def base_ok_def)
    then obtain t where t: "fill_slots H L 0 (s\<lparr>decodeBuffer := d, gen := g'\<rparr>) = Some t" "sgen_ok L t"
      using fill_slots_ok [OF assms, of "s\<lparr>decodeBuffer := d, gen := g'\<rparr>" 0] by (auto simp: returns_def)
    have "sgen_ok L (t\<lparr>cycle := cycle t + 1\<rparr>)" using t(2) by (simp add: sgen_ok_def issuing_def)
    then have "returns (decode_loop H L (dc + 1) (t\<lparr>cycle := cycle t + 1\<rparr>)) (\<lambda>(dc', s'). sgen_ok L s')"
      using True by (intro less.hyps) auto
    then show ?thesis using True d(1) t(1) by (subst decode_loop.simps) simp
  next
    case False
    then show ?thesis using less.prems by (subst decode_loop.simps) auto
  qed
qed

lemma asic_ok:
  "list_all valid_instr ps \<Longrightarrow> length lat = 8 \<Longrightarrow> returns (foldM asic_step ps lat) (\<lambda>lat'. length lat' = 8)"
proof (induction ps arbitrary: lat)
  case (Cons i ps)
  have "unat (dst i) < 8" "unat (src i) < 8" using Cons.prems(1) by (auto simp: valid_instr_def word_less_nat_alt)
  then have "returns (asic_step i lat) (\<lambda>lat'. length lat' = 8)"
    using Cons.prems(2) by (simp add: asic_step_def Let_def)
  then obtain lat' where "asic_step i lat = Some lat'" "length lat' = 8" by (auto simp: returns_def)
  then show ?case using Cons by simp
qed simp

lemma address_register_less: "snd (address_register lat) < 8"
proof -
  let ?f = "\<lambda>i (m, r). if lat ! i > m then (lat ! i, i) else (m, r)"
  have "snd (fold ?f xs mr) < 8" if "\<forall>i \<in> set xs. i < 8" "snd mr < 8" for xs mr
    using that by (induction xs arbitrary: mr) (auto split: prod.splits)
  then show ?thesis unfolding address_register_def by simp
qed

lemma sgen_init_ok:
  assumes "gen_ok g" "length p = SuperscalarMaxSize"
  shows "sgen_ok L (sgen_init p g)"
  using assms by (simp add: sgen_ok_def base_ok_def sgen_init_def ports_ok_def Default_def Null_instruction_def)

lemma generateSuperscalar_ok:
  assumes "gen_ok g" "length p = SuperscalarMaxSize" "hash64 H" "fair H" "L \<le> MAX_LATENCY"
  shows "returns (generateSuperscalar H L p g) (\<lambda>(P, g'). valid_program P \<and> psize P \<le> 3 * L + 2
    \<and> length (programBuffer P) = SuperscalarMaxSize \<and> gen_ok g')"
proof -
  obtain dc s where s: "decode_loop H L 0 (sgen_init p g) = Some (dc, s)" "sgen_ok L s"
    using decode_loop_ok [OF assms(3-5) sgen_init_ok [OF assms(1,2)], of 0] by (auto simp: returns_def)
  have b: "list_all valid_instr (take (programSize s) (prog s))" "programSize s \<le> 3 * L + 2" "length (prog s) = SuperscalarMaxSize" "gen_ok (gen s)"
    using s(2) by (auto simp: sgen_ok_def base_ok_def)
  obtain lat where "foldM asic_step (take (programSize s) (prog s)) (replicate 8 0) = Some lat"
    using asic_ok [OF b(1), of "replicate 8 0"] by (auto simp: returns_def)
  then show ?thesis using s(1) b assms(5) address_register_less [of lat]
    by (auto simp: generateSuperscalar_def Let_def valid_program_def split: prod.splits)
qed

lemma execute_instr_ok:
  assumes "valid_instr i" "length r = 8"
  shows "returns (execute_instr i r) (\<lambda>r'. length r' = 8)"
proof -
  have d: "unat (dst i) < 8" "unat (src i) < 8" using assms(1) by (auto simp: valid_instr_def word_less_nat_alt)
  obtain n where n: "opcode i = of_nat n" "n < 14"
  proof
    show "opcode i = of_nat (unat (opcode i))" by simp
    show "unat (opcode i) < 14" using assms(1) by (simp add: valid_instr_def word_less_nat_alt)
  qed
  have "{..<14} = insert 13 {12, 11, 10, 9, 8, 7, 6, 5, 4, 3, 2, 1, 0 :: nat}"
    by (auto simp: less_Suc_eq numeral_eq_Suc)
  then have "n \<in> insert 13 {12, 11, 10, 9, 8, 7, 6, 5, 4, 3, 2, 1, 0}" using n(2) by blast
  then have "opcode i \<in> {13, 12, 11, 10, 9, 8, 7, 6, 5, 4, 3, 2, 1, 0}" unfolding n(1) by (elim insertE) simp_all
  then show ?thesis using d assms(2) by (auto simp: execute_instr_def)
qed

lemma executeSuperscalar_ok:
  assumes "valid_program p" "length r = 8"
  shows "returns (executeSuperscalar p r) (\<lambda>r'. length r' = 8)"
proof -
  have "returns (foldM execute_instr ps r) (\<lambda>r'. length r' = 8)" if "list_all valid_instr ps" "length r = 8" for ps r
    using that
  proof (induction ps arbitrary: r)
    case (Cons i ps)
    then obtain r' where "execute_instr i r = Some r'" "length r' = 8"
      using execute_instr_ok [of i r] by (auto simp: returns_def)
    then show ?case using Cons by simp
  qed simp
  then show ?thesis using assms by (simp add: executeSuperscalar_def valid_program_def)
qed

subsection \<open>Properties\<close>

text \<open>A hash that meets the hypotheses, for the concrete instances below.\<close>

definition threes :: "u8 list \<Rightarrow> u8 list" where "threes d = replicate 64 3"

lemma hash64_threes: "hash64 threes"
  by (simp add: hash64_def threes_def)

lemma fair_threes: "fair threes"
proof -
  have "accepts (getByte threes) (\<lambda>b. ucast b AND 63 \<noteq> (0 :: u32)) g" if "gen_ok g" for g
    using that
  proof (induction "64 - dataIndex g" arbitrary: g rule: less_induct)
    case less
    show ?case
    proof (cases "dataIndex g = 64")
      case True
      have "getByte threes g = Some (3, \<lparr>gdata = replicate 64 3, dataIndex = 1\<rparr>)"
        using True by (simp add: getByte_def checkData_def threes_def Let_def)
      then show ?thesis by (rule accepts.now) simp
    next
      case False
      then have "getByte threes g = Some (gdata g ! dataIndex g, g\<lparr>dataIndex := dataIndex g + 1\<rparr>)"
        using less.prems by (simp add: getByte_def checkData_def Let_def gen_ok_def)
      then show ?thesis by (rule accepts.later) (rule less.hyps; use False less.prems in \<open>auto simp: gen_ok_def\<close>)
    qed
  qed
  moreover have "accepts (getUInt32 threes) (\<lambda>v. \<not> isZeroOrPowerOf2 (ucast v)) g" if "gen_ok g" for g
    using that
  proof (induction "64 - dataIndex g" arbitrary: g rule: less_induct)
    case less
    show ?case
    proof (cases "dataIndex g + 4 > 64")
      case True
      have "getUInt32 threes g = Some (0x03030303, \<lparr>gdata = replicate 64 3, dataIndex = 4\<rparr>)"
        using True by (simp add: getUInt32_def checkData_def threes_def Let_def load32_def)
      then show ?thesis by (rule accepts.now) (simp add: isZeroOrPowerOf2_def)
    next
      case False
      then have "getUInt32 threes g = Some (load32 (drop (dataIndex g) (gdata g)), g\<lparr>dataIndex := dataIndex g + 4\<rparr>)"
        using less.prems by (simp add: getUInt32_def checkData_def Let_def gen_ok_def)
      then show ?thesis by (rule accepts.later) (rule less.hyps; use False less.prems in \<open>auto simp: gen_ok_def\<close>)
    qed
  qed
  ultimately show ?thesis by (simp add: fair_def)
qed

text \<open>C15. The superscalar generator returns: from every generator state, with a hash of 64 bytes whose
  stream never settles on rejected values, for every configured latency up to 256, the decode,
  slot, throw-away and port loops end, no access leaves an array, and the program has at most
  \<open>3 L + 2\<close> instructions, all well formed (registers below 8, no \<open>r5\<close> destination of a shifted addition,
  distinct operands, a rotation count of 1 to 63, a divisor with a reciprocal).\<close>

theorem generateSuperscalar_returns:
  assumes "gen_ok g" "length p = SuperscalarMaxSize" "hash64 H" "fair H" "L \<le> MAX_LATENCY"
  shows "\<exists>P g'. generateSuperscalar H L p g = Some (P, g') \<and> valid_program P \<and> psize P \<le> 3 * L + 2 \<and> gen_ok g'"
  using generateSuperscalar_ok [OF assms] by (auto simp: returns_def)

theorem generateSuperscalar_returns_witness:
  "\<exists>P g'. generateSuperscalar threes 170 (replicate 770 \<lparr>opcode = 0, dst = 0, src = 0, imod = 0, imm32 = 0\<rparr>) (Blake2Generator [1, 2, 3] 0)
     = Some (P, g') \<and> valid_program P \<and> psize P \<le> 512 \<and> gen_ok g'"
  using generateSuperscalar_returns [OF Blake2Generator_ok _ hash64_threes fair_threes,
      of "replicate 770 \<lparr>opcode = 0, dst = 0, src = 0, imod = 0, imm32 = 0\<rparr>" 170 "[1, 2, 3]" 0]
  by simp

text \<open>C40. A well-formed program runs: executed on eight registers it never reaches an unknown
  opcode or a register that does not exist, and leaves eight registers.\<close>

theorem executeSuperscalar_total:
  assumes "valid_program p" "length r = 8"
  shows "\<exists>r'. executeSuperscalar p r = Some r' \<and> length r' = 8"
  using executeSuperscalar_ok [OF assms] by (auto simp: returns_def)

definition sample_program :: SuperscalarProgram where
  "sample_program = \<lparr>programBuffer = [\<lparr>opcode = 2, dst = 1, src = 5, imod = 4, imm32 = 0\<rparr>, \<lparr>opcode = 13, dst = 2, src = 2, imod = 0, imm32 = 3\<rparr>],
     psize = 2, addrReg = 1, codeSize = 0, macroOps = 0, decodeCycles = 0, cpuLatency = 0, asicLatency = 0, mulCount = 0,
     cpuLatencies = [], asicLatencies = []\<rparr>"

theorem executeSuperscalar_total_witness:
  "\<exists>r'. executeSuperscalar sample_program [1, 2, 3, 4, 5, 6, 7, 8] = Some r' \<and> length r' = 8"
proof (rule executeSuperscalar_total)
  show "valid_program sample_program"
    by (simp add: valid_program_def sample_program_def valid_instr_def isZeroOrPowerOf2_def)
qed simp

end
