(* ===== verification/Rx_Dataset.thy ===== *)
theory Rx_Dataset
  imports Rx_Program
begin

text \<open>
  The cache and the dataset (\<^verbatim>\<open>dataset.cpp\<close>, \<^verbatim>\<open>dataset.hpp\<close>): Argon2 fills the cache memory, the
  superscalar programs are generated from the same key, and a dataset item is eight registers mixed
  with cache lines by those programs. Argon2 is a third-party library: its call is the argument
  \<open>argon2\<close>, the memory it leaves for a key. The just-in-time variant of the initialisation is not
  modelled.
\<close>

definition ArgonMemory :: nat where "ArgonMemory = 262144"
definition ArgonBlockSize :: nat where "ArgonBlockSize = 1024"
definition CacheAccesses :: nat where "CacheAccesses = 8"
definition CACHE_MAX_ACCESSES :: nat where "CACHE_MAX_ACCESSES = 16"
definition CacheLineSize :: nat where "CacheLineSize = 64"

lemmas dataset_consts [simp] = ArgonMemory_def ArgonBlockSize_def CacheAccesses_def CACHE_MAX_ACCESSES_def CacheLineSize_def

record randomx_cache =
  cache_memory :: "u8 list"
  programs :: "SuperscalarProgram list"

definition isInitialized :: "randomx_cache \<Rightarrow> bool" where
  "isInitialized c \<longleftrightarrow> psize (programs c ! 0) \<noteq> 0"

definition initCache :: "(u8 list \<Rightarrow> u8 list) \<Rightarrow> (u8 list \<Rightarrow> u8 list) \<Rightarrow> nat \<Rightarrow> randomx_cache \<Rightarrow> u8 list \<Rightarrow> randomx_cache option" where
  "initCache argon2 H L cache key =
     (let cache = cache\<lparr>cache_memory := argon2 key\<rparr>;
          g = Blake2Generator key 0
      in do {
        (cache, g) \<leftarrow> foldM (\<lambda>i (cache, g). do {
            p \<leftarrow> get (programs cache) i;
            (p, g) \<leftarrow> generateSuperscalar H L (programBuffer p) g;
            ps \<leftarrow> put (programs cache) i p;
            Some (cache\<lparr>programs := ps\<rparr>, g)
          }) [0..<CacheAccesses] (cache, g);
        Some cache
      })"

definition superscalarMul0 :: u64 where "superscalarMul0 = 6364136223846793005"
definition superscalarAdd1 :: u64 where "superscalarAdd1 = 9298411001130361340"
definition superscalarAdd2 :: u64 where "superscalarAdd2 = 12065312585734608966"
definition superscalarAdd3 :: u64 where "superscalarAdd3 = 9306329213124626780"
definition superscalarAdd4 :: u64 where "superscalarAdd4 = 5281919268842080866"
definition superscalarAdd5 :: u64 where "superscalarAdd5 = 10536153434571861004"
definition superscalarAdd6 :: u64 where "superscalarAdd6 = 3398623926847679864"
definition superscalarAdd7 :: u64 where "superscalarAdd7 = 9549104520008361294"

text \<open>The offset of a mix block in the cache memory.\<close>

definition getMixBlock :: "u64 \<Rightarrow> nat" where
  "getMixBlock registerValue =
     (let m = of_nat ((ArgonMemory * ArgonBlockSize) div CacheLineSize - 1) :: u32
      in unat (registerValue AND ucast m) * CacheLineSize)"

definition load64_at :: "u8 list \<Rightarrow> nat \<Rightarrow> u64 option" where
  "load64_at mem off = (if off + 8 \<le> length mem then Some (load64_native (drop off mem)) else None)"

definition item_start :: "u64 \<Rightarrow> u64 list" where
  "item_start itemNumber =
     (let r0 = (itemNumber + 1) * superscalarMul0
      in [r0, r0 XOR superscalarAdd1, r0 XOR superscalarAdd2, r0 XOR superscalarAdd3, r0 XOR superscalarAdd4,
          r0 XOR superscalarAdd5, r0 XOR superscalarAdd6, r0 XOR superscalarAdd7])"

definition item_turn :: "randomx_cache \<Rightarrow> nat \<Rightarrow> u64 list \<times> u64 \<Rightarrow> (u64 list \<times> u64) option" where
  "item_turn cache i s = (case s of (rl, registerValue) \<Rightarrow> do {
     let mixBlock = getMixBlock registerValue;
     p \<leftarrow> get (programs cache) i;
     rl \<leftarrow> executeSuperscalar p rl;
     rl \<leftarrow> foldM (\<lambda>q rl. do {
         w \<leftarrow> load64_at (cache_memory cache) (mixBlock + 8 * q);
         v \<leftarrow> get rl q;
         put rl q (v XOR w)
       }) [0..<8] rl;
     registerValue \<leftarrow> get rl (addrReg p);
     Some (rl, registerValue)
   })"

text \<open>The 64 bytes written to \<^verbatim>\<open>out\<close>.\<close>

definition initDatasetItem :: "randomx_cache \<Rightarrow> u64 \<Rightarrow> u8 list option" where
  "initDatasetItem cache itemNumber = do {
     (rl, _) \<leftarrow> foldM (item_turn cache) [0..<CacheAccesses] (item_start itemNumber, itemNumber);
     Some (concat (map (le_bytes 8) rl))
   }"

definition initDataset :: "randomx_cache \<Rightarrow> u8 list \<Rightarrow> nat \<Rightarrow> nat \<Rightarrow> u8 list option" where
  "initDataset cache ds startItem endItem =
     foldM (\<lambda>itemNumber ds. do {
         b \<leftarrow> initDatasetItem cache (of_nat itemNumber);
         let off = (itemNumber - startItem) * CacheLineSize;
         if off + CacheLineSize \<le> length ds then Some (blit ds off b) else None
       }) [startItem..<endItem] ds"

subsection \<open>Invariant of an initialised cache\<close>

definition cache_ok :: "randomx_cache \<Rightarrow> bool" where
  "cache_ok c \<longleftrightarrow> length (cache_memory c) = ArgonMemory * ArgonBlockSize \<and> CacheAccesses \<le> length (programs c)
     \<and> (\<forall>i < CacheAccesses. valid_program (programs c ! i))"

lemma foldM_returns_from:
  assumes "\<And>k s. m \<le> k \<Longrightarrow> k < n \<Longrightarrow> I k s \<Longrightarrow> returns (f k s) (I (Suc k))" and "I m s" "m \<le> n"
  shows "returns (foldM f [m..<n] s) (I n)"
proof -
  have "returns (foldM f [j..<n] s) (I n)" if "I j s" "m \<le> j" "j \<le> n" for j s
    using that
  proof (induction "n - j" arbitrary: j s)
    case (Suc d)
    then have j: "j < n" by simp
    obtain s' where "f j s = Some s'" "I (Suc j) s'" using assms(1) [OF Suc.prems(2) j Suc.prems(1)] by (auto simp: returns_def)
    then show ?case using Suc j by (simp add: upt_conv_Cons)
  qed simp
  from this [OF assms(2) _ assms(3)] show ?thesis by simp
qed

lemma foldM_returns:
  assumes "\<And>k s. k < n \<Longrightarrow> I k s \<Longrightarrow> returns (f k s) (I (Suc k))" and "I 0 s"
  shows "returns (foldM f [0..<n] s) (I n)"
  using assms by (intro foldM_returns_from) auto

lemma getMixBlock_bound: "getMixBlock v + 64 \<le> ArgonMemory * ArgonBlockSize"
proof -
  have "v AND 4194303 \<le> 4194303" by (rule word_and_le1)
  then have "unat (v AND 4194303) \<le> 4194303" by (simp add: word_le_nat_alt)
  then show ?thesis by (simp add: getMixBlock_def)
qed

lemma initCache_ok:
  assumes "\<And>k. length (argon2 k) = ArgonMemory * ArgonBlockSize" "hash64 H" "fair H" "L \<le> MAX_LATENCY"
    and "length (programs c) = CACHE_MAX_ACCESSES" "\<forall>p \<in> set (programs c). length (programBuffer p) = SuperscalarMaxSize"
  shows "returns (initCache argon2 H L c key) cache_ok"
proof -
  let ?f = "\<lambda>i (cache, g). do {
            p \<leftarrow> get (programs cache) i;
            (p, g) \<leftarrow> generateSuperscalar H L (programBuffer p) g;
            ps \<leftarrow> put (programs cache) i p;
            Some (cache\<lparr>programs := ps\<rparr>, g)
          }"
  define I where "I = (\<lambda>k (c' :: randomx_cache, g). cache_memory c' = argon2 key \<and> length (programs c') = CACHE_MAX_ACCESSES \<and> gen_ok g
    \<and> (\<forall>p \<in> set (programs c'). length (programBuffer p) = SuperscalarMaxSize) \<and> (\<forall>i < k. valid_program (programs c' ! i)))"
  have "returns (foldM ?f [0..<CacheAccesses] (c\<lparr>cache_memory := argon2 key\<rparr>, Blake2Generator key 0)) (I CacheAccesses)"
  proof (rule foldM_returns)
    show "I 0 (c\<lparr>cache_memory := argon2 key\<rparr>, Blake2Generator key 0)"
      using assms(5,6) by (simp add: I_def Blake2Generator_ok)
    fix k s assume k: "k < CacheAccesses" and "I k s"
    then obtain c' g where s: "s = (c', g)" "I k (c', g)" by (cases s) auto
    have len: "k < length (programs c')" "length (programBuffer (programs c' ! k)) = SuperscalarMaxSize" "gen_ok g"
      using s(2) k by (auto simp: I_def)
    obtain P g' where P: "generateSuperscalar H L (programBuffer (programs c' ! k)) g = Some (P, g')"
      "valid_program P" "length (programBuffer P) = SuperscalarMaxSize" "gen_ok g'"
      using generateSuperscalar_ok [OF len(3,2) assms(2-4)] by (auto simp: returns_def)
    have "I (Suc k) (c'\<lparr>programs := (programs c')[k := P]\<rparr>, g')"
      using s(2) P len(1) unfolding I_def by (auto simp: nth_list_update less_Suc_eq dest!: subsetD [OF set_update_subset_insert])
    then show "returns (?f k s) (I (Suc k))" using s(1) len(1) P(1) by simp
  qed
  then show ?thesis using assms(1) by (auto simp: initCache_def Let_def returns_def I_def cache_ok_def)
qed

lemma item_turn_ok:
  assumes "cache_ok c" "k < CacheAccesses" "length rl = 8"
  shows "returns (item_turn c k (rl, v)) (\<lambda>(rl, v). length rl = 8)"
proof -
  have p: "k < length (programs c)" "valid_program (programs c ! k)" using assms(1,2) by (auto simp: cache_ok_def)
  obtain r1 where r1: "executeSuperscalar (programs c ! k) rl = Some r1" "length r1 = 8"
    using executeSuperscalar_ok [OF p(2) assms(3)] by (auto simp: returns_def)
  let ?f = "\<lambda>q rl. do { w \<leftarrow> load64_at (cache_memory c) (getMixBlock v + 8 * q); x \<leftarrow> get rl q; put rl q (x XOR w) }"
  have "returns (foldM ?f [0..<8] r1) (\<lambda>r. length r = 8)"
  proof (rule foldM_returns [where I = "\<lambda>_ r. length r = 8"])
    fix q :: nat and r :: "u64 list" assume "q < 8" "length r = 8"
    then show "returns (?f q r) (\<lambda>r. length r = 8)"
      using getMixBlock_bound [of v] assms(1) by (simp add: load64_at_def cache_ok_def)
  qed (rule r1(2))
  then obtain r2 where r2: "foldM ?f [0..<8] r1 = Some r2" "length r2 = 8" by (auto simp: returns_def)
  have "addrReg (programs c ! k) < length r2" using p(2) r2(2) by (simp add: valid_program_def)
  then show ?thesis using p(1) r1(1) r2 by (simp add: item_turn_def Let_def)
qed

lemma initDatasetItem_ok:
  assumes "cache_ok c"
  shows "returns (initDatasetItem c n) (\<lambda>b. length b = 64)"
proof -
  have "returns (foldM (item_turn c) [0..<CacheAccesses] (item_start n, n)) (\<lambda>(rl, v). length rl = 8)"
    by (rule foldM_returns [where I = "\<lambda>_ (rl, v). length rl = 8"])
       (use item_turn_ok [OF assms] in \<open>auto simp: item_start_def Let_def\<close>)
  then obtain rl v where "foldM (item_turn c) [0..<CacheAccesses] (item_start n, n) = Some (rl, v)" "length rl = 8"
    by (auto simp: returns_def)
  then show ?thesis by (simp add: initDatasetItem_def length_concat comp_def sum_list_triv)
qed

lemma chunk_blit:
  assumes "length b = 64" "64 * Suc k \<le> length ds" "64 * Suc i \<le> length ds"
  shows "chunk 64 i (blit ds (64 * k) b) = (if i = k then b else chunk 64 i ds)"
proof (rule nth_equalityI)
  have len: "length (blit ds (64 * k) b) = length ds" using assms by simp
  show "length (chunk 64 i (blit ds (64 * k) b)) = length (if i = k then b else chunk 64 i ds)"
    using assms len by (simp add: chunk_def)
  fix j assume "j < length (chunk 64 i (blit ds (64 * k) b))"
  then have j: "j < 64" by (simp add: chunk_def)
  have "chunk 64 i (blit ds (64 * k) b) ! j = blit ds (64 * k) b ! (64 * i + j)"
    using len assms(3) j by (intro nth_chunk) auto
  also have "\<dots> = (if 64 * k \<le> 64 * i + j \<and> 64 * i + j < 64 * k + 64 then b ! (64 * i + j - 64 * k) else ds ! (64 * i + j))"
    using assms j nth_blit [of "64 * k" b ds "64 * i + j"] by simp
  also have "\<dots> = (if i = k then b else chunk 64 i ds) ! j"
  proof (cases i k rule: linorder_cases)
    case less
    then have "64 * i + j < 64 * k" using j by linarith
    then show ?thesis using less nth_chunk [OF assms(3) j] by simp
  next
    case equal
    then show ?thesis using j by simp
  next
    case greater
    then have "\<not> 64 * i + j < 64 * k + 64" by linarith
    then show ?thesis using greater nth_chunk [OF assms(3) j] by simp
  qed
  finally show "chunk 64 i (blit ds (64 * k) b) ! j = (if i = k then b else chunk 64 i ds) ! j" .
qed

lemma initDataset_ok:
  assumes "cache_ok c" "s \<le> e" "64 * (e - s) \<le> length ds"
  shows "returns (initDataset c ds s e) (\<lambda>ds'. length ds' = length ds
    \<and> (\<forall>i < e - s. initDatasetItem c (of_nat (s + i)) = Some (chunk 64 i ds')))"
  unfolding initDataset_def
proof (rule foldM_returns_from [where I = "\<lambda>k ds'. length ds' = length ds \<and> (\<forall>i < k - s. initDatasetItem c (of_nat (s + i)) = Some (chunk 64 i ds'))"])
  fix k ds' assume k: "s \<le> k" "k < e" and I: "length ds' = length ds \<and> (\<forall>i < k - s. initDatasetItem c (of_nat (s + i)) = Some (chunk 64 i ds'))"
  obtain b where b: "initDatasetItem c (of_nat k) = Some b" "length b = 64"
    using initDatasetItem_ok [OF assms(1), of "of_nat k"] by (auto simp: returns_def)
  have fit: "64 * Suc (k - s) \<le> length ds"
  proof -
    have "64 * Suc (k - s) \<le> 64 * (e - s)" using k by (intro mult_le_mono2) simp
    then show ?thesis using assms(3) by simp
  qed
  have "initDatasetItem c (of_nat (s + i)) = Some (chunk 64 i (blit ds' (64 * (k - s)) b))" if "i < Suc k - s" for i
  proof -
    have i: "i \<le> k - s" using that k by simp
    then have "64 * Suc i \<le> 64 * Suc (k - s)" by (intro mult_le_mono2) simp
    also have "\<dots> \<le> length ds'" using fit I by simp
    finally have "64 * Suc i \<le> length ds'" .
    then have "chunk 64 i (blit ds' (64 * (k - s)) b) = (if i = k - s then b else chunk 64 i ds')"
      using chunk_blit [OF b(2), of "k - s" ds' i] fit I by simp
    then show ?thesis using i I b(1) k by (cases "i = k - s") auto
  qed
  then show "returns (initDatasetItem c (of_nat k) \<bind> (\<lambda>b. let off = (k - s) * CacheLineSize in
      if off + CacheLineSize \<le> length ds' then Some (blit ds' off b) else None))
      (\<lambda>ds'. length ds' = length ds \<and> (\<forall>i < Suc k - s. initDatasetItem c (of_nat (s + i)) = Some (chunk 64 i ds')))"
    using b fit I by (simp add: mult.commute)
qed (use assms(2) in auto)

text \<open>C8. A cache initialised from any key serves the whole dataset: with an Argon2 that fills the cache
  memory and a fair generator, the initialisation returns, every dataset item of a range is computed
  without leaving the cache or a program, and the dataset memory holds at the place of each item the
  64 bytes that computing that item alone gives.\<close>

theorem randomx_dataset_correct:
  assumes "\<And>k. length (argon2 k) = ArgonMemory * ArgonBlockSize" "hash64 H" "fair H" "L \<le> MAX_LATENCY"
    and "length (programs c) = CACHE_MAX_ACCESSES" "list_all (\<lambda>p. length (programBuffer p) = SuperscalarMaxSize) (programs c)"
    and "s \<le> e" "64 * (e - s) \<le> length ds"
  shows "\<exists>c' ds'. initCache argon2 H L c key = Some c' \<and> initDataset c' ds s e = Some ds' \<and> length ds' = length ds
    \<and> map (\<lambda>i. Some (chunk 64 i ds')) [0..<e - s] = map (\<lambda>i. initDatasetItem c' (of_nat (s + i))) [0..<e - s]"
proof -
  obtain c' where c': "initCache argon2 H L c key = Some c'" "cache_ok c'"
    using initCache_ok [of argon2 H L c key, OF assms(1-5)] assms(6) by (auto simp: returns_def list_all_iff)
  then show ?thesis using initDataset_ok [OF c'(2) assms(7,8)] by (auto simp: returns_def)
qed

definition empty_program :: SuperscalarProgram where
  "empty_program = \<lparr>programBuffer = replicate 770 \<lparr>opcode = 0, dst = 0, src = 0, imod = 0, imm32 = 0\<rparr>,
     psize = 0, addrReg = 0, codeSize = 0, macroOps = 0, decodeCycles = 0, cpuLatency = 0, asicLatency = 0, mulCount = 0,
     cpuLatencies = [], asicLatencies = []\<rparr>"

theorem randomx_dataset_correct_witness:
  "\<exists>c' ds'. initCache (\<lambda>k. replicate 268435456 9) threes 170 \<lparr>cache_memory = [], programs = replicate 16 empty_program\<rparr> [1, 2] = Some c'
    \<and> initDataset c' (replicate 128 0) 5 7 = Some ds' \<and> length ds' = 128
    \<and> [Some (chunk 64 0 ds'), Some (chunk 64 1 ds')] = [initDatasetItem c' 5, initDatasetItem c' 6]"
proof -
  have u: "[0..<7 - 5] = [0, 1 :: nat]" by code_simp
  have "\<exists>c' ds'. initCache (\<lambda>k. replicate 268435456 9) threes 170 \<lparr>cache_memory = [], programs = replicate 16 empty_program\<rparr> [1, 2] = Some c'
    \<and> initDataset c' (replicate 128 0) 5 7 = Some ds' \<and> length ds' = length (replicate 128 (0 :: u8))
    \<and> map (\<lambda>i. Some (chunk 64 i ds')) [0..<7 - 5] = map (\<lambda>i. initDatasetItem c' (of_nat (5 + i))) [0..<7 - 5]"
    by (rule randomx_dataset_correct [OF _ hash64_threes fair_threes]) (simp_all add: empty_program_def list_all_iff)
  then show ?thesis unfolding u by simp
qed

end
