(* ===== verification/Rx_Config.thy ===== *)
theory Rx_Config
  imports Rx_Dataset
begin

text \<open>
  The RandomX configurations (\<^verbatim>\<open>randomx.h\<close>, \<^verbatim>\<open>randomx.cpp\<close>): the base configuration and the variants
  that override parts of it, the masks \<^verbatim>\<open>Apply\<close> computes from the scratchpad sizes, the dispatch
  table it fills from the instruction frequencies, and the cascade of comparisons by which the
  bytecode compiler (\<^verbatim>\<open>bytecode_machine.cpp\<close>) reads the same frequencies. A 128-bit vector is the
  list of its four 32-bit lanes, the lowest first. The machine code that \<^verbatim>\<open>Apply\<close> patches is not
  modelled.
\<close>

subsection \<open>Instruction types\<close>

text \<open>The constructors carry the prefix \<open>T_\<close>, because the superscalar instructions have the same names.\<close>

datatype InstructionType =
  T_IADD_RS | T_IADD_M | T_ISUB_R | T_ISUB_M | T_IMUL_R | T_IMUL_M | T_IMULH_R | T_IMULH_M | T_ISMULH_R
  | T_ISMULH_M | T_IMUL_RCP | T_INEG_R | T_IXOR_R | T_IXOR_M | T_IROR_R | T_IROL_R | T_ISWAP_R | T_FSWAP_R
  | T_FADD_R | T_FADD_M | T_FSUB_R | T_FSUB_M | T_FSCAL_R | T_FMUL_R | T_FDIV_M | T_FSQRT_R | T_CBRANCH
  | T_CFROUND | T_ISTORE | T_NOP

definition instruction_types :: "InstructionType list" where
  "instruction_types = [T_IADD_RS, T_IADD_M, T_ISUB_R, T_ISUB_M, T_IMUL_R, T_IMUL_M, T_IMULH_R, T_IMULH_M, T_ISMULH_R,
     T_ISMULH_M, T_IMUL_RCP, T_INEG_R, T_IXOR_R, T_IXOR_M, T_IROR_R, T_IROL_R, T_ISWAP_R, T_FSWAP_R,
     T_FADD_R, T_FADD_M, T_FSUB_R, T_FSUB_M, T_FSCAL_R, T_FMUL_R, T_FDIV_M, T_FSQRT_R, T_CBRANCH,
     T_CFROUND, T_ISTORE, T_NOP]"

subsection \<open>Configurations\<close>

definition DatasetBaseSize :: nat where "DatasetBaseSize = 2147483648"
definition DatasetExtraSize :: nat where "DatasetExtraSize = 33554368"
definition JumpBits :: nat where "JumpBits = 8"
definition JumpOffset :: nat where "JumpOffset = 8"
definition CacheLineAlignMask :: u64 where
  "CacheLineAlignMask = (of_nat DatasetBaseSize - 1) AND NOT (64 - 1)"
definition DatasetExtraItems :: nat where "DatasetExtraItems = DatasetExtraSize div 64"
definition ConditionMask :: u32 where
  "ConditionMask = push_bit JumpOffset (push_bit JumpBits 1 - 1)"

type_synonym vec128 = "u32 list"

definition rx_set_int_vec_i128 :: "u32 \<Rightarrow> u32 \<Rightarrow> u32 \<Rightarrow> u32 \<Rightarrow> vec128" where
  "rx_set_int_vec_i128 i3 i2 i1 i0 = [i0, i1, i2, i3]"

record rx_config =
  ArgonIterations :: nat
  ArgonLanes :: nat
  ArgonSalt :: "u8 list"
  SuperscalarLatency :: nat
  ScratchpadL1_Size :: u32
  ScratchpadL2_Size :: u32
  ScratchpadL3_Size :: u32
  ProgramSize :: nat
  ProgramIterations :: nat
  ProgramCount :: nat
  FREQ :: "InstructionType \<Rightarrow> nat"
  fillAes4Rx4_Key :: "vec128 list"
  Tweak_V2_CFROUND :: bool
  Tweak_V2_AES :: bool
  Tweak_V2_PREFETCH :: bool
  Tweak_V2_COMMITMENT :: bool
  AddressMask :: "u32 list"
  ScratchpadL3Mask :: u32
  ScratchpadL3Mask64 :: u32

fun base_FREQ :: "InstructionType \<Rightarrow> nat" where
  "base_FREQ T_IADD_RS = 16" | "base_FREQ T_IADD_M = 7" | "base_FREQ T_ISUB_R = 16" | "base_FREQ T_ISUB_M = 7"
| "base_FREQ T_IMUL_R = 16" | "base_FREQ T_IMUL_M = 4" | "base_FREQ T_IMULH_R = 4" | "base_FREQ T_IMULH_M = 1"
| "base_FREQ T_ISMULH_R = 4" | "base_FREQ T_ISMULH_M = 1" | "base_FREQ T_IMUL_RCP = 8" | "base_FREQ T_INEG_R = 2"
| "base_FREQ T_IXOR_R = 15" | "base_FREQ T_IXOR_M = 5" | "base_FREQ T_IROR_R = 8" | "base_FREQ T_IROL_R = 2"
| "base_FREQ T_ISWAP_R = 4" | "base_FREQ T_FSWAP_R = 4" | "base_FREQ T_FADD_R = 16" | "base_FREQ T_FADD_M = 5"
| "base_FREQ T_FSUB_R = 16" | "base_FREQ T_FSUB_M = 5" | "base_FREQ T_FSCAL_R = 6" | "base_FREQ T_FMUL_R = 32"
| "base_FREQ T_FDIV_M = 4" | "base_FREQ T_FSQRT_R = 6" | "base_FREQ T_CBRANCH = 25" | "base_FREQ T_CFROUND = 1"
| "base_FREQ T_ISTORE = 16" | "base_FREQ T_NOP = 0"

text \<open>The calculated masks have no value before \<open>Apply\<close>; they are zero here.\<close>

definition RandomX_ConfigurationBase :: rx_config where
  "RandomX_ConfigurationBase =
     \<lparr>ArgonIterations = 3, ArgonLanes = 1, ArgonSalt = [82, 97, 110, 100, 111, 109, 88, 3],
      SuperscalarLatency = 170,
      ScratchpadL1_Size = 16384, ScratchpadL2_Size = 262144, ScratchpadL3_Size = 2097152,
      ProgramSize = 256, ProgramIterations = 2048, ProgramCount = 8,
      FREQ = base_FREQ,
      fillAes4Rx4_Key =
        [rx_set_int_vec_i128 2581975615 794062123 3515039195 1679928029,
         rx_set_int_vec_i128 2782907877 116890963 3062972245 2987275344,
         rx_set_int_vec_i128 387711679 178546591 1365146543 1547622660,
         rx_set_int_vec_i128 3638481553 3446093701 3884932360 2237806435,
         rx_set_int_vec_i128 580845492 1028754285 3822495654 3045224307,
         rx_set_int_vec_i128 2993862610 3909242190 2618340313 3344329715,
         rx_set_int_vec_i128 4131123111 732521994 4150633355 4067674599,
         rx_set_int_vec_i128 3232790061 201773565 2438478302 2055001609],
      Tweak_V2_CFROUND = False, Tweak_V2_AES = False, Tweak_V2_PREFETCH = False, Tweak_V2_COMMITMENT = False,
      AddressMask = replicate 4 0, ScratchpadL3Mask = 0, ScratchpadL3Mask64 = 0\<rparr>"

definition RandomX_ConfigurationMonero :: rx_config where
  "RandomX_ConfigurationMonero = RandomX_ConfigurationBase"

definition RandomX_ConfigurationMoneroV2 :: rx_config where
  "RandomX_ConfigurationMoneroV2 = RandomX_ConfigurationBase
     \<lparr>ProgramSize := 384, Tweak_V2_CFROUND := True, Tweak_V2_AES := True, Tweak_V2_PREFETCH := True,
      Tweak_V2_COMMITMENT := True\<rparr>"

definition RandomX_ConfigurationWownero :: rx_config where
  "RandomX_ConfigurationWownero =
     (let k = [rx_set_int_vec_i128 3476397717 337609399 2147214502 4170204765,
              rx_set_int_vec_i128 1732378588 3176946371 4276627338 1784005712,
              rx_set_int_vec_i128 1026706092 2804390610 3575971300 290211748,
              rx_set_int_vec_i128 1995889416 1121180633 2578034431 2165062186]
      in RandomX_ConfigurationBase
     \<lparr>ArgonSalt := [82, 97, 110, 100, 111, 109, 87, 79, 87, 1], ProgramIterations := 1024, ProgramCount := 16,
      ScratchpadL2_Size := 131072, ScratchpadL3_Size := 1048576,
      FREQ := base_FREQ (T_IADD_RS := 25, T_IROR_R := 10, T_IROL_R := 0, T_FSWAP_R := 8, T_FADD_R := 20,
        T_FSUB_R := 20, T_FMUL_R := 20, T_CBRANCH := 16),
      fillAes4Rx4_Key := k @ k\<rparr>)"

definition RandomX_ConfigurationArqma :: rx_config where
  "RandomX_ConfigurationArqma = RandomX_ConfigurationBase
     \<lparr>ArgonIterations := 1, ArgonSalt := [82, 97, 110, 100, 111, 109, 65, 82, 81, 1], ProgramIterations := 1024,
      ProgramCount := 4, ScratchpadL2_Size := 131072, ScratchpadL3_Size := 262144\<rparr>"

definition RandomX_ConfigurationGraft :: rx_config where
  "RandomX_ConfigurationGraft = RandomX_ConfigurationBase
     \<lparr>ArgonLanes := 2, ArgonSalt := [82, 97, 110, 100, 111, 109, 88, 45, 71, 114, 97, 102, 116, 1],
      ProgramSize := 280, FREQ := base_FREQ (T_IROR_R := 7, T_IROL_R := 3)\<rparr>"

definition RandomX_ConfigurationSafex :: rx_config where
  "RandomX_ConfigurationSafex = RandomX_ConfigurationBase\<lparr>ArgonSalt := [82, 97, 110, 100, 111, 109, 83, 70, 88, 1]\<rparr>"

definition RandomX_ConfigurationYada :: rx_config where
  "RandomX_ConfigurationYada = RandomX_ConfigurationBase
     \<lparr>ArgonSalt := [82, 97, 110, 100, 111, 109, 88, 89, 97, 100, 97, 67, 111, 105, 110, 3],
      SuperscalarLatency := 150, ArgonIterations := 4\<rparr>"

definition configurations :: "rx_config list" where
  "configurations = [RandomX_ConfigurationMonero, RandomX_ConfigurationMoneroV2, RandomX_ConfigurationWownero,
     RandomX_ConfigurationArqma, RandomX_ConfigurationGraft, RandomX_ConfigurationSafex, RandomX_ConfigurationYada]"

subsection \<open>Masks and dispatch\<close>

definition Apply :: "rx_config \<Rightarrow> rx_config" where
  "Apply c =
     (let l1 = (ScratchpadL1_Size c div 8 - 1) * 8;
          l2 = (ScratchpadL2_Size c div 8 - 1) * 8
      in c\<lparr>AddressMask := [l2, l1, l1, l1],
           ScratchpadL3Mask := (ScratchpadL3_Size c div 8 - 1) * 8,
           ScratchpadL3Mask64 := (ScratchpadL3_Size c div 8 div 8 - 1) * 64\<rparr>)"

text \<open>The dispatch table of the just-in-time compiler: each instruction type is entered at the next
  free places, as often as its frequency says (\<^verbatim>\<open>INST_HANDLE\<close>). The variants of a handler for one
  processor feature stand for the same instruction.\<close>

definition inst_handle :: "rx_config \<Rightarrow> InstructionType \<Rightarrow> InstructionType list \<times> nat \<times> nat \<Rightarrow> (InstructionType list \<times> nat \<times> nat) option" where
  "inst_handle c t = (\<lambda>(engine, k, freq_sum).
     (let freq_sum = freq_sum + FREQ c t
      in do {
        engine \<leftarrow> foldM (\<lambda>k engine. put engine k t) [k..<freq_sum] engine;
        Some (engine, max k freq_sum, freq_sum)
      }))"

text \<open>The order of the \<^verbatim>\<open>INST_HANDLE\<close> lines.\<close>

definition inst_order :: "InstructionType list" where
  "inst_order = [T_IADD_RS, T_IADD_M, T_ISUB_R, T_ISUB_M, T_IMUL_R, T_IMUL_M, T_IMULH_R, T_IMULH_M,
     T_ISMULH_R, T_ISMULH_M, T_IMUL_RCP, T_INEG_R, T_IXOR_R, T_IXOR_M, T_IROR_R,
     T_IROL_R, T_ISWAP_R, T_FSWAP_R, T_FADD_R, T_FADD_M, T_FSUB_R, T_FSUB_M, T_FSCAL_R,
     T_FMUL_R, T_FDIV_M, T_FSQRT_R, T_CBRANCH, T_CFROUND, T_ISTORE, T_NOP]"

definition inst_table :: "rx_config \<Rightarrow> InstructionType list \<Rightarrow> InstructionType list option" where
  "inst_table c engine = map_option fst (foldM (inst_handle c) inst_order (engine, 0, 0))"

text \<open>The cascade of \<^verbatim>\<open>compileInstruction\<close>: the operation code is compared with the frequency of each
  type in turn, in the order of the source, and reduced by it. Past the last type is
  \<^verbatim>\<open>UNREACHABLE\<close>.\<close>

fun cascade :: "(InstructionType \<Rightarrow> nat) \<Rightarrow> InstructionType list \<Rightarrow> nat \<Rightarrow> InstructionType option" where
  "cascade fr [] op = None"
| "cascade fr (t # ts) op = (if op < fr t then Some t else cascade fr ts (op - fr t))"

definition compare_order :: "InstructionType list" where
  "compare_order = [T_IADD_RS, T_IADD_M, T_ISUB_R, T_ISUB_M, T_IMUL_R, T_IMUL_M, T_IMULH_R, T_IMULH_M, T_ISMULH_R,
     T_ISMULH_M, T_IMUL_RCP, T_INEG_R, T_IXOR_R, T_IXOR_M, T_IROR_R, T_IROL_R, T_ISWAP_R, T_FSWAP_R,
     T_FADD_R, T_FADD_M, T_FSUB_R, T_FSUB_M, T_FSCAL_R, T_FMUL_R, T_FDIV_M, T_FSQRT_R, T_CBRANCH,
     T_CFROUND, T_ISTORE, T_NOP]"

definition decode_type :: "rx_config \<Rightarrow> u8 \<Rightarrow> InstructionType option" where
  "decode_type c op = cascade (FREQ c) compare_order (unat op)"

subsection \<open>The dispatch table agrees with the cascade\<close>

lemma foldM_append: "foldM f (xs @ ys) s = Option.bind (foldM f xs s) (foldM f ys)"
  by (induction xs arbitrary: s) (auto split: bind_splits)

text \<open>The two orders, read off two source files, are that of the enumeration.\<close>

lemma orders: "inst_order = instruction_types" "compare_order = instruction_types"
  by (simp_all add: inst_order_def compare_order_def instruction_types_def)

lemma cascade_append:
  "cascade fr (ts @ us) op =
     (if op < sum_list (map fr ts) then cascade fr ts op else cascade fr us (op - sum_list (map fr ts)))"
  by (induction ts arbitrary: op) auto

lemma cascade_total: "op < sum_list (map fr ts) \<Longrightarrow> \<exists>t \<in> set ts. cascade fr ts op = Some t \<and> fr t > 0"
proof (induction ts arbitrary: op)
  case (Cons t ts)
  show ?case
  proof (cases "op < fr t")
    case False
    then show ?thesis using Cons.IH [of "op - fr t"] Cons.prems by auto
  qed auto
qed simp

lemma put_range:
  assumes "k \<le> n" "n \<le> length e"
  shows "returns (foldM (\<lambda>k e. put e k t) [k..<n] e)
    (\<lambda>e'. length e' = length e \<and> (\<forall>i < length e. e' ! i = (if k \<le> i \<and> i < n then t else e ! i)))"
proof (rule foldM_returns_from [where I = "\<lambda>j e'. length e' = length e \<and> (\<forall>i < length e. e' ! i = (if k \<le> i \<and> i < j then t else e ! i))"])
  fix j s
  assume "k \<le> j" "j < n" and s: "length s = length e \<and> (\<forall>i < length e. s ! i = (if k \<le> i \<and> i < j then t else e ! i))"
  then have "put s j t = Some (s[j := t])" and "j < length s" using assms by simp_all
  then show "returns (put s j t) (\<lambda>e'. length e' = length e \<and> (\<forall>i < length e. e' ! i = (if k \<le> i \<and> i < Suc j then t else e ! i)))"
    using s \<open>k \<le> j\<close> by (auto simp: nth_list_update less_Suc_eq)
qed (use assms in auto)

definition table_upto :: "(InstructionType \<Rightarrow> nat) \<Rightarrow> InstructionType list \<Rightarrow> InstructionType list \<times> nat \<times> nat \<Rightarrow> bool" where
  "table_upto fr ts = (\<lambda>(e, k, s). length e = 256 \<and> k = sum_list (map fr ts) \<and> s = k
     \<and> (\<forall>i < k. cascade fr ts i = Some (e ! i)))"

lemma inst_handle_step:
  assumes "table_upto (FREQ c) ts st" "sum_list (map (FREQ c) (ts @ [t])) \<le> 256"
  shows "returns (inst_handle c t st) (table_upto (FREQ c) (ts @ [t]))"
proof -
  obtain e k s where st: "st = (e, k, s)" by (cases st)
  have k: "length e = 256" "k = sum_list (map (FREQ c) ts)" "s = k" "\<forall>i < k. cascade (FREQ c) ts i = Some (e ! i)"
    using assms(1) by (auto simp: table_upto_def st)
  obtain e' where e': "foldM (\<lambda>k e. put e k t) [k..<k + FREQ c t] e = Some e'" "length e' = 256"
    "\<forall>i < 256. e' ! i = (if k \<le> i \<and> i < k + FREQ c t then t else e ! i)"
    using put_range [of k "k + FREQ c t" e t] k(1,2) assms(2) by (auto simp: returns_def)
  have "inst_handle c t st = Some (e', k + FREQ c t, k + FREQ c t)"
    using e'(1) k(3) by (simp add: st inst_handle_def Let_def)
  moreover have "cascade (FREQ c) (ts @ [t]) i = Some (e' ! i)" if "i < k + FREQ c t" for i
  proof (cases "i < k")
    case True
    then show ?thesis using e'(3) k assms(2) that by (simp add: cascade_append)
  next
    case False
    then show ?thesis using e'(3) k assms(2) that by (simp add: cascade_append less_diff_conv2)
  qed
  ultimately show ?thesis using k e'(2) by (simp add: table_upto_def)
qed

lemma inst_handles:
  assumes "sum_list (map (FREQ c) (ts @ us)) \<le> 256" "table_upto (FREQ c) ts st"
  shows "returns (foldM (inst_handle c) us st) (table_upto (FREQ c) (ts @ us))"
  using assms
proof (induction us arbitrary: ts st)
  case (Cons u us)
  have "returns (inst_handle c u st) (table_upto (FREQ c) (ts @ [u]))"
    using Cons.prems by (intro inst_handle_step) auto
  then obtain st' where "inst_handle c u st = Some st'" "table_upto (FREQ c) (ts @ [u]) st'"
    by (auto simp: returns_def)
  then show ?case using Cons.IH [of "ts @ [u]" st'] Cons.prems(1) by simp
qed simp

lemma inst_table_cascade:
  assumes "sum_list (map (FREQ c) instruction_types) = 256" "length e = 256"
  shows "returns (inst_table c e) (\<lambda>e'. length e' = 256 \<and> (\<forall>op. decode_type c op = Some (e' ! unat op)))"
proof -
  have "returns (foldM (inst_handle c) instruction_types (e, 0, 0)) (table_upto (FREQ c) ([] @ instruction_types))"
    using assms by (intro inst_handles) (auto simp: table_upto_def)
  moreover have "unat op < 256" for op :: u8 using unsigned_less [of op] by simp
  ultimately show ?thesis
    using assms by (auto simp: returns_def table_upto_def inst_table_def decode_type_def orders)
qed

subsection \<open>What every configuration satisfies\<close>

definition config_ok :: "rx_config \<Rightarrow> bool" where
  "config_ok c \<longleftrightarrow> sum_list (map (FREQ c) instruction_types) = 256
     \<and> 0 < ProgramSize c \<and> ProgramSize c \<le> 384
     \<and> length (AddressMask c) = 4
     \<and> (\<forall>m \<in> set (ScratchpadL3Mask c # AddressMask c). unat m + 8 \<le> unat (ScratchpadL3_Size c))
     \<and> unat (ScratchpadL3Mask64 c) + 64 \<le> unat (ScratchpadL3_Size c)
     \<and> 64 dvd unat (ScratchpadL3_Size c)
     \<and> length (fillAes4Rx4_Key c) = 8 \<and> list_all (\<lambda>k. length k = 4) (fillAes4Rx4_Key c)"

lemmas configuration_defs = RandomX_ConfigurationBase_def RandomX_ConfigurationMonero_def
  RandomX_ConfigurationMoneroV2_def RandomX_ConfigurationWownero_def RandomX_ConfigurationArqma_def
  RandomX_ConfigurationGraft_def RandomX_ConfigurationSafex_def RandomX_ConfigurationYada_def

lemma config_ok_all:
  "config_ok (Apply RandomX_ConfigurationMonero)" "config_ok (Apply RandomX_ConfigurationMoneroV2)"
  "config_ok (Apply RandomX_ConfigurationWownero)" "config_ok (Apply RandomX_ConfigurationArqma)"
  "config_ok (Apply RandomX_ConfigurationGraft)" "config_ok (Apply RandomX_ConfigurationSafex)"
  "config_ok (Apply RandomX_ConfigurationYada)"
  by (simp_all add: config_ok_def Apply_def configuration_defs instruction_types_def Let_def rx_set_int_vec_i128_def)

lemma config_ok_configurations: "c \<in> set configurations \<Longrightarrow> config_ok (Apply c)"
  using config_ok_all by (auto simp: configurations_def)

text \<open>C16. For every configuration of the program, filling the dispatch table by the frequencies assigns
  each of the 256 opcodes exactly once, inside the table, and the table sends every opcode to the
  instruction type that the interpreter's cascade of comparisons decodes it to: the compiled and
  the interpreted machine read the same instruction set.\<close>

theorem dispatch_agrees:
  assumes "c \<in> set configurations" "length engine = 256"
  shows "\<exists>engine'. inst_table (Apply c) engine = Some engine' \<and> length engine' = 256
    \<and> (\<forall>opcode. decode_type (Apply c) opcode = Some (engine' ! unat opcode))"
  using inst_table_cascade [of "Apply c" engine] config_ok_configurations [OF assms(1)] assms(2)
  by (simp add: returns_def config_ok_def)

theorem dispatch_agrees_witness:
  "\<exists>engine'. inst_table (Apply RandomX_ConfigurationWownero) (replicate 256 T_NOP) = Some engine' \<and> length engine' = 256
    \<and> (\<forall>opcode. decode_type (Apply RandomX_ConfigurationWownero) opcode = Some (engine' ! unat opcode))"
  by (rule dispatch_agrees) (simp_all add: configurations_def)

end
