(* ===== verification/Rx_SoftAes.thy ===== *)
theory Rx_SoftAes
  imports Nm_Aes Rx_Config
begin

text \<open>
  The software AES round of RandomX (\<^verbatim>\<open>soft_aes.cpp\<close>, \<^verbatim>\<open>soft_aes.h\<close>): the tables that the static
  initialiser computes and the two forms of the encryption and decryption round that read them,
  byte by byte (template argument 1) and by shifting lanes (template argument 2). A vector is the
  list of its four 32-bit lanes, the lowest first. The tables are an argument of the rounds, as the
  initialiser returns them.
\<close>

subsection \<open>Tables\<close>

text \<open>The loop of \<^verbatim>\<open>mul_gf2\<close>; its counter \<open>k\<close> is \<open>2 ^ e\<close>.\<close>

function mul_loop :: "u32 \<Rightarrow> u32 \<Rightarrow> u32 \<Rightarrow> nat \<Rightarrow> u32" where
  "mul_loop s i j e =
     (if e < 8 \<and> j \<noteq> 0
      then let k = push_bit e 1;
               (s, j) = (if j AND k \<noteq> 0 then (s XOR i, j XOR k) else (s, j));
               i = push_bit 1 i;
               i = (if i AND 0x100 \<noteq> 0 then i XOR 0x11b else i)
           in mul_loop s i j (Suc e)
      else s)"
  by pat_completeness auto
termination by (relation "measure (\<lambda>(s, i, j, e). 8 - e)") auto

definition mul_gf2 :: "u32 \<Rightarrow> u32 \<Rightarrow> u32" where
  "mul_gf2 b c = mul_loop 0 b c 0"

definition ROTL8 :: "u8 \<Rightarrow> nat \<Rightarrow> u8" where
  "ROTL8 x n = push_bit n x OR drop_bit (8 - n) x"

definition saes_p :: "u8 \<Rightarrow> u8" where
  "saes_p p = p XOR push_bit 1 p XOR (if p AND 0x80 \<noteq> 0 then 0x1b else 0)"

definition saes_q :: "u8 \<Rightarrow> u8" where
  "saes_q q =
     (let q = q XOR push_bit 1 q;
          q = q XOR push_bit 2 q;
          q = q XOR push_bit 4 q
      in q XOR (if q AND 0x80 \<noteq> 0 then 0x09 else 0))"

definition saes_value :: "u8 \<Rightarrow> u8" where
  "saes_value q = q XOR ROTL8 q 1 XOR ROTL8 q 2 XOR ROTL8 q 3 XOR ROTL8 q 4 XOR 0x63"

text \<open>The loop that fills both S-boxes. A loop that does not end has the value \<open>None\<close>.\<close>

partial_function (option) sbox_loop :: "u8 \<Rightarrow> u8 \<Rightarrow> u8 list \<Rightarrow> u8 list \<Rightarrow> (u8 list \<times> u8 list) option" where
  "sbox_loop p q sb sr =
     (let p = saes_p p; q = saes_q q; value = saes_value q
      in do {
        sb \<leftarrow> put sb (unat p) value;
        sr \<leftarrow> put sr (unat value) p;
        if p \<noteq> 1 then sbox_loop p q sb sr else Some (sb, sr)
      })"

definition saes_sboxes :: "(u8 list \<times> u8 list) option" where
  "saes_sboxes = do {
     (sb, sr) \<leftarrow> sbox_loop 1 1 (replicate 256 0) (replicate 256 0);
     sb \<leftarrow> put sb 0 0x63;
     sr \<leftarrow> put sr 0x63 0;
     Some (sb, sr)
   }"

definition rot8 :: "u32 \<Rightarrow> u32" where "rot8 w = push_bit 8 w OR drop_bit 24 w"

definition enc_word :: "u8 \<Rightarrow> u32" where
  "enc_word s = le_word [ucast (mul_gf2 (ucast s) 2), s, s, ucast (mul_gf2 (ucast s) 3)]"

definition dec_word :: "u8 \<Rightarrow> u32" where
  "dec_word s = le_word [ucast (mul_gf2 (ucast s) 14), ucast (mul_gf2 (ucast s) 9),
     ucast (mul_gf2 (ucast s) 13), ucast (mul_gf2 (ucast s) 11)]"

text \<open>The four tables made from one word per byte, each a rotation of the one before.\<close>

definition lut_of :: "(u8 \<Rightarrow> u32) \<Rightarrow> u8 list \<Rightarrow> u32 list list" where
  "lut_of word sb = map (\<lambda>k. map (\<lambda>i. (rot8 ^^ k) (word (sb ! i))) [0..<256]) [0..<4]"

definition SAESInitializer :: "(u32 list list \<times> u32 list list) option" where
  "SAESInitializer = do {
     (sb, sr) \<leftarrow> saes_sboxes;
     Some (lut_of enc_word sb, lut_of dec_word sr)
   }"

subsection \<open>Rounds\<close>

definition vec_bytes :: "vec128 \<Rightarrow> u8 list" where
  "vec_bytes v = concat (map (le_bytes 4) v)"

definition rx_xor_vec_i128 :: "vec128 \<Rightarrow> vec128 \<Rightarrow> vec128" where
  "rx_xor_vec_i128 a b = map2 (\<lambda>x y. x XOR y) a b"

definition lut_at :: "u32 list list \<Rightarrow> nat \<Rightarrow> u8 \<Rightarrow> u32" where
  "lut_at lut k x = lut ! k ! unat x"

definition aesenc1 :: "u32 list list \<Rightarrow> vec128 \<Rightarrow> vec128 \<Rightarrow> vec128" where
  "aesenc1 lutEnc v key =
     (let s = vec_bytes v;
          s0 = lut_at lutEnc 0 (s ! 0); s1 = lut_at lutEnc 0 (s ! 4);
          s2 = lut_at lutEnc 0 (s ! 8); s3 = lut_at lutEnc 0 (s ! 12);
          s0 = s0 XOR lut_at lutEnc 1 (s ! 5); s1 = s1 XOR lut_at lutEnc 1 (s ! 9);
          s2 = s2 XOR lut_at lutEnc 1 (s ! 13); s3 = s3 XOR lut_at lutEnc 1 (s ! 1);
          s0 = s0 XOR lut_at lutEnc 2 (s ! 10); s1 = s1 XOR lut_at lutEnc 2 (s ! 14);
          s2 = s2 XOR lut_at lutEnc 2 (s ! 2); s3 = s3 XOR lut_at lutEnc 2 (s ! 6);
          s0 = s0 XOR lut_at lutEnc 3 (s ! 15); s1 = s1 XOR lut_at lutEnc 3 (s ! 3);
          s2 = s2 XOR lut_at lutEnc 3 (s ! 7); s3 = s3 XOR lut_at lutEnc 3 (s ! 11)
      in rx_xor_vec_i128 (rx_set_int_vec_i128 s3 s2 s1 s0) key)"

definition aesdec1 :: "u32 list list \<Rightarrow> vec128 \<Rightarrow> vec128 \<Rightarrow> vec128" where
  "aesdec1 lutDec v key =
     (let s = vec_bytes v;
          s0 = lut_at lutDec 0 (s ! 0); s1 = lut_at lutDec 0 (s ! 4);
          s2 = lut_at lutDec 0 (s ! 8); s3 = lut_at lutDec 0 (s ! 12);
          s0 = s0 XOR lut_at lutDec 1 (s ! 13); s1 = s1 XOR lut_at lutDec 1 (s ! 1);
          s2 = s2 XOR lut_at lutDec 1 (s ! 5); s3 = s3 XOR lut_at lutDec 1 (s ! 9);
          s0 = s0 XOR lut_at lutDec 2 (s ! 10); s1 = s1 XOR lut_at lutDec 2 (s ! 14);
          s2 = s2 XOR lut_at lutDec 2 (s ! 2); s3 = s3 XOR lut_at lutDec 2 (s ! 6);
          s0 = s0 XOR lut_at lutDec 3 (s ! 7); s1 = s1 XOR lut_at lutDec 3 (s ! 11);
          s2 = s2 XOR lut_at lutDec 3 (s ! 15); s3 = s3 XOR lut_at lutDec 3 (s ! 3)
      in rx_xor_vec_i128 (rx_set_int_vec_i128 s3 s2 s1 s0) key)"

text \<open>\<^verbatim>\<open>lut[k][(x >> n) & 0xff]\<close>; for the highest byte the mask is left out in the source, where the
  shift alone leaves eight bits.\<close>

definition lut_shift :: "u32 list list \<Rightarrow> nat \<Rightarrow> u32 \<Rightarrow> u32" where
  "lut_shift lut k x = lut ! k ! unat (if k < 3 then drop_bit (8 * k) x AND 0xff else drop_bit 24 x)"

definition lut_column :: "u32 list list \<Rightarrow> u32 \<Rightarrow> u32 \<Rightarrow> u32 \<Rightarrow> u32 \<Rightarrow> u32" where
  "lut_column lut a b c d = lut_shift lut 0 a XOR lut_shift lut 1 b XOR lut_shift lut 2 c XOR lut_shift lut 3 d"

definition aesenc2 :: "u32 list list \<Rightarrow> vec128 \<Rightarrow> vec128 \<Rightarrow> vec128" where
  "aesenc2 lutEnc v key =
     (let s0 = v ! 3; s1 = v ! 2; s2 = v ! 1; s3 = v ! 0
      in rx_xor_vec_i128
           (rx_set_int_vec_i128 (lut_column lutEnc s0 s3 s2 s1) (lut_column lutEnc s1 s0 s3 s2)
             (lut_column lutEnc s2 s1 s0 s3) (lut_column lutEnc s3 s2 s1 s0)) key)"

definition aesdec2 :: "u32 list list \<Rightarrow> vec128 \<Rightarrow> vec128 \<Rightarrow> vec128" where
  "aesdec2 lutDec v key =
     (let s0 = v ! 3; s1 = v ! 2; s2 = v ! 1; s3 = v ! 0
      in rx_xor_vec_i128
           (rx_set_int_vec_i128 (lut_column lutDec s0 s1 s2 s3) (lut_column lutDec s1 s2 s3 s0)
             (lut_column lutDec s2 s3 s0 s1) (lut_column lutDec s3 s0 s1 s2)) key)"

subsection \<open>The S-boxes\<close>

text \<open>The loop of the initialiser on integers, where evaluation is fast: the pairs of an index and the
  value stored there, in the order of the turns.\<close>

definition int_p :: "int \<Rightarrow> int" where
  "int_p p = p XOR (2 * p) mod 256 XOR (if p < 128 then 0 else 27)"
definition int_spread :: "int \<Rightarrow> int \<Rightarrow> int" where "int_spread m q = q XOR (m * q) mod 256"
definition int_nine :: "int \<Rightarrow> int" where "int_nine q = q XOR (if q < 128 then 0 else 9)"
definition int_q :: "int \<Rightarrow> int" where "int_q q = int_nine (int_spread 16 (int_spread 4 (int_spread 2 q)))"
definition int_rot :: "int \<Rightarrow> int" where "int_rot y = y mod 256 OR y div 256"
definition int_value :: "int \<Rightarrow> int" where
  "int_value q = q XOR int_rot (2 * q) XOR int_rot (4 * q) XOR int_rot (8 * q) XOR int_rot (16 * q) XOR 99"

fun chain_at and chain :: "nat \<Rightarrow> int \<Rightarrow> int \<Rightarrow> (int \<times> int) list" where
  "chain_at n p q = (p, int_value q) # chain n p q"
| "chain 0 p q = []"
| "chain (Suc n) p q = chain_at n (int_p p) (int_q q)"

lemma uint_push_bit8: "uint (push_bit n x) = (2 ^ n * uint x) mod 256" for x :: u8
  by (simp only: unsigned_push_bit_eq) (simp add: take_bit_eq_mod push_bit_eq_mult mult.commute)

lemma uint_drop_bit8: "n \<le> 8 \<Longrightarrow> uint (drop_bit (8 - n) x) = (2 ^ n * uint x) div 256" for x :: u8
proof -
  assume n: "n \<le> 8"
  have "uint x < 2 ^ 8" using unsigned_less [of x] by simp
  then have "take_bit 8 (uint x) = uint x" by (intro take_bit_int_eq_self) simp_all
  then have "uint (drop_bit (8 - n) x) = uint x div 2 ^ (8 - n)"
    by (simp only: unsigned_drop_bit_eq) (simp add: drop_bit_eq_div)
  also have "\<dots> = (2 ^ n * uint x) div (2 ^ n * 2 ^ (8 - n))" by simp
  also have "(2 :: int) ^ n * 2 ^ (8 - n) = 256" using n by (simp flip: power_add)
  finally show ?thesis .
qed

lemma high_bit8: "x AND 0x80 \<noteq> 0 \<longleftrightarrow> \<not> uint x < 128" for x :: u8
proof -
  have "x AND 0x80 = 0 \<longleftrightarrow> \<not> bit x 7"
  proof -
    have eq: "(0x80 :: u8) = push_bit 7 1" by simp
    have b: "bit (0x80 :: u8) n \<longleftrightarrow> n = 7" for n unfolding eq bit_push_bit_iff by (auto simp: bit_1_iff)
    have "x AND 0x80 = (if bit x 7 then 0x80 else 0)"
    proof (rule bit_word_eqI)
      fix n
      show "bit (x AND 0x80) n \<longleftrightarrow> bit (if bit x 7 then 0x80 else 0 :: u8) n"
        unfolding bit_and_iff b by (cases "bit x 7") (auto simp only: b if_True if_False bit_0_eq bot_apply bot_bool_def)
    qed
    then show ?thesis by simp
  qed
  moreover have "bit (uint x) 7 \<longleftrightarrow> bit x 7" by (simp only: bit_uint_iff) (auto dest: bit_imp_le_length)
  then have "bit x 7 \<longleftrightarrow> odd (uint x div 128)" by (simp add: bit_iff_odd)
  moreover have "0 \<le> uint x" "uint x < 256" using unsigned_less [of x] by simp_all
  then have "uint x div 128 = (if uint x < 128 then 0 else 1)" by auto
  ultimately show ?thesis by auto
qed

lemma uint_saes:
  "uint (saes_p p) = int_p (uint p)" "uint (saes_q q) = int_q (uint q)" "uint (saes_value q) = int_value (uint q)"
proof -
  show "uint (saes_p p) = int_p (uint p)"
    by (simp only: saes_p_def int_p_def unsigned_xor_eq uint_push_bit8 high_bit8) auto
  have spread: "uint (x XOR push_bit n x) = int_spread (2 ^ n) (uint x)" for x :: u8 and n
    by (simp only: unsigned_xor_eq uint_push_bit8 int_spread_def)
  have nine: "uint (x XOR (if x AND 0x80 \<noteq> 0 then 0x09 else 0)) = int_nine (uint x)" for x :: u8
    by (simp only: unsigned_xor_eq high_bit8 int_nine_def) auto
  have pow: "(2 :: int) ^ 1 = 2" "(2 :: int) ^ 2 = 4" "(2 :: int) ^ 3 = 8" "(2 :: int) ^ 4 = 16" by simp_all
  show "uint (saes_q q) = int_q (uint q)"
    unfolding saes_q_def Let_def nine spread pow int_q_def ..
  show "uint (saes_value q) = int_value (uint q)"
  proof -
    have rot: "uint (ROTL8 q n) = int_rot (2 ^ n * uint q)" if "n \<le> 8" for n
      using that by (simp only: ROTL8_def int_rot_def unsigned_or_eq uint_push_bit8 uint_drop_bit8)
    have "uint (0x63 :: u8) = 99" by simp
    then show ?thesis
      using rot [of 1] rot [of 2] rot [of 3] rot [of 4]
      by (simp only: saes_value_def int_value_def unsigned_xor_eq pow)
  qed
qed

text \<open>The loop makes the updates of the chain, as long as the chain reaches 1 at its end only.\<close>

definition set_sb :: "int \<times> int \<Rightarrow> u8 list \<Rightarrow> u8 list" where
  "set_sb = (\<lambda>(p, v) sb. sb[nat p := word_of_int v])"
definition set_sr :: "int \<times> int \<Rightarrow> u8 list \<Rightarrow> u8 list" where
  "set_sr = (\<lambda>(p, v) sr. sr[nat v := word_of_int p])"

lemma sbox_loop_chain:
  assumes "length sb = 256" "length sr = 256"
    "list_all (\<lambda>(p, v). p \<noteq> 1) (butlast (chain (Suc n) (uint p) (uint q)))"
    "fst (last (chain (Suc n) (uint p) (uint q))) = 1"
  shows "sbox_loop p q sb sr =
    Some (fold set_sb (chain (Suc n) (uint p) (uint q)) sb, fold set_sr (chain (Suc n) (uint p) (uint q)) sr)"
  using assms
proof (induction n arbitrary: p q sb sr)
  case 0
  have one: "saes_p p = 1"
  proof -
    have "uint (saes_p p) = uint (1 :: u8)" using "0.prems"(4) by (simp add: uint_saes)
    then show ?thesis by (simp only: word_uint_eq_iff)
  qed
  then show ?case
    using "0.prems" unat_u8_less [of "saes_value (saes_q q)"]
    by (simp add: sbox_loop.simps [of p q sb sr] Let_def set_sb_def set_sr_def uint_saes [symmetric])
next
  case (Suc n)
  let ?p = "saes_p p" and ?q = "saes_q q"
  have c: "chain (Suc (Suc n)) (uint p) (uint q) = (uint ?p, uint (saes_value ?q)) # chain (Suc n) (uint ?p) (uint ?q)"
    by (simp add: uint_saes)
  have ne: "chain (Suc n) (uint ?p) (uint ?q) \<noteq> []" by simp
  have "uint ?p \<noteq> 1" using Suc.prems(3) ne unfolding c by simp
  then have "?p \<noteq> 1" by auto
  moreover have "list_all (\<lambda>(p, v). p \<noteq> 1) (butlast (chain (Suc n) (uint ?p) (uint ?q)))"
    "fst (last (chain (Suc n) (uint ?p) (uint ?q))) = 1"
    using Suc.prems(3,4) ne unfolding c by simp_all
  then have "sbox_loop ?p ?q (sb[unat ?p := saes_value ?q]) (sr[unat (saes_value ?q) := ?p]) =
    Some (fold set_sb (chain (Suc n) (uint ?p) (uint ?q)) (sb[unat ?p := saes_value ?q]),
      fold set_sr (chain (Suc n) (uint ?p) (uint ?q)) (sr[unat (saes_value ?q) := ?p]))"
    using Suc.prems(1,2) by (intro Suc.IH) simp_all
  ultimately show ?case
    using Suc.prems(1,2) unat_u8_less [of ?p] unat_u8_less [of "saes_value ?q"] unfolding c
    by (simp add: sbox_loop.simps [of p q sb sr] Let_def set_sb_def set_sr_def)
qed

definition set_int :: "(int \<times> int \<Rightarrow> int) \<Rightarrow> (int \<times> int \<Rightarrow> int) \<Rightarrow> int \<times> int \<Rightarrow> int list \<Rightarrow> int list" where
  "set_int ix v c xs = xs[nat (ix c) := v c]"

lemma fold_set_sb: "fold set_sb cs (map word_of_int xs) = map word_of_int (fold (set_int fst snd) cs xs)"
  by (induction cs arbitrary: xs) (auto simp: set_sb_def set_int_def map_update [symmetric])

lemma fold_set_sr: "fold set_sr cs (map word_of_int xs) = map word_of_int (fold (set_int snd fst) cs xs)"
  by (induction cs arbitrary: xs) (auto simp: set_sr_def set_int_def map_update [symmetric])

text \<open>The chain has 255 turns. The S-box it leaves is the one of the AES standard, and the second
  table is its inverse: reading it at the values of the S-box gives the indices in order.\<close>

lemma chain_255:
  "list_all (\<lambda>(p, v). p \<noteq> 1) (butlast (chain 255 1 1)) \<and> fst (last (chain 255 1 1)) = 1
   \<and> (fold (set_int fst snd) (chain 255 1 1) (replicate 256 0))[0 := 99] = map uint NM_SBOX"
  unfolding NM_SBOX_def by code_simp

lemma chain_255_inverse:
  "map ((!) ((fold (set_int snd fst) (chain 255 1 1) (replicate 256 0))[99 := 0])) (map (\<lambda>x. nat (uint x)) NM_SBOX)
   = map int [0..<256]"
  unfolding NM_SBOX_def by code_simp

definition inv_sbox :: "u8 \<Rightarrow> u8" where
  "inv_sbox y = of_nat (length (takeWhile (\<lambda>x. x \<noteq> y) NM_SBOX))"

lemma takeWhile_position: "distinct xs \<Longrightarrow> i < length xs \<Longrightarrow> length (takeWhile (\<lambda>x. x \<noteq> xs ! i) xs) = i"
proof (induction xs arbitrary: i)
  case (Cons x xs)
  then show ?case by (cases i) auto
qed simp

lemma inv_sbox_sbox [simp]: "inv_sbox (sbox x) = x"
  using takeWhile_position [OF NM_SBOX_distinct, of "unat x"] unat_u8_less [of x]
  by (simp add: inv_sbox_def sbox_def NM_SBOX_length)

lemma sbox_surj: "\<exists>x. sbox x = y"
proof -
  have "inj sbox" by (simp add: inj_def sbox_inj)
  then have "surj sbox" by (simp add: finite_UNIV_inj_surj)
  then show ?thesis by (metis surjE)
qed

lemma sbox_inv_sbox [simp]: "sbox (inv_sbox y) = y"
  using sbox_surj [of y] by auto

lemma saes_sboxes_eq:
  "\<exists>sr. saes_sboxes = Some (NM_SBOX, sr) \<and> length sr = 256 \<and> (\<forall>y. sr ! unat y = inv_sbox y)"
proof -
  define cs where "cs = chain 255 1 1"
  define sr where "sr = (fold (set_int snd fst) cs (replicate 256 0))[99 := 0]"
  have z: "replicate 256 0 = map (word_of_int :: int \<Rightarrow> u8) (replicate 256 0)" by simp
  have "Suc 254 = 255" by simp
  then have "sbox_loop 1 1 (replicate 256 0) (replicate 256 0)
      = Some (fold set_sb cs (replicate 256 0), fold set_sr cs (replicate 256 0))"
    using sbox_loop_chain [of "replicate 256 0" "replicate 256 0" 254 1 1] chain_255 by (simp add: cs_def)
  moreover have len: "length (fold (set_int ix v) ds xs) = length xs" for ix v ds and xs :: "int list"
    by (induction ds arbitrary: xs) (auto simp: set_int_def)
  ultimately have s: "saes_sboxes = Some (map word_of_int ((fold (set_int fst snd) cs (replicate 256 0))[0 := 99]),
      map word_of_int sr)"
    unfolding z fold_set_sb fold_set_sr by (simp add: saes_sboxes_def map_update sr_def)
  have "(fold (set_int fst snd) cs (replicate 256 0))[0 := 99] = map uint NM_SBOX"
    using chain_255 unfolding cs_def by blast
  then have sb: "map word_of_int ((fold (set_int fst snd) cs (replicate 256 0))[0 := 99]) = NM_SBOX"
    by (simp add: comp_def)
  have lsr: "length sr = 256" by (simp add: sr_def len)
  have srx: "sr ! unat (sbox x) = int (unat x)" for x
  proof -
    have "map ((!) sr) (map (\<lambda>x. nat (uint x)) NM_SBOX) ! unat x = map int [0..<256] ! unat x"
      using chain_255_inverse unfolding cs_def [symmetric] sr_def [symmetric] by simp
    then show ?thesis using unat_u8_less [of x] by (simp add: NM_SBOX_length sbox_def)
  qed
  have "map word_of_int sr ! unat y = inv_sbox y" for y
    using srx [of "inv_sbox y"] lsr unat_u8_less [of y] by simp
  then show ?thesis using s sb lsr by auto
qed

subsection \<open>Multiplication in the field\<close>

definition gf_double :: "u32 \<Rightarrow> u32" where
  "gf_double i = (if push_bit 1 i AND 0x100 \<noteq> 0 then push_bit 1 i XOR 0x11b else push_bit 1 i)"

lemma mul_step:
  "e < 8 \<Longrightarrow> j \<noteq> 0 \<Longrightarrow> mul_loop s i j e =
     (if j AND push_bit e 1 \<noteq> 0 then mul_loop (s XOR i) (gf_double i) (j XOR push_bit e 1) (Suc e)
      else mul_loop s (gf_double i) j (Suc e))"
  by (subst mul_loop.simps) (simp only: gf_double_def Let_def simp_thms if_True split: if_splits prod.splits, auto)

lemma mul_stop: "mul_loop s i 0 e = s"
  by (subst mul_loop.simps) simp

lemma gf_double_byte: "gf_double (ucast x) = ucast (nm_xtime x)" for x :: u8
proof -
  have 1: "push_bit 1 (ucast x :: u32) AND 0x100 \<noteq> 0 \<longleftrightarrow> bit x 7"
  proof -
    have eq: "(0x100 :: u32) = push_bit 8 1" by simp
    have b: "bit (0x100 :: u32) n \<longleftrightarrow> n = 8" for n unfolding eq bit_push_bit_iff by (auto simp: bit_1_iff)
    have s: "bit (push_bit 1 (ucast x :: u32)) 8 \<longleftrightarrow> bit x 7" unfolding bit_push_bit_iff bit_unsigned_iff by simp
    have "push_bit 1 (ucast x :: u32) AND 0x100 = (if bit x 7 then 0x100 else 0)"
    proof (rule bit_word_eqI)
      fix n
      show "bit (push_bit 1 (ucast x :: u32) AND 0x100) n \<longleftrightarrow> bit (if bit x 7 then 0x100 else 0 :: u32) n"
        unfolding bit_and_iff b using s by (cases "bit x 7") (auto simp only: b if_True if_False bit_0_eq bot_apply bot_bool_def)
    qed
    then show ?thesis by simp
  qed
  show ?thesis
  proof (rule bit_word_eqI)
    fix n assume n: "n < LENGTH(32)"
    have k: "(0x11b :: u32) = push_bit 8 1 OR ucast (0x1b :: u8)" by simp
    have b: "bit (0x11b :: u32) n \<longleftrightarrow> n = 8 \<or> bit (0x1b :: u8) n"
      unfolding k bit_or_iff bit_push_bit_iff bit_unsigned_iff using n by (auto simp: bit_1_iff dest: bit_imp_le_length)
    have p: "bit (push_bit 1 (ucast x :: u32)) n \<longleftrightarrow> 0 < n \<and> bit x (n - 1)"
      unfolding bit_push_bit_iff bit_unsigned_iff using n by (auto simp: Suc_le_eq)
    have u: "bit (ucast (nm_xtime x) :: u32) n \<longleftrightarrow> bit (nm_xtime x) n" unfolding bit_unsigned_iff using n by auto
    have l: "bit x (n - 1) \<Longrightarrow> n \<le> 8" "bit (0x1b :: u8) n \<Longrightarrow> n < 8"
      using bit_imp_le_length [of x "n - 1"] bit_imp_le_length [of "0x1b :: u8" n] by auto
    show "bit (gf_double (ucast x)) n \<longleftrightarrow> bit (ucast (nm_xtime x) :: u32) n"
      unfolding gf_double_def 1 u nm_xtime_bit using p b l
      by (cases "bit x 7"; cases "n = 8") (auto simp only: bit_xor_iff if_True if_False, auto)
  qed
qed

end
