(* ===== verification/Rx_AesRound.thy ===== *)
theory Rx_AesRound
  imports Rx_SoftAes
begin

text \<open>
  Correctness of the software AES rounds: with the tables of the initialiser, both forms of the
  encryption round compute one AES round (\<^const>\<open>aesenc_spec\<close>, the effect of the processor
  instruction) and both forms of the decryption round compute the inverse transformations in the
  order of the decryption instruction.
\<close>

subsection \<open>Products with constants\<close>

declare mul_loop.simps [simp del]

lemma mul_gf2_byte:
  fixes x :: u8
  defines "x2 \<equiv> nm_xtime x" and "x4 \<equiv> nm_xtime (nm_xtime x)" and "x8 \<equiv> nm_xtime (nm_xtime (nm_xtime x))"
  shows "ucast (mul_gf2 (ucast x) 2) = x2" "ucast (mul_gf2 (ucast x) 3) = x2 XOR x"
    "ucast (mul_gf2 (ucast x) 9) = x8 XOR x" "ucast (mul_gf2 (ucast x) 11) = x8 XOR x2 XOR x"
    "ucast (mul_gf2 (ucast x) 13) = x8 XOR x4 XOR x" "ucast (mul_gf2 (ucast x) 14) = x8 XOR x4 XOR x2"
proof -
  have u: "ucast (a XOR b) = (ucast a XOR ucast b :: u8)" "ucast (ucast c :: u32) = c" for a b :: u32 and c :: u8
    by (rule bit_word_eqI, simp add: bit_simps)+
  note s = mul_gf2_def mul_step mul_stop gf_double_byte u
  show "ucast (mul_gf2 (ucast x) 2) = x2" by (simp add: s x2_def)
  show "ucast (mul_gf2 (ucast x) 3) = x2 XOR x" by (simp add: s x2_def xor.commute)
  show "ucast (mul_gf2 (ucast x) 9) = x8 XOR x" by (simp add: s x8_def xor.commute)
  show "ucast (mul_gf2 (ucast x) 11) = x8 XOR x2 XOR x" by (simp add: s x8_def x2_def) (simp add: ac_simps)
  show "ucast (mul_gf2 (ucast x) 13) = x8 XOR x4 XOR x" by (simp add: s x8_def x4_def) (simp add: ac_simps)
  show "ucast (mul_gf2 (ucast x) 14) = x8 XOR x4 XOR x2" by (simp add: s x8_def x4_def x2_def) (simp add: ac_simps)
qed

subsection \<open>Bytes of the table words\<close>

lemma le_bytes_4: "le_bytes 4 w = [ucast w, ucast (drop_bit 8 w), ucast (drop_bit 16 w), ucast (drop_bit 24 w)]"
  by (simp add: le_bytes_def upt_4)

lemma le_bytes_word_4: "le_bytes 4 (le_word [a, b, c, d] :: u32) = [a, b, c, d]"
  using le_bytes_le_word [where 'a = 32, of "[a, b, c, d]"] by (simp add: eval_nat_numeral)

lemma le_bytes_xor: "le_bytes 4 (v XOR w) = map2 (\<lambda>x y. x XOR y) (le_bytes 4 v) (le_bytes 4 w)" for v w :: u32
  by (simp add: le_bytes_4) (auto intro!: bit_word_eqI simp: bit_simps)

lemma le_bytes_rot8:
  assumes "le_bytes 4 w = [a, b, c, d]"
  shows "le_bytes 4 (rot8 w) = [d, a, b, c]"
proof -
  have "ucast (rot8 w) = (ucast (drop_bit 24 w) :: u8)" "ucast (drop_bit 8 (rot8 w)) = (ucast w :: u8)"
    "ucast (drop_bit 16 (rot8 w)) = (ucast (drop_bit 8 w) :: u8)" "ucast (drop_bit 24 (rot8 w)) = (ucast (drop_bit 16 w) :: u8)"
    by (rule bit_word_eqI, auto simp: rot8_def bit_simps dest: bit_imp_le_length)+
  then show ?thesis using assms by (simp add: le_bytes_4)
qed

lemma lut_of_at: "k < 4 \<Longrightarrow> lut_at (lut_of word sb) k x = (rot8 ^^ k) (word (sb ! unat x))"
  using unat_u8_less [of x] by (simp add: lut_at_def lut_of_def)

lemma lut_rotations:
  assumes "le_bytes 4 (word (sb ! unat x)) = [a, b, c, d]"
  shows "le_bytes 4 (lut_at (lut_of word sb) 0 x) = [a, b, c, d]"
    "le_bytes 4 (lut_at (lut_of word sb) (Suc 0) x) = [d, a, b, c]"
    "le_bytes 4 (lut_at (lut_of word sb) 2 x) = [c, d, a, b]"
    "le_bytes 4 (lut_at (lut_of word sb) 3 x) = [b, c, d, a]"
  using assms le_bytes_rot8 [OF assms] le_bytes_rot8 [OF le_bytes_rot8 [OF assms]]
    le_bytes_rot8 [OF le_bytes_rot8 [OF le_bytes_rot8 [OF assms]]]
  by (simp_all add: lut_of_at numeral_2_eq_2 numeral_3_eq_3)

lemma enc_word_bytes: "le_bytes 4 (enc_word s) = [nm_xtime s, s, s, nm_xtime s XOR s]"
  by (simp add: enc_word_def le_bytes_word_4 mul_gf2_byte)

definition times9 :: "u8 \<Rightarrow> u8" where "times9 x = nm_xtime (nm_xtime (nm_xtime x)) XOR x"
definition times11 :: "u8 \<Rightarrow> u8" where "times11 x = nm_xtime (nm_xtime (nm_xtime x)) XOR nm_xtime x XOR x"
definition times13 :: "u8 \<Rightarrow> u8" where "times13 x = nm_xtime (nm_xtime (nm_xtime x)) XOR nm_xtime (nm_xtime x) XOR x"
definition times14 :: "u8 \<Rightarrow> u8" where
  "times14 x = nm_xtime (nm_xtime (nm_xtime x)) XOR nm_xtime (nm_xtime x) XOR nm_xtime x"

lemmas times_defs = times9_def times11_def times13_def times14_def

lemma dec_word_bytes: "le_bytes 4 (dec_word s) = [times14 s, times9 s, times13 s, times11 s]"
  by (simp add: dec_word_def le_bytes_word_4 mul_gf2_byte times_defs)

subsection \<open>Inverse transformations\<close>

definition inv_sub_bytes :: "u8 list \<Rightarrow> u8 list" where
  "inv_sub_bytes s = map (\<lambda>i. inv_sbox (s ! i)) [0..<16]"

definition inv_shift_rows :: "u8 list \<Rightarrow> u8 list" where
  "inv_shift_rows s = map (\<lambda>i. s ! (i mod 4 + 4 * ((i div 4 + 4 - i mod 4) mod 4))) [0..<16]"

definition inv_mix_col :: "u8 \<Rightarrow> u8 \<Rightarrow> u8 \<Rightarrow> u8 \<Rightarrow> u8 list" where
  "inv_mix_col a b c d =
     [times14 a XOR times11 b XOR times13 c XOR times9 d, times9 a XOR times14 b XOR times11 c XOR times13 d,
      times13 a XOR times9 b XOR times14 c XOR times11 d, times11 a XOR times13 b XOR times9 c XOR times14 d]"

definition inv_mix_columns :: "u8 list \<Rightarrow> u8 list" where
  "inv_mix_columns s =
     concat (map (\<lambda>c. inv_mix_col (s ! (4 * c)) (s ! (4 * c + 1)) (s ! (4 * c + 2)) (s ! (4 * c + 3))) [0..<4])"

definition aesdec_spec :: "u8 list \<Rightarrow> u8 list \<Rightarrow> u8 list" where
  "aesdec_spec s k = xor_block (inv_mix_columns (inv_sub_bytes (inv_shift_rows s))) k"

lemma inv_mix_col_mix:
  "mix_col a b c d = [w, x, y, z] \<Longrightarrow> inv_mix_col w x y z = [a, b, c, d]"
proof -
  have inv: "inv_mix_col e f g h = mix_list (mix_list (mix_list [e, f, g, h]))" for e f g h
    unfolding mix_list_twice
    by (simp add: inv_mix_col_def mix_list_def mix_col_def times_defs nm_xtime_xor xor.assoc xor.left_commute xor.commute)
  assume "mix_col a b c d = [w, x, y, z]"
  then have "[w, x, y, z] = mix_list [a, b, c, d]" by (simp add: mix_list_def)
  then show ?thesis unfolding inv using mix_list_four by simp
qed

lemma inverse_transformations:
  assumes "length s = 16"
  shows "inv_shift_rows (shift_rows s) = s" "inv_sub_bytes (sub_bytes s) = s" "inv_mix_columns (mix_columns s) = s"
proof -
  show "inv_shift_rows (shift_rows s) = s"
    using assms by (elim list16) (simp add: shift_rows_def inv_shift_rows_def upt_16)
  show "inv_sub_bytes (sub_bytes s) = s"
    using assms by (elim list16) (simp add: sub_bytes_def inv_sub_bytes_def upt_16)
  have m: "inv_mix_col (mix_col a b c d ! 0) (mix_col a b c d ! 1) (mix_col a b c d ! 2) (mix_col a b c d ! 3) = [a, b, c, d]"
    for a b c d
    by (rule inv_mix_col_mix) (simp add: mix_col_def)
  show "inv_mix_columns (mix_columns s) = s"
    using assms
  proof (elim list16)
    fix s0 s1 s2 s3 s4 s5 s6 s7 s8 s9 s10 s11 s12 s13 s14 s15
    assume s: "s = [s0, s1, s2, s3, s4, s5, s6, s7, s8, s9, s10, s11, s12, s13, s14, s15]"
    show "inv_mix_columns (mix_columns s) = s"
      using m [of s0 s1 s2 s3] m [of s4 s5 s6 s7] m [of s8 s9 s10 s11] m [of s12 s13 s14 s15]
      by (simp add: s inv_mix_columns_def mix_columns_def upt_4 mix_col_def)
  qed
qed

lemma aesdec_undoes:
  assumes "length s = 16"
  shows "aesdec_spec (shift_rows (sub_bytes (mix_columns s))) k = xor_block s k"
proof -
  have "length (mix_columns s) = 16" "length (sub_bytes (mix_columns s)) = 16" by simp_all
  then show ?thesis using assms by (simp add: aesdec_spec_def inverse_transformations)
qed

subsection \<open>The rounds\<close>

lemma vec4: "length v = 4 \<Longrightarrow> \<exists>a b c d. v = [a, b, c, d]"
  by (auto simp: length_Suc_conv numeral_eq_Suc)

lemma vec_bytes_xor:
  assumes "length v = 4" "length k = 4"
  shows "vec_bytes (rx_xor_vec_i128 v k) = xor_block (vec_bytes v) (vec_bytes k)"
proof -
  obtain a b c d e f g h where "v = [a, b, c, d]" "k = [e, f, g, h]" using vec4 assms by metis
  then show ?thesis
    by (simp add: vec_bytes_def rx_xor_vec_i128_def xor_block_def le_bytes_xor)
qed

lemma enc_column:
  assumes "lut = lut_of enc_word NM_SBOX"
  shows "le_bytes 4 (((lut_at lut 0 a XOR lut_at lut (Suc 0) b) XOR lut_at lut 2 c) XOR lut_at lut 3 d)
    = mix_col (sbox a) (sbox b) (sbox c) (sbox d)"
proof -
  have w: "le_bytes 4 (enc_word (NM_SBOX ! unat x)) = [nm_xtime (sbox x), sbox x, sbox x, nm_xtime (sbox x) XOR sbox x]" for x
    by (simp add: enc_word_bytes sbox_def)
  note r = lut_rotations [of enc_word NM_SBOX, OF w]
  show ?thesis
    unfolding assms le_bytes_xor r(1) [of a] r(2) [of b] r(3) [of c] r(4) [of d]
    by (simp add: mix_col_def xor.assoc)
qed

lemma dec_column:
  assumes "lut = lut_of dec_word sr" "\<And>y. sr ! unat y = inv_sbox y"
  shows "le_bytes 4 (((lut_at lut 0 a XOR lut_at lut (Suc 0) b) XOR lut_at lut 2 c) XOR lut_at lut 3 d)
    = inv_mix_col (inv_sbox a) (inv_sbox b) (inv_sbox c) (inv_sbox d)"
proof -
  have w: "le_bytes 4 (dec_word (sr ! unat x))
      = [times14 (inv_sbox x), times9 (inv_sbox x), times13 (inv_sbox x), times11 (inv_sbox x)]" for x
    by (simp add: dec_word_bytes assms(2))
  note r = lut_rotations [of dec_word sr, OF w]
  show ?thesis
    unfolding assms(1) le_bytes_xor r(1) [of a] r(2) [of b] r(3) [of c] r(4) [of d]
    by (simp add: inv_mix_col_def xor.assoc)
qed

lemma vec_bytes_set:
  "vec_bytes (rx_set_int_vec_i128 s3 s2 s1 s0) = le_bytes 4 s0 @ le_bytes 4 s1 @ le_bytes 4 s2 @ le_bytes 4 s3"
  by (simp add: vec_bytes_def rx_set_int_vec_i128_def)

lemma length_set_vec [simp]: "length (rx_set_int_vec_i128 s3 s2 s1 s0) = 4"
  by (simp add: rx_set_int_vec_i128_def)

lemma length_vec_bytes: "length v = 4 \<Longrightarrow> length (vec_bytes v) = 16"
  using vec4 [of v] by (auto simp: vec_bytes_def)

lemma aesenc1_round:
  assumes "lut = lut_of enc_word NM_SBOX" "length v = 4" "length k = 4"
  shows "vec_bytes (aesenc1 lut v k) = aesenc_spec (vec_bytes v) (vec_bytes k)"
proof -
  define s where "s = vec_bytes v"
  have "length s = 16" using assms(2) by (simp add: s_def length_vec_bytes)
  then have "mix_columns (sub_bytes (shift_rows s)) =
      mix_col (sbox (s ! 0)) (sbox (s ! 5)) (sbox (s ! 10)) (sbox (s ! 15))
    @ mix_col (sbox (s ! 4)) (sbox (s ! 9)) (sbox (s ! 14)) (sbox (s ! 3))
    @ mix_col (sbox (s ! 8)) (sbox (s ! 13)) (sbox (s ! 2)) (sbox (s ! 7))
    @ mix_col (sbox (s ! 12)) (sbox (s ! 1)) (sbox (s ! 6)) (sbox (s ! 11))"
    by (elim list16) (simp add: mix_columns_def sub_bytes_def shift_rows_def upt_16 upt_4)
  then show ?thesis
    using assms(3) \<open>length s = 16\<close> length_vec_bytes [OF assms(3)]
    by (simp add: aesenc1_def Let_def s_def [symmetric] vec_bytes_xor length_set_vec vec_bytes_set enc_column [OF assms(1)]
        aesenc_spec_code)
qed

lemma aesdec1_round:
  assumes "lut = lut_of dec_word sr" "\<And>y. sr ! unat y = inv_sbox y" "length v = 4" "length k = 4"
  shows "vec_bytes (aesdec1 lut v k) = aesdec_spec (vec_bytes v) (vec_bytes k)"
proof -
  define s where "s = vec_bytes v"
  have "length s = 16" using assms(3) by (simp add: s_def length_vec_bytes)
  then have "inv_mix_columns (inv_sub_bytes (inv_shift_rows s)) =
      inv_mix_col (inv_sbox (s ! 0)) (inv_sbox (s ! 13)) (inv_sbox (s ! 10)) (inv_sbox (s ! 7))
    @ inv_mix_col (inv_sbox (s ! 4)) (inv_sbox (s ! 1)) (inv_sbox (s ! 14)) (inv_sbox (s ! 11))
    @ inv_mix_col (inv_sbox (s ! 8)) (inv_sbox (s ! 5)) (inv_sbox (s ! 2)) (inv_sbox (s ! 15))
    @ inv_mix_col (inv_sbox (s ! 12)) (inv_sbox (s ! 9)) (inv_sbox (s ! 6)) (inv_sbox (s ! 3))"
    by (elim list16) (simp add: inv_mix_columns_def inv_sub_bytes_def inv_shift_rows_def upt_16 upt_4)
  then show ?thesis
    using assms(4)
    by (simp add: aesdec1_def Let_def s_def [symmetric] vec_bytes_xor length_set_vec vec_bytes_set dec_column [OF assms(1,2)] aesdec_spec_def)
qed

lemma lut_shift_at:
  "lut_shift lut 0 x = lut_at lut 0 (ucast x)" "lut_shift lut 1 x = lut_at lut 1 (ucast (drop_bit 8 x))"
  "lut_shift lut 2 x = lut_at lut 2 (ucast (drop_bit 16 x))" "lut_shift lut 3 x = lut_at lut 3 (ucast (drop_bit 24 x))"
proof -
  have m: "unat (y AND 0xff) = unat (ucast y :: u8)" for y :: u32
  proof -
    have "y AND 0xff = take_bit 8 y" by (simp add: take_bit_eq_mask mask_eq_exp_minus_1)
    then show ?thesis by (simp only: unsigned_take_bit_eq unsigned_ucast_eq) simp
  qed
  have h: "unat (drop_bit 24 x) = unat (ucast (drop_bit 24 x) :: u8)"
  proof -
    have "drop_bit 24 x AND 0xff = drop_bit 24 x"
      by (rule bit_word_eqI) (auto simp: bit_simps mask_eq_exp_minus_1 [of 8, where 'a = "32 word", simplified, symmetric] dest: bit_imp_le_length)
    then show ?thesis using m [of "drop_bit 24 x"] by simp
  qed
  show "lut_shift lut 0 x = lut_at lut 0 (ucast x)" "lut_shift lut 1 x = lut_at lut 1 (ucast (drop_bit 8 x))"
    "lut_shift lut 2 x = lut_at lut 2 (ucast (drop_bit 16 x))" "lut_shift lut 3 x = lut_at lut 3 (ucast (drop_bit 24 x))"
    unfolding lut_shift_def lut_at_def using m h by simp_all
qed

lemma aes_forms_agree:
  assumes "length v = 4"
  shows "aesenc2 lut v k = aesenc1 lut v k" "aesdec2 lut v k = aesdec1 lut v k"
proof -
  obtain a b c d where v: "v = [a, b, c, d]" using vec4 [OF assms] by blast
  show "aesenc2 lut v k = aesenc1 lut v k" "aesdec2 lut v k = aesdec1 lut v k"
    by (simp_all add: v aesenc2_def aesenc1_def aesdec2_def aesdec1_def lut_column_def lut_shift_at [simplified] vec_bytes_def
      le_bytes_4 Let_def xor.assoc)
qed

text \<open>C13. The static initialiser of the software AES returns (its S-box loop ends), and with its
  tables both forms of the encryption round compute the AES encryption round of the processor
  instruction on the bytes of the vector, with the S-box of the standard; both forms of the
  decryption round compute the decryption round, which undoes the transformations of an
  encryption round.\<close>

theorem soft_aes_correct:
  assumes "length v = 4" "length k = 4"
  shows "\<exists>lutEnc lutDec. SAESInitializer = Some (lutEnc, lutDec)
    \<and> vec_bytes (aesenc1 lutEnc v k) = aesenc_spec (vec_bytes v) (vec_bytes k)
    \<and> vec_bytes (aesdec1 lutDec v k) = aesdec_spec (vec_bytes v) (vec_bytes k)
    \<and> aesenc2 lutEnc v k = aesenc1 lutEnc v k \<and> aesdec2 lutDec v k = aesdec1 lutDec v k
    \<and> aesdec_spec (shift_rows (sub_bytes (mix_columns (vec_bytes v)))) (vec_bytes k) = xor_block (vec_bytes v) (vec_bytes k)"
proof -
  obtain sr where sr: "saes_sboxes = Some (NM_SBOX, sr)" "\<And>y. sr ! unat y = inv_sbox y"
    using saes_sboxes_eq by blast
  have "SAESInitializer = Some (lut_of enc_word NM_SBOX, lut_of dec_word sr)"
    unfolding SAESInitializer_def sr(1) by simp
  then show ?thesis
    using aesenc1_round [OF refl assms] aesdec1_round [OF refl sr(2) assms] aes_forms_agree [OF assms(1)]
      aesdec_undoes [OF length_vec_bytes [OF assms(1)]] by auto
qed

theorem soft_aes_correct_witness:
  "\<exists>lutEnc lutDec. SAESInitializer = Some (lutEnc, lutDec)
    \<and> vec_bytes (aesenc1 lutEnc [1, 2, 3, 4] [5, 6, 7, 8]) = aesenc_spec (vec_bytes [1, 2, 3, 4]) (vec_bytes [5, 6, 7, 8])"
proof -
  have "length [1, 2, 3, 4 :: u32] = 4" "length [5, 6, 7, 8 :: u32] = 4" by simp_all
  from soft_aes_correct [OF this] show ?thesis by blast
qed

end
