(* ===== verification/Rx_AesHash.thy ===== *)
theory Rx_AesHash
  imports Rx_AesRound
begin

text \<open>
  The AES-based hash and generators of RandomX (\<^verbatim>\<open>aes_hash.cpp\<close>): the hash of the scratchpad, the
  generators that fill the scratchpad and the program, and the combined routine that hashes the
  scratchpad and refills it in the same pass. The AES rounds are the arguments \<open>enc\<close> and \<open>dec\<close>,
  which stand for \<^verbatim>\<open>aesenc<softAes>\<close> and \<^verbatim>\<open>aesdec<softAes>\<close>; loads and stores outside a buffer are
  \<open>None\<close>. Prefetches have no effect on the result.
\<close>

subsection \<open>Vectors in memory\<close>

type_synonym aes_round_fun = "vec128 \<Rightarrow> vec128 \<Rightarrow> vec128"
type_synonym lanes = "vec128 \<times> vec128 \<times> vec128 \<times> vec128"

definition rx_load_vec_i128 :: "u8 list \<Rightarrow> nat \<Rightarrow> vec128 option" where
  "rx_load_vec_i128 mem off =
     (if off + 16 \<le> length mem then Some (map (\<lambda>i. le_word (chunk 4 i (drop off mem))) [0..<4]) else None)"

definition rx_store_vec_i128 :: "u8 list \<Rightarrow> nat \<Rightarrow> vec128 \<Rightarrow> u8 list option" where
  "rx_store_vec_i128 mem off v = (if off + 16 \<le> length mem then Some (blit mem off (vec_bytes v)) else None)"

definition load4 :: "u8 list \<Rightarrow> nat \<Rightarrow> lanes option" where
  "load4 mem off = do {
     a \<leftarrow> rx_load_vec_i128 mem off;
     b \<leftarrow> rx_load_vec_i128 mem (off + 16);
     c \<leftarrow> rx_load_vec_i128 mem (off + 32);
     d \<leftarrow> rx_load_vec_i128 mem (off + 48);
     Some (a, b, c, d)
   }"

definition store4 :: "u8 list \<Rightarrow> nat \<Rightarrow> lanes \<Rightarrow> u8 list option" where
  "store4 mem off = (\<lambda>(a, b, c, d). do {
     mem \<leftarrow> rx_store_vec_i128 mem off a;
     mem \<leftarrow> rx_store_vec_i128 mem (off + 16) b;
     mem \<leftarrow> rx_store_vec_i128 mem (off + 32) c;
     rx_store_vec_i128 mem (off + 48) d
   })"

subsection \<open>Hash and generators\<close>

definition AES_HASH_1R_STATE0 :: vec128 where
  "AES_HASH_1R_STATE0 = rx_set_int_vec_i128 3617077933 3431127879 2678609630 2461346829"
definition AES_HASH_1R_STATE1 :: vec128 where
  "AES_HASH_1R_STATE1 = rx_set_int_vec_i128 2900852823 4120777306 365410200 864917870"
definition AES_HASH_1R_STATE2 :: vec128 where
  "AES_HASH_1R_STATE2 = rx_set_int_vec_i128 3902831844 1350127723 2925709264 1786183703"
definition AES_HASH_1R_STATE3 :: vec128 where
  "AES_HASH_1R_STATE3 = rx_set_int_vec_i128 2123974984 2040594437 128811661 1661608972"
definition AES_HASH_1R_XKEY0 :: vec128 where
  "AES_HASH_1R_XKEY0 = rx_set_int_vec_i128 109642241 2430359231 2334430367 4143612809"
definition AES_HASH_1R_XKEY1 :: vec128 where
  "AES_HASH_1R_XKEY1 = rx_set_int_vec_i128 3977836955 3994043334 1375002684 1639080913"
definition AES_GEN_1R_KEY0 :: vec128 where
  "AES_GEN_1R_KEY0 = rx_set_int_vec_i128 3035908375 3686094123 1651598857 1840031059"
definition AES_GEN_1R_KEY1 :: vec128 where
  "AES_GEN_1R_KEY1 = rx_set_int_vec_i128 228711502 388354936 2221568269 1836887815"
definition AES_GEN_1R_KEY2 :: vec128 where
  "AES_GEN_1R_KEY2 = rx_set_int_vec_i128 1042342725 4106254671 2677309126 1058169585"
definition AES_GEN_1R_KEY3 :: vec128 where
  "AES_GEN_1R_KEY3 = rx_set_int_vec_i128 1226215764 372329608 2981769596 1794081077"

definition hash_init :: lanes where
  "hash_init = (AES_HASH_1R_STATE0, AES_HASH_1R_STATE1, AES_HASH_1R_STATE2, AES_HASH_1R_STATE3)"
definition gen_keys :: lanes where
  "gen_keys = (AES_GEN_1R_KEY0, AES_GEN_1R_KEY1, AES_GEN_1R_KEY2, AES_GEN_1R_KEY3)"

definition hash_round :: "aes_round_fun \<Rightarrow> aes_round_fun \<Rightarrow> lanes \<Rightarrow> lanes \<Rightarrow> lanes" where
  "hash_round enc dec = (\<lambda>(k0, k1, k2, k3) (s0, s1, s2, s3). (enc s0 k0, dec s1 k1, enc s2 k2, dec s3 k3))"

definition fill_round :: "aes_round_fun \<Rightarrow> aes_round_fun \<Rightarrow> lanes \<Rightarrow> lanes \<Rightarrow> lanes" where
  "fill_round enc dec = (\<lambda>(k0, k1, k2, k3) (s0, s1, s2, s3). (dec s0 k0, enc s1 k1, dec s2 k2, enc s3 k3))"

text \<open>The two extra rounds and the output of the hash.\<close>

definition hash_finish :: "aes_round_fun \<Rightarrow> aes_round_fun \<Rightarrow> lanes \<Rightarrow> u8 list" where
  "hash_finish enc dec st =
     (let k0 = AES_HASH_1R_XKEY0; k1 = AES_HASH_1R_XKEY1;
          st = hash_round enc dec (k0, k0, k0, k0) st;
          (a, b, c, d) = hash_round enc dec (k1, k1, k1, k1) st
      in vec_bytes a @ vec_bytes b @ vec_bytes c @ vec_bytes d)"

definition hash_block :: "aes_round_fun \<Rightarrow> aes_round_fun \<Rightarrow> u8 list \<Rightarrow> nat \<Rightarrow> lanes \<Rightarrow> lanes option" where
  "hash_block enc dec input i st = do { k \<leftarrow> load4 input (64 * i); Some (hash_round enc dec k st) }"

definition hashAes1Rx4 :: "aes_round_fun \<Rightarrow> aes_round_fun \<Rightarrow> u8 list \<Rightarrow> nat \<Rightarrow> u8 list option" where
  "hashAes1Rx4 enc dec input inputSize = do {
     st \<leftarrow> foldM (hash_block enc dec input) [0..<(inputSize + 63) div 64] hash_init;
     Some (hash_finish enc dec st)
   }"

definition fill_block :: "aes_round_fun \<Rightarrow> aes_round_fun \<Rightarrow> nat \<Rightarrow> lanes \<times> u8 list \<Rightarrow> (lanes \<times> u8 list) option" where
  "fill_block enc dec i = (\<lambda>(st, buffer).
     (let st = fill_round enc dec gen_keys st
      in do { buffer \<leftarrow> store4 buffer (64 * i) st; Some (st, buffer) }))"

definition fillAes1Rx4 :: "aes_round_fun \<Rightarrow> aes_round_fun \<Rightarrow> u8 list \<Rightarrow> nat \<Rightarrow> u8 list \<Rightarrow> (u8 list \<times> u8 list) option" where
  "fillAes1Rx4 enc dec state outputSize buffer = do {
     st \<leftarrow> load4 state 0;
     (st, buffer) \<leftarrow> foldM (fill_block enc dec) [0..<(outputSize + 63) div 64] (st, buffer);
     state \<leftarrow> store4 state 0 st;
     Some (state, buffer)
   }"

text \<open>The generator of programs: four rounds per block with the keys of the configuration. The first
  two blocks are the entropy and stored as they are; the instructions are masked, so that their
  registers are below eight.\<close>

definition fill4_round :: "aes_round_fun \<Rightarrow> aes_round_fun \<Rightarrow> vec128 list \<Rightarrow> lanes \<Rightarrow> lanes" where
  "fill4_round enc dec key st =
     fold (\<lambda>j. fill_round enc dec (key ! j, key ! j, key ! (4 + j), key ! (4 + j))) [0..<4] st"

definition inst_mask :: "vec128" where
  "inst_mask = (let lo = le_word [0xff, 7, 7, 0xff] in [lo, 0xffffffff, lo, 0xffffffff])"

definition rx_and_vec_i128 :: "vec128 \<Rightarrow> vec128 \<Rightarrow> vec128" where
  "rx_and_vec_i128 a b = map2 (\<lambda>x y. x AND y) a b"

definition mask_lanes :: "lanes \<Rightarrow> lanes" where
  "mask_lanes = (\<lambda>(a, b, c, d). (rx_and_vec_i128 a inst_mask, rx_and_vec_i128 b inst_mask,
     rx_and_vec_i128 c inst_mask, rx_and_vec_i128 d inst_mask))"

definition fill4_block :: "aes_round_fun \<Rightarrow> aes_round_fun \<Rightarrow> vec128 list \<Rightarrow> nat \<Rightarrow> lanes \<times> u8 list \<Rightarrow> (lanes \<times> u8 list) option" where
  "fill4_block enc dec key i = (\<lambda>(st, buffer).
     (let st = fill4_round enc dec key st
      in do { buffer \<leftarrow> store4 buffer (64 * i) (if i < 2 then st else mask_lanes st); Some (st, buffer) }))"

definition fillAes4Rx4 :: "rx_config \<Rightarrow> aes_round_fun \<Rightarrow> aes_round_fun \<Rightarrow> u8 list \<Rightarrow> nat \<Rightarrow> u8 list \<Rightarrow> u8 list option" where
  "fillAes4Rx4 c enc dec state outputSize buffer = do {
     st \<leftarrow> load4 state 0;
     (st, buffer) \<leftarrow> foldM (fill4_block enc dec (fillAes4Rx4_Key c)) [0..<max 2 ((outputSize + 63) div 64)] (st, buffer);
     Some buffer
   }"

subsection \<open>Hash and refill in one pass\<close>

text \<open>The template instances: hardware AES hashes two blocks before it refills them; software AES
  refills each block right after hashing it, with one, two or four blocks per turn.\<close>

datatype aes_variant = HardAes | SoftAes nat

type_synonym hf_state = "u8 list \<times> lanes \<times> lanes"

definition HASH_STATE :: "aes_round_fun \<Rightarrow> aes_round_fun \<Rightarrow> nat \<Rightarrow> nat \<Rightarrow> hf_state \<Rightarrow> hf_state option" where
  "HASH_STATE enc dec scratchpadPtr k = (\<lambda>(mem, hash_state, fill_state). do {
     key \<leftarrow> load4 mem (scratchpadPtr + 64 * k);
     Some (mem, hash_round enc dec key hash_state, fill_state)
   })"

definition FILL_STATE :: "aes_round_fun \<Rightarrow> aes_round_fun \<Rightarrow> nat \<Rightarrow> nat \<Rightarrow> hf_state \<Rightarrow> hf_state option" where
  "FILL_STATE enc dec scratchpadPtr k = (\<lambda>(mem, hash_state, fill_state).
     (let fill_state = fill_round enc dec gen_keys fill_state
      in do {
        mem \<leftarrow> store4 mem (scratchpadPtr + 64 * k) fill_state;
        Some (mem, hash_state, fill_state)
      }))"

definition hash_fill :: "aes_round_fun \<Rightarrow> aes_round_fun \<Rightarrow> nat \<Rightarrow> nat \<Rightarrow> hf_state \<Rightarrow> hf_state option" where
  "hash_fill enc dec ptr k s = do { s \<leftarrow> HASH_STATE enc dec ptr k s; FILL_STATE enc dec ptr k s }"

fun hf_turn :: "aes_variant \<Rightarrow> aes_round_fun \<Rightarrow> aes_round_fun \<Rightarrow> nat \<Rightarrow> hf_state \<Rightarrow> hf_state option" where
  "hf_turn HardAes enc dec ptr s = do {
     s \<leftarrow> HASH_STATE enc dec ptr 0 s;
     s \<leftarrow> HASH_STATE enc dec ptr 1 s;
     s \<leftarrow> FILL_STATE enc dec ptr 0 s;
     FILL_STATE enc dec ptr 1 s
   }"
| "hf_turn (SoftAes unroll) enc dec ptr s =
     (if unroll = 4 then do {
        s \<leftarrow> hash_fill enc dec ptr 0 s;
        s \<leftarrow> hash_fill enc dec ptr 1 s;
        s \<leftarrow> hash_fill enc dec ptr 2 s;
        hash_fill enc dec ptr 3 s
      }
      else if unroll = 2 then do {
        s \<leftarrow> hash_fill enc dec ptr 0 s;
        hash_fill enc dec ptr 1 s
      }
      else hash_fill enc dec ptr 0 s)"

fun hf_blocks :: "aes_variant \<Rightarrow> nat" where
  "hf_blocks HardAes = 2"
| "hf_blocks (SoftAes unroll) = (if unroll = 4 then 4 else if unroll = 2 then 2 else 1)"

lemma hf_blocks_pos [simp]: "0 < hf_blocks v"
  by (cases v) auto

function hf_loop :: "aes_variant \<Rightarrow> aes_round_fun \<Rightarrow> aes_round_fun \<Rightarrow> int \<Rightarrow> nat \<Rightarrow> hf_state \<Rightarrow> (nat \<times> hf_state) option" where
  "hf_loop v enc dec scratchpadEnd ptr s =
     (if int ptr < scratchpadEnd
      then do {
        s \<leftarrow> hf_turn v enc dec ptr s;
        hf_loop v enc dec scratchpadEnd (ptr + 64 * hf_blocks v) s
      }
      else Some (ptr, s))"
  by pat_completeness auto
termination by (relation "measure (\<lambda>(v, enc, dec, e, ptr, s). nat (e - int ptr))") (auto simp: nat_less_eq_zless)

declare hf_loop.simps [simp del]

definition PREFETCH_DISTANCE :: int where "PREFETCH_DISTANCE = 7168"

definition hashAndFillAes1Rx4 :: "aes_variant \<Rightarrow> aes_round_fun \<Rightarrow> aes_round_fun \<Rightarrow> u8 list \<Rightarrow> nat \<Rightarrow> u8 list \<Rightarrow> (u8 list \<times> u8 list \<times> u8 list) option" where
  "hashAndFillAes1Rx4 v enc dec scratchpad scratchpadSize fill_state = do {
     fs \<leftarrow> load4 fill_state 0;
     (ptr, s) \<leftarrow> hf_loop v enc dec (int scratchpadSize - PREFETCH_DISTANCE) 0 (scratchpad, hash_init, fs);
     (ptr, s) \<leftarrow> hf_loop v enc dec (int scratchpadSize - PREFETCH_DISTANCE + PREFETCH_DISTANCE) ptr s;
     let (mem, hs, fs) = s;
     fill_state \<leftarrow> store4 fill_state 0 fs;
     Some (mem, hash_finish enc dec hs, fill_state)
   }"

subsection \<open>The combined pass\<close>

text \<open>All the combined routine needs of the AES rounds is that they return four lanes.\<close>

locale aes_lanes =
  fixes enc :: aes_round_fun and dec :: aes_round_fun
  assumes enc_lanes: "length k = 4 \<Longrightarrow> length (enc v k) = 4"
    and dec_lanes: "length k = 4 \<Longrightarrow> length (dec v k) = 4"

lemma load4_returns: "off + 64 \<le> length mem \<Longrightarrow> \<exists>l. load4 mem off = Some l"
  by (simp add: load4_def rx_load_vec_i128_def)

lemma load4_suffix:
  assumes "length mem' = length mem" "drop b mem' = drop b mem" "b \<le> off"
  shows "load4 mem' off = load4 mem off"
proof -
  have "drop o' mem' = drop o' mem" if "b \<le> o'" for o'
    using arg_cong [OF assms(2), of "drop (o' - b)"] that by simp
  then show ?thesis using assms(1,3) by (simp add: load4_def rx_load_vec_i128_def)
qed

definition lanes_ok :: "lanes \<Rightarrow> bool" where
  "lanes_ok = (\<lambda>(a, b, c, d). length a = 4 \<and> length b = 4 \<and> length c = 4 \<and> length d = 4)"

lemma store4_returns:
  assumes "lanes_ok l" "off + 64 \<le> length mem"
  shows "returns (store4 mem off l) (\<lambda>mem'. length mem' = length mem \<and> drop (off + 64) mem' = drop (off + 64) mem)"
proof -
  obtain a b c d where l: "l = (a, b, c, d)" "length a = 4" "length b = 4" "length c = 4" "length d = 4"
    using assms(1) by (cases l) (auto simp: lanes_ok_def)
  have drop: "drop n (blit m k ys) = drop n m" if "k + length ys \<le> n" "k + length ys \<le> length m" for n k and m ys :: "u8 list"
    using that by (simp add: blit_def)
  show ?thesis
    using l assms(2) by (simp add: store4_def rx_store_vec_i128_def length_vec_bytes drop)
qed

text \<open>After \<open>a\<close> blocks are hashed and \<open>b\<close> blocks are refilled: both states are those of the separate
  routines, and the memory from block \<open>b\<close> on is the old one.\<close>

definition hf_upto :: "aes_round_fun \<Rightarrow> aes_round_fun \<Rightarrow> u8 list \<Rightarrow> lanes \<Rightarrow> nat \<Rightarrow> nat \<Rightarrow> hf_state \<Rightarrow> bool" where
  "hf_upto enc dec old fs0 a b = (\<lambda>(mem, hs, fs). foldM (hash_block enc dec old) [0..<a] hash_init = Some hs
     \<and> foldM (fill_block enc dec) [0..<b] (fs0, old) = Some (fs, mem)
     \<and> length mem = length old \<and> drop (64 * b) mem = drop (64 * b) old)"

context aes_lanes
begin

lemma fill_round_lanes: "lanes_ok (fill_round enc dec gen_keys st)"
  by (cases st) (simp add: gen_keys_def fill_round_def lanes_ok_def enc_lanes dec_lanes
    AES_GEN_1R_KEY0_def AES_GEN_1R_KEY1_def AES_GEN_1R_KEY2_def AES_GEN_1R_KEY3_def)

lemma fill_block_returns:
  assumes "64 * Suc i \<le> length mem"
  shows "returns (fill_block enc dec i (st, mem))
    (\<lambda>(st', mem'). length mem' = length mem \<and> drop (64 * Suc i) mem' = drop (64 * Suc i) mem)"
proof -
  have "64 * i + 64 \<le> length mem" using assms by simp
  from store4_returns [OF fill_round_lanes [of st] this] obtain mem' where
    "store4 mem (64 * i) (fill_round enc dec gen_keys st) = Some mem'" "length mem' = length mem"
    "drop (64 * i + 64) mem' = drop (64 * i + 64) mem" by (auto simp: returns_def)
  then show ?thesis by (simp add: fill_block_def Let_def add.commute)
qed

lemma hash_step:
  assumes "hf_upto enc dec old fs0 a b s" "b \<le> a" "64 * Suc a \<le> length old" "ptr + 64 * k = 64 * a"
  shows "returns (HASH_STATE enc dec ptr k s) (hf_upto enc dec old fs0 (Suc a) b)"
proof -
  obtain mem hs fs where s: "s = (mem, hs, fs)" by (cases s)
  have "load4 mem (64 * a) = load4 old (64 * a)"
    using assms(1,2) by (intro load4_suffix [where b = "64 * b"]) (auto simp: hf_upto_def s)
  moreover obtain l where "load4 old (64 * a) = Some l" using load4_returns [of "64 * a" old] assms(3) by auto
  ultimately show ?thesis
    using assms(1,4) by (simp add: HASH_STATE_def s hf_upto_def foldM_append hash_block_def)
qed

lemma fill_step:
  assumes "hf_upto enc dec old fs0 a b s" "64 * Suc b \<le> length old" "ptr + 64 * k = 64 * b"
  shows "returns (FILL_STATE enc dec ptr k s) (hf_upto enc dec old fs0 a (Suc b))"
proof -
  obtain mem hs fs where s: "s = (mem, hs, fs)" by (cases s)
  have inv: "length mem = length old" "drop (64 * b) mem = drop (64 * b) old" using assms(1) by (auto simp: hf_upto_def s)
  obtain fs' mem' where f: "fill_block enc dec b (fs, mem) = Some (fs', mem')" "length mem' = length mem"
    "drop (64 * Suc b) mem' = drop (64 * Suc b) mem"
    using fill_block_returns [of b mem fs] assms(2) inv(1) by (auto simp: returns_def)
  have "FILL_STATE enc dec ptr k s = Some (mem', hs, fs')"
    using f(1) assms(3) by (auto simp: FILL_STATE_def fill_block_def s Let_def split: bind_splits)
  moreover have "drop (64 * Suc b) mem = drop (64 * Suc b) old"
    using arg_cong [OF inv(2), of "drop 64"] by (simp add: add.commute)
  ultimately show ?thesis using assms(1) f inv(1) by (simp add: hf_upto_def s foldM_append)
qed

lemma hash_fill_step:
  assumes "hf_upto enc dec old fs0 n n s" "64 * Suc n \<le> length old" "ptr + 64 * k = 64 * n"
  shows "returns (hash_fill enc dec ptr k s) (hf_upto enc dec old fs0 (Suc n) (Suc n))"
  unfolding hash_fill_def using assms by (intro returns_bind [OF hash_step] fill_step) auto

lemma turn_step:
  assumes "hf_upto enc dec old fs0 n n s" "64 * (n + hf_blocks v) \<le> length old"
  shows "returns (hf_turn v enc dec (64 * n) s) (hf_upto enc dec old fs0 (n + hf_blocks v) (n + hf_blocks v))"
proof (cases v)
  case HardAes
  have "returns (hf_turn v enc dec (64 * n) s) (hf_upto enc dec old fs0 (Suc (Suc n)) (Suc (Suc n)))"
    unfolding HardAes hf_turn.simps
    using assms HardAes
    by (intro returns_bind [OF hash_step] returns_bind [OF fill_step] fill_step [where b = "Suc n"]) auto
  then show ?thesis by (simp add: HardAes)
next
  case (SoftAes u)
  consider "u = 4" | "u = 2" | "u \<noteq> 4" "u \<noteq> 2" by blast
  then show ?thesis
  proof cases
    case 1
    have "returns (hf_turn v enc dec (64 * n) s) (hf_upto enc dec old fs0 (Suc (Suc (Suc (Suc n)))) (Suc (Suc (Suc (Suc n)))))"
      using assms by (simp add: SoftAes 1) (intro returns_bind [OF hash_fill_step] hash_fill_step; simp)
    then show ?thesis by (simp add: SoftAes 1 eval_nat_numeral)
  next
    case 2
    have "returns (hf_turn v enc dec (64 * n) s) (hf_upto enc dec old fs0 (Suc (Suc n)) (Suc (Suc n)))"
      using assms by (simp add: SoftAes 2) (intro returns_bind [OF hash_fill_step] hash_fill_step; simp)
    then show ?thesis by (simp add: SoftAes 2 eval_nat_numeral)
  next
    case 3
    then show ?thesis using assms hash_fill_step [of old fs0 n s "64 * n" 0] by (simp add: SoftAes)
  qed
qed

lemma loop_steps:
  assumes "hf_upto enc dec old fs0 n n s" "e \<le> int (length old)" "int (64 * hf_blocks v) dvd e - int (64 * n)"
  shows "returns (hf_loop v enc dec e (64 * n) s)
    (\<lambda>(ptr, s'). \<exists>m. ptr = 64 * m \<and> int ptr = max e (int (64 * n)) \<and> hf_upto enc dec old fs0 m m s')"
  using assms
proof (induction "nat (e - int (64 * n))" arbitrary: n s rule: less_induct)
  case less
  show ?case
  proof (cases "int (64 * n) < e")
    case False
    then show ?thesis using less.prems(1) by (subst hf_loop.simps) auto
  next
    case True
    obtain j where j: "e - int (64 * n) = int (64 * hf_blocks v) * j" using less.prems(3) by blast
    have jpos: "1 \<le> j" using True j by (smt (verit) mult_nonneg_nonpos of_nat_0_le_iff)
    have "int (64 * hf_blocks v) * 1 \<le> int (64 * hf_blocks v) * j" using jpos by (intro mult_left_mono) auto
    then have "int (64 * hf_blocks v) \<le> e - int (64 * n)" using j by linarith
    then have le: "int (64 * (n + hf_blocks v)) \<le> e" by simp
    obtain s1 where s1: "hf_turn v enc dec (64 * n) s = Some s1" "hf_upto enc dec old fs0 (n + hf_blocks v) (n + hf_blocks v) s1"
      using turn_step [OF less.prems(1), of v] le less.prems(2) by (auto simp: returns_def)
    have dvd: "int (64 * hf_blocks v) dvd e - int (64 * (n + hf_blocks v))"
    proof
      show "e - int (64 * (n + hf_blocks v)) = int (64 * hf_blocks v) * (j - 1)" using j by (simp add: algebra_simps)
    qed
    have "returns (hf_loop v enc dec e (64 * (n + hf_blocks v)) s1)
      (\<lambda>(ptr, s'). \<exists>m. ptr = 64 * m \<and> int ptr = max e (int (64 * (n + hf_blocks v))) \<and> hf_upto enc dec old fs0 m m s')"
      using less.hyps [OF _ s1(2) less.prems(2) dvd] True hf_blocks_pos [of v] by simp
    moreover have "max e (int (64 * (n + hf_blocks v))) = max e (int (64 * n))" using le True by linarith
    moreover have "hf_loop v enc dec e (64 * n) s = hf_loop v enc dec e (64 * (n + hf_blocks v)) s1"
      using True s1(1) by (subst hf_loop.simps) (simp add: algebra_simps)
    ultimately show ?thesis by simp
  qed
qed

lemma hash_and_fill:
  assumes "256 dvd n" "n \<le> length mem" "length fs = 64"
  shows "\<exists>h fs' mem'. hashAndFillAes1Rx4 v enc dec mem n fs = Some (mem', h, fs')
    \<and> hashAes1Rx4 enc dec mem n = Some h \<and> fillAes1Rx4 enc dec fs n mem = Some (fs', mem') \<and> length mem' = length mem"
proof -
  obtain fs0 where fs0: "load4 fs 0 = Some fs0" using load4_returns [of 0 fs] assms(3) by auto
  have dvd: "int (64 * hf_blocks v) dvd 256" by (cases v) auto
  have "int 256 dvd int n" using assms(1) by (simp only: int_dvd_int_iff)
  then have dn: "int (64 * hf_blocks v) dvd int n" by (intro dvd_trans [OF dvd]) simp
  have dp: "int (64 * hf_blocks v) dvd PREFETCH_DISTANCE"
    by (rule dvd_trans [OF dvd]) (simp add: PREFETCH_DISTANCE_def)
  have "hf_upto enc dec mem fs0 0 0 (mem, hash_init, fs0)" by (simp add: hf_upto_def)
  then have "returns (hf_loop v enc dec (int n - PREFETCH_DISTANCE) (64 * 0) (mem, hash_init, fs0))
    (\<lambda>(ptr, s'). \<exists>m. ptr = 64 * m \<and> int ptr = max (int n - PREFETCH_DISTANCE) (int (64 * 0)) \<and> hf_upto enc dec mem fs0 m m s')"
    using assms(2) dn dp by (intro loop_steps) (auto simp: PREFETCH_DISTANCE_def)
  then obtain m s1 where s1: "hf_loop v enc dec (int n - PREFETCH_DISTANCE) 0 (mem, hash_init, fs0) = Some (64 * m, s1)"
    "int (64 * m) = max (int n - PREFETCH_DISTANCE) 0" "hf_upto enc dec mem fs0 m m s1"
    by (auto simp: returns_def)
  have d1: "int (64 * hf_blocks v) dvd int n - int (64 * m)"
    unfolding s1(2) using dn dp by (simp add: max_def)
  have le: "int (64 * m) \<le> int n" using s1(2) by (simp add: PREFETCH_DISTANCE_def)
  obtain p s2 where s2: "hf_loop v enc dec (int n) (64 * m) s1 = Some (64 * p, s2)" "int (64 * p) = int n" "hf_upto enc dec mem fs0 p p s2"
    using loop_steps [OF s1(3) _ d1] assms(2) le by (auto simp: returns_def)
  have p: "(n + 63) div 64 = p" using s2(2) by simp
  obtain mem' hs fs' where s: "s2 = (mem', hs, fs')" by (cases s2)
  have f: "foldM (hash_block enc dec mem) [0..<p] hash_init = Some hs"
    "foldM (fill_block enc dec) [0..<p] (fs0, mem) = Some (fs', mem')" "length mem' = length mem"
    using s2(3) by (auto simp: hf_upto_def s)
  have "\<exists>out. store4 fs 0 fs' = Some out"
  proof -
    obtain a b c d where abcd: "fs' = (a, b, c, d)" by (cases fs')
    have ge: "64 \<le> length (blit x k ys)" if "64 \<le> length x" for x k and ys :: "u8 list"
      using that by (simp add: blit_def)
    let ?x = "blit fs 0 (vec_bytes a)" and ?y = "blit (blit fs 0 (vec_bytes a)) 16 (vec_bytes b)"
    have "64 \<le> length ?x" using ge assms(3) by simp
    moreover from ge [OF this] have "64 \<le> length ?y" .
    moreover from ge [OF this] have "64 \<le> length (blit ?y 32 (vec_bytes c))" .
    ultimately show ?thesis using assms(3) by (simp add: store4_def rx_store_vec_i128_def abcd)
  qed
  then show ?thesis
    using fs0 s1(1) s2(1) f by (auto simp: hashAndFillAes1Rx4_def hashAes1Rx4_def fillAes1Rx4_def p s)
qed

end

lemma length_xor_vec: "length (rx_xor_vec_i128 a b) = min (length a) (length b)"
  by (simp add: rx_xor_vec_i128_def)

interpretation soft1: aes_lanes "aesenc1 lutEnc" "aesdec1 lutDec" for lutEnc lutDec
  by unfold_locales (simp_all add: aesenc1_def aesdec1_def Let_def length_xor_vec)

interpretation soft2: aes_lanes "aesenc2 lutEnc" "aesdec2 lutDec" for lutEnc lutDec
  by unfold_locales (simp_all add: aesenc2_def aesdec2_def Let_def length_xor_vec)

text \<open>C12. The combined pass over the scratchpad, in every template instance (hardware AES with two
  blocks per turn, software AES with one, two or four), returns exactly what the two separate
  routines return: the hash of the old scratchpad, and the scratchpad and generator state of the
  refill. The size is a multiple of 256 bytes, as every scratchpad size is; of the AES rounds only
  their four lanes matter.\<close>

theorem hashAndFill_is_hash_then_fill:
  assumes "\<And>v k. length k = 4 \<Longrightarrow> length (enc v k) = 4" "\<And>v k. length k = 4 \<Longrightarrow> length (dec v k) = 4"
    and "256 dvd scratchpadSize" "scratchpadSize \<le> length scratchpad" "length fill_state = 64"
  shows "\<exists>h fs mem. hashAndFillAes1Rx4 variant enc dec scratchpad scratchpadSize fill_state = Some (mem, h, fs)
    \<and> hashAes1Rx4 enc dec scratchpad scratchpadSize = Some h
    \<and> fillAes1Rx4 enc dec fill_state scratchpadSize scratchpad = Some (fs, mem) \<and> length mem = length scratchpad
    \<and> hashAndFillAes1Rx4 (SoftAes unroll) (aesenc2 lutEnc) (aesdec2 lutDec) scratchpad scratchpadSize fill_state
      = hashAndFillAes1Rx4 (SoftAes 1) (aesenc2 lutEnc) (aesdec2 lutDec) scratchpad scratchpadSize fill_state"
proof -
  have "aes_lanes enc dec" using assms(1,2) by unfold_locales
  note general = aes_lanes.hash_and_fill [OF this assms(3-5), of variant]
  show ?thesis
    using general soft2.hash_and_fill [OF assms(3-5), of "SoftAes unroll" lutEnc lutDec]
      soft2.hash_and_fill [OF assms(3-5), of "SoftAes 1" lutEnc lutDec] by force
qed

theorem hashAndFill_is_hash_then_fill_witness:
  "\<exists>h fs mem. hashAndFillAes1Rx4 HardAes (aesenc1 []) (aesdec1 []) (replicate 10240 0) 10240 (replicate 64 0) = Some (mem, h, fs)
    \<and> hashAes1Rx4 (aesenc1 []) (aesdec1 []) (replicate 10240 0) 10240 = Some h
    \<and> fillAes1Rx4 (aesenc1 []) (aesdec1 []) (replicate 64 0) 10240 (replicate 10240 0) = Some (fs, mem)"
proof -
  have d: "(256 :: nat) dvd 10240" by simp
  have l: "10240 \<le> length (replicate 10240 (0 :: u8))" "length (replicate 64 (0 :: u8)) = 64" by simp_all
  from hashAndFill_is_hash_then_fill [of "aesenc1 []" "aesdec1 []", OF soft1.enc_lanes soft1.dec_lanes d l, of HardAes]
  show ?thesis by blast
qed

end
