(* ===== verification/Rx_Bytecode.thy ===== *)
theory Rx_Bytecode
  imports Rx_Config
begin

text \<open>
  The bytecode machine of the interpreter (\<^verbatim>\<open>bytecode_machine.cpp\<close>, \<^verbatim>\<open>bytecode_machine.hpp\<close>):
  instructions are compiled to bytecode, whose operands are pointers into the register file, and
  the bytecode is executed until its program counter leaves the program. The pointers of the two
  unions \<^verbatim>\<open>idst/fdst\<close> and \<^verbatim>\<open>isrc/fsrc\<close> are the places they point to, and reading a member that was not
  written is \<open>None\<close>, as is an access outside the register file or the scratchpad and the
  \<^verbatim>\<open>UNREACHABLE\<close> branches. The floating-point instructions are the argument \<open>F\<close>; they act on the bit
  patterns of both lanes under the current rounding mode.
\<close>

subsection \<open>Bytecode and machine state\<close>

datatype dst_ptr = IReg nat | FReg nat | EReg nat
datatype src_ptr = SrcR nat | SrcImm | SrcZero | SrcA nat

record InstructionByteCode =
  bdst :: dst_ptr
  bsrc :: src_ptr
  imm :: u64
  btype :: InstructionType
  target :: "16 word"
  memMask :: u32

type_synonym f128 = "u64 \<times> u64"

record NativeRegisterFile =
  nr :: "u64 list"
  nf :: "f128 list"
  ne :: "f128 list"
  na :: "f128 list"

record machine = NativeRegisterFile +
  spad :: "u8 list"
  fprc :: nat

record ProgramConfiguration =
  eMask :: f128
  readReg0 :: nat
  readReg1 :: nat
  readReg2 :: nat
  readReg3 :: nat

record fpu =
  fp_add :: "nat \<Rightarrow> u64 \<Rightarrow> u64 \<Rightarrow> u64"
  fp_sub :: "nat \<Rightarrow> u64 \<Rightarrow> u64 \<Rightarrow> u64"
  fp_mul :: "nat \<Rightarrow> u64 \<Rightarrow> u64 \<Rightarrow> u64"
  fp_div :: "nat \<Rightarrow> u64 \<Rightarrow> u64 \<Rightarrow> u64"
  fp_sqrt :: "nat \<Rightarrow> u64 \<Rightarrow> u64"
  fp_cvt :: "u32 \<Rightarrow> u64"

definition RegistersCount :: nat where "RegistersCount = 8"
definition RegisterCountFlt :: nat where "RegisterCountFlt = RegistersCount div 2"
definition StoreL3Condition :: u32 where "StoreL3Condition = 14"

lemmas register_counts [simp] = RegistersCount_def RegisterCountFlt_def

subsection \<open>Compilation\<close>

text \<open>The compiler state is \<^verbatim>\<open>registerUsage\<close>: the last instruction that wrote each register. The cases
  of \<^verbatim>\<open>compileInstruction\<close> that differ only in the type of the instruction share a definition.\<close>

type_synonym compiled = "(int list \<times> InstructionByteCode) option"

definition reg8 :: "u8 \<Rightarrow> nat" where "reg8 x = unat x mod RegistersCount"
definition reg4 :: "u8 \<Rightarrow> nat" where "reg4 x = unat x mod RegisterCountFlt"

definition address_mask :: "rx_config \<Rightarrow> Instruction \<Rightarrow> u32 option" where
  "address_mask c instr = get (AddressMask c) (unat (getModMem instr))"

definition gen_IADD_RS :: "Instruction \<Rightarrow> nat \<Rightarrow> int list \<Rightarrow> InstructionByteCode \<Rightarrow> compiled" where
  "gen_IADD_RS instr i usage ibc =
     (let d = reg8 (dst instr); s = reg8 (src instr);
          ibc = ibc\<lparr>btype := T_IADD_RS, bdst := IReg d, bsrc := SrcR s, target := ucast (getModShift instr)\<rparr>;
          ibc = (if d \<noteq> RegisterNeedsDisplacement then ibc\<lparr>imm := 0\<rparr>
                 else ibc\<lparr>imm := signExtend2sCompl (imm32 instr)\<rparr>)
      in do { usage \<leftarrow> put usage d (int i); Some (usage, ibc) })"

definition gen_mem :: "rx_config \<Rightarrow> InstructionType \<Rightarrow> Instruction \<Rightarrow> nat \<Rightarrow> int list \<Rightarrow> InstructionByteCode \<Rightarrow> compiled" where
  "gen_mem c t instr i usage ibc =
     (let d = reg8 (dst instr); s = reg8 (src instr);
          ibc = ibc\<lparr>btype := t, bdst := IReg d, imm := signExtend2sCompl (imm32 instr)\<rparr>
      in do {
        ibc \<leftarrow> (if s \<noteq> d then do { m \<leftarrow> address_mask c instr; Some (ibc\<lparr>bsrc := SrcR s, memMask := m\<rparr>) }
                else Some (ibc\<lparr>bsrc := SrcZero, memMask := ScratchpadL3Mask c\<rparr>));
        usage \<leftarrow> put usage d (int i);
        Some (usage, ibc)
      })"

definition gen_alu :: "InstructionType \<Rightarrow> (u32 \<Rightarrow> u64) \<Rightarrow> Instruction \<Rightarrow> nat \<Rightarrow> int list \<Rightarrow> InstructionByteCode \<Rightarrow> compiled" where
  "gen_alu t ext instr i usage ibc =
     (let d = reg8 (dst instr); s = reg8 (src instr);
          ibc = ibc\<lparr>btype := t, bdst := IReg d\<rparr>;
          ibc = (if s \<noteq> d then ibc\<lparr>bsrc := SrcR s\<rparr> else ibc\<lparr>imm := ext (imm32 instr), bsrc := SrcImm\<rparr>)
      in do { usage \<leftarrow> put usage d (int i); Some (usage, ibc) })"

definition gen_mulh :: "InstructionType \<Rightarrow> Instruction \<Rightarrow> nat \<Rightarrow> int list \<Rightarrow> InstructionByteCode \<Rightarrow> compiled" where
  "gen_mulh t instr i usage ibc =
     (let d = reg8 (dst instr); s = reg8 (src instr);
          ibc = ibc\<lparr>btype := t, bdst := IReg d, bsrc := SrcR s\<rparr>
      in do { usage \<leftarrow> put usage d (int i); Some (usage, ibc) })"

definition gen_IMUL_RCP :: "Instruction \<Rightarrow> nat \<Rightarrow> int list \<Rightarrow> InstructionByteCode \<Rightarrow> compiled" where
  "gen_IMUL_RCP instr i usage ibc =
     (let divisor = ucast (imm32 instr) :: u64
      in if \<not> isZeroOrPowerOf2 divisor
         then let d = reg8 (dst instr);
                  ibc = ibc\<lparr>btype := T_IMUL_R, bdst := IReg d, imm := randomx_reciprocal divisor, bsrc := SrcImm\<rparr>
              in do { usage \<leftarrow> put usage d (int i); Some (usage, ibc) }
         else Some (usage, ibc\<lparr>btype := T_NOP\<rparr>))"

definition gen_INEG_R :: "Instruction \<Rightarrow> nat \<Rightarrow> int list \<Rightarrow> InstructionByteCode \<Rightarrow> compiled" where
  "gen_INEG_R instr i usage ibc =
     (let d = reg8 (dst instr)
      in do { usage \<leftarrow> put usage d (int i); Some (usage, ibc\<lparr>btype := T_INEG_R, bdst := IReg d\<rparr>) })"

definition gen_ISWAP_R :: "Instruction \<Rightarrow> nat \<Rightarrow> int list \<Rightarrow> InstructionByteCode \<Rightarrow> compiled" where
  "gen_ISWAP_R instr i usage ibc =
     (let d = reg8 (dst instr); s = reg8 (src instr)
      in if s \<noteq> d
         then do {
           usage \<leftarrow> put usage d (int i);
           usage \<leftarrow> put usage s (int i);
           Some (usage, ibc\<lparr>bdst := IReg d, bsrc := SrcR s, btype := T_ISWAP_R\<rparr>)
         }
         else Some (usage, ibc\<lparr>btype := T_NOP\<rparr>))"

definition gen_FSWAP_R :: "Instruction \<Rightarrow> int list \<Rightarrow> InstructionByteCode \<Rightarrow> compiled" where
  "gen_FSWAP_R instr usage ibc =
     (let d = reg8 (dst instr)
      in Some (usage, ibc\<lparr>btype := T_FSWAP_R,
           bdst := (if d < RegisterCountFlt then FReg d else EReg (d - RegisterCountFlt))\<rparr>))"

definition gen_freg :: "InstructionType \<Rightarrow> (nat \<Rightarrow> dst_ptr) \<Rightarrow> Instruction \<Rightarrow> int list \<Rightarrow> InstructionByteCode \<Rightarrow> compiled" where
  "gen_freg t R instr usage ibc =
     Some (usage, ibc\<lparr>btype := t, bdst := R (reg4 (dst instr)), bsrc := SrcA (reg4 (src instr))\<rparr>)"

definition gen_fone :: "InstructionType \<Rightarrow> (nat \<Rightarrow> dst_ptr) \<Rightarrow> Instruction \<Rightarrow> int list \<Rightarrow> InstructionByteCode \<Rightarrow> compiled" where
  "gen_fone t R instr usage ibc = Some (usage, ibc\<lparr>btype := t, bdst := R (reg4 (dst instr))\<rparr>)"

definition gen_fmem :: "rx_config \<Rightarrow> InstructionType \<Rightarrow> (nat \<Rightarrow> dst_ptr) \<Rightarrow> Instruction \<Rightarrow> int list \<Rightarrow> InstructionByteCode \<Rightarrow> compiled" where
  "gen_fmem c t R instr usage ibc = do {
     m \<leftarrow> address_mask c instr;
     Some (usage, ibc\<lparr>btype := t, bdst := R (reg4 (dst instr)), bsrc := SrcR (reg8 (src instr)), memMask := m,
       imm := signExtend2sCompl (imm32 instr)\<rparr>)
   }"

definition gen_CBRANCH :: "Instruction \<Rightarrow> nat \<Rightarrow> int list \<Rightarrow> InstructionByteCode \<Rightarrow> compiled" where
  "gen_CBRANCH instr i usage ibc =
     (let creg = reg8 (dst instr); shift = unat (getModCond instr);
          v = signExtend2sCompl (imm32 instr) OR push_bit shift (push_bit JumpOffset 1);
          v = v AND NOT (push_bit shift (push_bit (JumpOffset - 1) 1))
      in do {
        t \<leftarrow> get usage creg;
        usage \<leftarrow> foldM (\<lambda>j usage. put usage j (int i)) [0..<RegistersCount] usage;
        Some (usage, ibc\<lparr>btype := T_CBRANCH, bdst := IReg creg, target := of_int t, imm := v,
          memMask := push_bit shift ConditionMask\<rparr>)
      })"

definition gen_CFROUND :: "Instruction \<Rightarrow> int list \<Rightarrow> InstructionByteCode \<Rightarrow> compiled" where
  "gen_CFROUND instr usage ibc =
     Some (usage, ibc\<lparr>bsrc := SrcR (reg8 (src instr)), btype := T_CFROUND, imm := ucast (imm32 instr AND 63)\<rparr>)"

definition gen_ISTORE :: "rx_config \<Rightarrow> Instruction \<Rightarrow> int list \<Rightarrow> InstructionByteCode \<Rightarrow> compiled" where
  "gen_ISTORE c instr usage ibc = do {
     m \<leftarrow> (if getModCond instr < StoreL3Condition then address_mask c instr else Some (ScratchpadL3Mask c));
     Some (usage, ibc\<lparr>btype := T_ISTORE, bdst := IReg (reg8 (dst instr)), bsrc := SrcR (reg8 (src instr)),
       imm := signExtend2sCompl (imm32 instr), memMask := m\<rparr>)
   }"

fun compile_type :: "rx_config \<Rightarrow> InstructionType \<Rightarrow> Instruction \<Rightarrow> nat \<Rightarrow> int list \<Rightarrow> InstructionByteCode \<Rightarrow> compiled" where
  "compile_type c T_IADD_RS = gen_IADD_RS"
| "compile_type c T_IADD_M = gen_mem c T_IADD_M"
| "compile_type c T_ISUB_R = gen_alu T_ISUB_R signExtend2sCompl"
| "compile_type c T_ISUB_M = gen_mem c T_ISUB_M"
| "compile_type c T_IMUL_R = gen_alu T_IMUL_R signExtend2sCompl"
| "compile_type c T_IMUL_M = gen_mem c T_IMUL_M"
| "compile_type c T_IMULH_R = gen_mulh T_IMULH_R"
| "compile_type c T_IMULH_M = gen_mem c T_IMULH_M"
| "compile_type c T_ISMULH_R = gen_mulh T_ISMULH_R"
| "compile_type c T_ISMULH_M = gen_mem c T_ISMULH_M"
| "compile_type c T_IMUL_RCP = gen_IMUL_RCP"
| "compile_type c T_INEG_R = gen_INEG_R"
| "compile_type c T_IXOR_R = gen_alu T_IXOR_R signExtend2sCompl"
| "compile_type c T_IXOR_M = gen_mem c T_IXOR_M"
| "compile_type c T_IROR_R = gen_alu T_IROR_R ucast"
| "compile_type c T_IROL_R = gen_alu T_IROL_R ucast"
| "compile_type c T_ISWAP_R = gen_ISWAP_R"
| "compile_type c T_FSWAP_R = (\<lambda>instr i. gen_FSWAP_R instr)"
| "compile_type c T_FADD_R = (\<lambda>instr i. gen_freg T_FADD_R FReg instr)"
| "compile_type c T_FADD_M = (\<lambda>instr i. gen_fmem c T_FADD_M FReg instr)"
| "compile_type c T_FSUB_R = (\<lambda>instr i. gen_freg T_FSUB_R FReg instr)"
| "compile_type c T_FSUB_M = (\<lambda>instr i. gen_fmem c T_FSUB_M FReg instr)"
| "compile_type c T_FSCAL_R = (\<lambda>instr i. gen_fone T_FSCAL_R FReg instr)"
| "compile_type c T_FMUL_R = (\<lambda>instr i. gen_freg T_FMUL_R EReg instr)"
| "compile_type c T_FDIV_M = (\<lambda>instr i. gen_fmem c T_FDIV_M EReg instr)"
| "compile_type c T_FSQRT_R = (\<lambda>instr i. gen_fone T_FSQRT_R EReg instr)"
| "compile_type c T_CBRANCH = gen_CBRANCH"
| "compile_type c T_CFROUND = (\<lambda>instr i. gen_CFROUND instr)"
| "compile_type c T_ISTORE = (\<lambda>instr i. gen_ISTORE c instr)"
| "compile_type c T_NOP = (\<lambda>instr i usage ibc. Some (usage, ibc\<lparr>btype := T_NOP\<rparr>))"

definition compileInstruction :: "rx_config \<Rightarrow> Instruction \<Rightarrow> nat \<Rightarrow> int list \<Rightarrow> InstructionByteCode \<Rightarrow> compiled" where
  "compileInstruction c instr i usage ibc = do {
     t \<leftarrow> decode_type c (opcode instr);
     compile_type c t instr i usage ibc
   }"

definition beginCompilation :: "int list" where
  "beginCompilation = replicate RegistersCount (- 1)"

definition compileProgram :: "rx_config \<Rightarrow> Instruction list \<Rightarrow> InstructionByteCode list \<Rightarrow> InstructionByteCode list option" where
  "compileProgram c program bytecode = do {
     (_, bytecode) \<leftarrow> foldM (\<lambda>i (usage, bytecode). do {
         instr \<leftarrow> get program i;
         ibc \<leftarrow> get bytecode i;
         (usage, ibc) \<leftarrow> compileInstruction c instr i usage ibc;
         bytecode \<leftarrow> put bytecode i ibc;
         Some (usage, bytecode)
       }) [0..<ProgramSize c] (beginCompilation, bytecode);
     Some bytecode
   }"

subsection \<open>Execution\<close>

text \<open>Reading and writing through the pointers of an instruction.\<close>

definition get_idst :: "InstructionByteCode \<Rightarrow> machine \<Rightarrow> u64 option" where
  "get_idst ibc m = (case bdst ibc of IReg d \<Rightarrow> get (nr m) d | _ \<Rightarrow> None)"

definition put_idst :: "InstructionByteCode \<Rightarrow> u64 \<Rightarrow> machine \<Rightarrow> machine option" where
  "put_idst ibc v m = (case bdst ibc of
     IReg d \<Rightarrow> do { r \<leftarrow> put (nr m) d v; Some (m\<lparr>nr := r\<rparr>) }
   | _ \<Rightarrow> None)"

definition get_isrc :: "InstructionByteCode \<Rightarrow> machine \<Rightarrow> u64 option" where
  "get_isrc ibc m = (case bsrc ibc of
     SrcR k \<Rightarrow> get (nr m) k | SrcImm \<Rightarrow> Some (imm ibc) | SrcZero \<Rightarrow> Some 0 | SrcA _ \<Rightarrow> None)"

definition put_isrc :: "InstructionByteCode \<Rightarrow> u64 \<Rightarrow> machine \<Rightarrow> machine option" where
  "put_isrc ibc v m = (case bsrc ibc of
     SrcR k \<Rightarrow> do { r \<leftarrow> put (nr m) k v; Some (m\<lparr>nr := r\<rparr>) }
   | _ \<Rightarrow> None)"

definition get_fdst :: "InstructionByteCode \<Rightarrow> machine \<Rightarrow> f128 option" where
  "get_fdst ibc m = (case bdst ibc of IReg _ \<Rightarrow> None | FReg d \<Rightarrow> get (nf m) d | EReg d \<Rightarrow> get (ne m) d)"

definition put_fdst :: "InstructionByteCode \<Rightarrow> f128 \<Rightarrow> machine \<Rightarrow> machine option" where
  "put_fdst ibc v m = (case bdst ibc of
     IReg _ \<Rightarrow> None
   | FReg d \<Rightarrow> do { f \<leftarrow> put (nf m) d v; Some (m\<lparr>nf := f\<rparr>) }
   | EReg d \<Rightarrow> do { e \<leftarrow> put (ne m) d v; Some (m\<lparr>ne := e\<rparr>) })"

definition get_fsrc :: "InstructionByteCode \<Rightarrow> machine \<Rightarrow> f128 option" where
  "get_fsrc ibc m = (case bsrc ibc of SrcA k \<Rightarrow> get (na m) k | _ \<Rightarrow> None)"

definition sp_load64 :: "u8 list \<Rightarrow> nat \<Rightarrow> u64 option" where
  "sp_load64 sp off = (if off + 8 \<le> length sp then Some (load64 (drop off sp)) else None)"

definition sp_store64 :: "u8 list \<Rightarrow> nat \<Rightarrow> u64 \<Rightarrow> u8 list option" where
  "sp_store64 sp off v = (if off + 8 \<le> length sp then Some (blit sp off (store64 v)) else None)"

definition getScratchpadAddress :: "InstructionByteCode \<Rightarrow> machine \<Rightarrow> nat option" where
  "getScratchpadAddress ibc m = do {
     x \<leftarrow> get_isrc ibc m;
     Some (unat (ucast ((x + imm ibc) AND ucast (memMask ibc)) :: u32))
   }"

definition load_operand :: "InstructionByteCode \<Rightarrow> machine \<Rightarrow> u64 option" where
  "load_operand ibc m = do { off \<leftarrow> getScratchpadAddress ibc m; sp_load64 (spad m) off }"

definition rx_cvt_packed_int_vec_f128 :: "fpu \<Rightarrow> u8 list \<Rightarrow> nat \<Rightarrow> f128 option" where
  "rx_cvt_packed_int_vec_f128 F sp off =
     (if off + 8 \<le> length sp
      then Some (fp_cvt F (load32 (drop off sp)), fp_cvt F (load32 (drop (off + 4) sp)))
      else None)"

definition load_foperand :: "fpu \<Rightarrow> InstructionByteCode \<Rightarrow> machine \<Rightarrow> f128 option" where
  "load_foperand F ibc m = do { off \<leftarrow> getScratchpadAddress ibc m; rx_cvt_packed_int_vec_f128 F (spad m) off }"

definition dynamicMantissaMask :: u64 where "dynamicMantissaMask = push_bit (52 + 4) 1 - 1"

definition maskRegisterExponentMantissa :: "ProgramConfiguration \<Rightarrow> f128 \<Rightarrow> f128" where
  "maskRegisterExponentMantissa cfg x =
     ((fst x AND dynamicMantissaMask) OR fst (eMask cfg), (snd x AND dynamicMantissaMask) OR snd (eMask cfg))"

definition rx_swap_vec_f128 :: "f128 \<Rightarrow> f128" where "rx_swap_vec_f128 x = (snd x, fst x)"

definition lanes2 :: "(u64 \<Rightarrow> u64 \<Rightarrow> u64) \<Rightarrow> f128 \<Rightarrow> f128 \<Rightarrow> f128" where
  "lanes2 g x y = (g (fst x) (fst y), g (snd x) (snd y))"

definition exe_int :: "(u64 \<Rightarrow> u64 \<Rightarrow> u64) \<Rightarrow> InstructionByteCode \<Rightarrow> machine \<Rightarrow> machine option" where
  "exe_int g ibc m = do { a \<leftarrow> get_idst ibc m; b \<leftarrow> get_isrc ibc m; put_idst ibc (g a b) m }"

definition exe_int_mem :: "(u64 \<Rightarrow> u64 \<Rightarrow> u64) \<Rightarrow> InstructionByteCode \<Rightarrow> machine \<Rightarrow> machine option" where
  "exe_int_mem g ibc m = do { a \<leftarrow> get_idst ibc m; b \<leftarrow> load_operand ibc m; put_idst ibc (g a b) m }"

definition exe_INEG_R :: "InstructionByteCode \<Rightarrow> machine \<Rightarrow> machine option" where
  "exe_INEG_R ibc m = do { a \<leftarrow> get_idst ibc m; put_idst ibc (NOT a + 1) m }"

definition exe_ISWAP_R :: "InstructionByteCode \<Rightarrow> machine \<Rightarrow> machine option" where
  "exe_ISWAP_R ibc m = do {
     temp \<leftarrow> get_isrc ibc m;
     a \<leftarrow> get_idst ibc m;
     m \<leftarrow> put_isrc ibc a m;
     put_idst ibc temp m
   }"

definition exe_fp1 :: "(f128 \<Rightarrow> f128) \<Rightarrow> InstructionByteCode \<Rightarrow> machine \<Rightarrow> machine option" where
  "exe_fp1 g ibc m = do { x \<leftarrow> get_fdst ibc m; put_fdst ibc (g x) m }"

definition exe_fp2 :: "(u64 \<Rightarrow> u64 \<Rightarrow> u64) \<Rightarrow> InstructionByteCode \<Rightarrow> machine \<Rightarrow> machine option" where
  "exe_fp2 g ibc m = do { x \<leftarrow> get_fdst ibc m; y \<leftarrow> get_fsrc ibc m; put_fdst ibc (lanes2 g x y) m }"

definition exe_fp_mem :: "fpu \<Rightarrow> (f128 \<Rightarrow> f128) \<Rightarrow> (u64 \<Rightarrow> u64 \<Rightarrow> u64) \<Rightarrow> InstructionByteCode \<Rightarrow> machine \<Rightarrow> machine option" where
  "exe_fp_mem F h g ibc m = do {
     y \<leftarrow> load_foperand F ibc m;
     x \<leftarrow> get_fdst ibc m;
     put_fdst ibc (lanes2 g x (h y)) m
   }"

definition exe_FSCAL_R :: "InstructionByteCode \<Rightarrow> machine \<Rightarrow> machine option" where
  "exe_FSCAL_R = exe_fp1 (\<lambda>x. lanes2 (XOR) x (0x80F0000000000000, 0x80F0000000000000))"

definition exe_CBRANCH :: "InstructionByteCode \<Rightarrow> int \<times> machine \<Rightarrow> (int \<times> machine) option" where
  "exe_CBRANCH ibc = (\<lambda>(pc, m). do {
     a \<leftarrow> get_idst ibc m;
     m \<leftarrow> put_idst ibc (a + imm ibc) m;
     Some (if (a + imm ibc) AND ucast (memMask ibc) = 0 then sint (target ibc) else pc, m)
   })"

definition exe_CFROUND :: "rx_config \<Rightarrow> InstructionByteCode \<Rightarrow> machine \<Rightarrow> machine option" where
  "exe_CFROUND c ibc m = do {
     x \<leftarrow> get_isrc ibc m;
     let v = rx_rotr64 x (unat (imm ibc));
     Some (if \<not> Tweak_V2_CFROUND c \<or> v AND 60 = 0 then m\<lparr>fprc := unat (v mod 4)\<rparr> else m)
   }"

definition exe_ISTORE :: "InstructionByteCode \<Rightarrow> machine \<Rightarrow> machine option" where
  "exe_ISTORE ibc m = do {
     a \<leftarrow> get_idst ibc m;
     b \<leftarrow> get_isrc ibc m;
     sp \<leftarrow> sp_store64 (spad m) (unat ((a + imm ibc) AND ucast (memMask ibc))) b;
     Some (m\<lparr>spad := sp\<rparr>)
   }"

text \<open>Every instruction but \<^verbatim>\<open>CBRANCH\<close> leaves the program counter alone.\<close>

fun exe_straight :: "fpu \<Rightarrow> rx_config \<Rightarrow> ProgramConfiguration \<Rightarrow> InstructionType \<Rightarrow> InstructionByteCode \<Rightarrow> machine \<Rightarrow> machine option" where
  "exe_straight F c cfg T_IADD_RS = (\<lambda>ibc. exe_int (\<lambda>a b. a + (push_bit (unat (target ibc)) b + imm ibc)) ibc)"
| "exe_straight F c cfg T_IADD_M = exe_int_mem (+)"
| "exe_straight F c cfg T_ISUB_R = exe_int (-)"
| "exe_straight F c cfg T_ISUB_M = exe_int_mem (-)"
| "exe_straight F c cfg T_IMUL_R = exe_int (*)"
| "exe_straight F c cfg T_IMUL_M = exe_int_mem (*)"
| "exe_straight F c cfg T_IMULH_R = exe_int mulh"
| "exe_straight F c cfg T_IMULH_M = exe_int_mem mulh"
| "exe_straight F c cfg T_ISMULH_R = exe_int smulh"
| "exe_straight F c cfg T_ISMULH_M = exe_int_mem smulh"
| "exe_straight F c cfg T_INEG_R = exe_INEG_R"
| "exe_straight F c cfg T_IXOR_R = exe_int (XOR)"
| "exe_straight F c cfg T_IXOR_M = exe_int_mem (XOR)"
| "exe_straight F c cfg T_IROR_R = exe_int (\<lambda>a b. rx_rotr64 a (unat (b AND 63)))"
| "exe_straight F c cfg T_IROL_R = exe_int (\<lambda>a b. rx_rotl64 a (unat (b AND 63)))"
| "exe_straight F c cfg T_ISWAP_R = exe_ISWAP_R"
| "exe_straight F c cfg T_FSWAP_R = exe_fp1 rx_swap_vec_f128"
| "exe_straight F c cfg T_FADD_R = (\<lambda>ibc m. exe_fp2 (fp_add F (fprc m)) ibc m)"
| "exe_straight F c cfg T_FADD_M = (\<lambda>ibc m. exe_fp_mem F (\<lambda>x. x) (fp_add F (fprc m)) ibc m)"
| "exe_straight F c cfg T_FSUB_R = (\<lambda>ibc m. exe_fp2 (fp_sub F (fprc m)) ibc m)"
| "exe_straight F c cfg T_FSUB_M = (\<lambda>ibc m. exe_fp_mem F (\<lambda>x. x) (fp_sub F (fprc m)) ibc m)"
| "exe_straight F c cfg T_FSCAL_R = exe_FSCAL_R"
| "exe_straight F c cfg T_FMUL_R = (\<lambda>ibc m. exe_fp2 (fp_mul F (fprc m)) ibc m)"
| "exe_straight F c cfg T_FDIV_M = (\<lambda>ibc m. exe_fp_mem F (maskRegisterExponentMantissa cfg) (fp_div F (fprc m)) ibc m)"
| "exe_straight F c cfg T_FSQRT_R = (\<lambda>ibc m. exe_fp1 (\<lambda>x. (fp_sqrt F (fprc m) (fst x), fp_sqrt F (fprc m) (snd x))) ibc m)"
| "exe_straight F c cfg T_CFROUND = exe_CFROUND c"
| "exe_straight F c cfg T_ISTORE = exe_ISTORE"
| "exe_straight F c cfg T_NOP = (\<lambda>ibc m. Some m)"
| "exe_straight F c cfg T_IMUL_RCP = (\<lambda>ibc m. None)"
| "exe_straight F c cfg T_CBRANCH = (\<lambda>ibc m. None)"

definition executeInstruction :: "fpu \<Rightarrow> rx_config \<Rightarrow> ProgramConfiguration \<Rightarrow> InstructionByteCode \<Rightarrow> int \<times> machine \<Rightarrow> (int \<times> machine) option" where
  "executeInstruction F c cfg ibc = (\<lambda>(pc, m).
     if btype ibc = T_CBRANCH then exe_CBRANCH ibc (pc, m)
     else do { m \<leftarrow> exe_straight F c cfg (btype ibc) ibc m; Some (pc, m) })"

text \<open>The loop over the program counter. A loop that does not end has the value \<open>None\<close>.\<close>

partial_function (option) bytecode_loop :: "fpu \<Rightarrow> rx_config \<Rightarrow> ProgramConfiguration \<Rightarrow> InstructionByteCode list \<Rightarrow> int \<times> machine \<Rightarrow> machine option" where
  "bytecode_loop F c cfg bytecode s =
     (if fst s < int (ProgramSize c)
      then if fst s < 0 then None
           else do {
             ibc \<leftarrow> get bytecode (nat (fst s));
             s \<leftarrow> executeInstruction F c cfg ibc s;
             bytecode_loop F c cfg bytecode (fst s + 1, snd s)
           }
      else Some (snd s))"

definition executeBytecode :: "fpu \<Rightarrow> rx_config \<Rightarrow> ProgramConfiguration \<Rightarrow> InstructionByteCode list \<Rightarrow> machine \<Rightarrow> machine option" where
  "executeBytecode F c cfg bytecode m = bytecode_loop F c cfg bytecode (0, m)"

end
