(* ===== verification/Rx_Bytecode_Run.thy ===== *)
theory Rx_Bytecode_Run
  imports Rx_Bytecode
begin

text \<open>
  What the bytecode compiler produces and how the bytecode runs: compilation of any program
  succeeds, every operand of the bytecode points into the register file and every masked address
  into the scratchpad, and the execution of compiled bytecode ends. A branch jumps back only over
  instructions that do not write its register, and the immediate it adds at every turn makes a
  third jump in a row impossible.
\<close>

subsection \<open>Invariants\<close>

definition machine_ok :: "rx_config \<Rightarrow> machine \<Rightarrow> bool" where
  "machine_ok c m \<longleftrightarrow> length (nr m) = 8 \<and> length (nf m) = 4 \<and> length (ne m) = 4 \<and> length (na m) = 4
     \<and> length (spad m) = unat (ScratchpadL3_Size c)"

definition idst_ok :: "InstructionByteCode \<Rightarrow> bool" where
  "idst_ok ibc = (case bdst ibc of IReg d \<Rightarrow> d < 8 | _ \<Rightarrow> False)"
definition fdst_ok :: "InstructionByteCode \<Rightarrow> bool" where
  "fdst_ok ibc = (case bdst ibc of IReg _ \<Rightarrow> False | FReg d \<Rightarrow> d < 4 | EReg d \<Rightarrow> d < 4)"
definition isrc_ok :: "InstructionByteCode \<Rightarrow> bool" where
  "isrc_ok ibc = (case bsrc ibc of SrcR k \<Rightarrow> k < 8 | SrcA _ \<Rightarrow> False | _ \<Rightarrow> True)"
definition ireg_ok :: "InstructionByteCode \<Rightarrow> bool" where
  "ireg_ok ibc = (case bsrc ibc of SrcR k \<Rightarrow> k < 8 | _ \<Rightarrow> False)"
definition fsrc_ok :: "InstructionByteCode \<Rightarrow> bool" where
  "fsrc_ok ibc = (case bsrc ibc of SrcA k \<Rightarrow> k < 4 | _ \<Rightarrow> False)"
definition mask_ok :: "rx_config \<Rightarrow> InstructionByteCode \<Rightarrow> bool" where
  "mask_ok c ibc \<longleftrightarrow> unat (memMask ibc) + 8 \<le> unat (ScratchpadL3_Size c)"

lemmas operand_defs = idst_ok_def fdst_ok_def isrc_ok_def ireg_ok_def fsrc_ok_def mask_ok_def

definition int_types :: "InstructionType list" where
  "int_types = [T_IADD_RS, T_ISUB_R, T_IMUL_R, T_IMULH_R, T_ISMULH_R, T_IXOR_R, T_IROR_R, T_IROL_R]"
definition int_mem_types :: "InstructionType list" where
  "int_mem_types = [T_IADD_M, T_ISUB_M, T_IMUL_M, T_IMULH_M, T_ISMULH_M, T_IXOR_M]"

lemmas type_groups = int_types_def int_mem_types_def

definition operands_ok :: "rx_config \<Rightarrow> InstructionByteCode \<Rightarrow> bool" where
  "operands_ok c ibc \<longleftrightarrow>
     (btype ibc \<in> set int_types \<and> idst_ok ibc \<and> isrc_ok ibc)
   \<or> (btype ibc \<in> set int_mem_types \<and> idst_ok ibc \<and> isrc_ok ibc \<and> mask_ok c ibc)
   \<or> (btype ibc \<in> {T_INEG_R, T_CBRANCH} \<and> idst_ok ibc)
   \<or> (btype ibc = T_ISWAP_R \<and> idst_ok ibc \<and> ireg_ok ibc)
   \<or> (btype ibc \<in> {T_FSWAP_R, T_FSCAL_R, T_FSQRT_R} \<and> fdst_ok ibc)
   \<or> (btype ibc \<in> {T_FADD_R, T_FSUB_R, T_FMUL_R} \<and> fdst_ok ibc \<and> fsrc_ok ibc)
   \<or> (btype ibc \<in> {T_FADD_M, T_FSUB_M, T_FDIV_M} \<and> fdst_ok ibc \<and> isrc_ok ibc \<and> mask_ok c ibc)
   \<or> (btype ibc = T_CFROUND \<and> isrc_ok ibc)
   \<or> (btype ibc = T_ISTORE \<and> idst_ok ibc \<and> isrc_ok ibc \<and> mask_ok c ibc)
   \<or> btype ibc = T_NOP"

text \<open>The integer registers an instruction writes.\<close>

definition writes :: "InstructionByteCode \<Rightarrow> nat \<Rightarrow> bool" where
  "writes ibc j \<longleftrightarrow>
     (btype ibc \<in> set int_types \<union> set int_mem_types \<union> {T_INEG_R, T_ISWAP_R, T_CBRANCH} \<and> bdst ibc = IReg j)
   \<or> (btype ibc = T_ISWAP_R \<and> bsrc ibc = SrcR j)"

text \<open>The condition of a branch: a window of eight bits of the register is tested; the immediate has
  the lowest bit of the window set and the bit below it clear.\<close>

definition branch_imm :: "InstructionByteCode \<Rightarrow> bool" where
  "branch_imm ibc \<longleftrightarrow> (\<exists>sh < 16. memMask ibc = push_bit sh ConditionMask
     \<and> bit (imm ibc) (8 + sh) \<and> \<not> bit (imm ibc) (7 + sh))"

definition compile_spec :: "rx_config \<Rightarrow> nat \<Rightarrow> int list \<Rightarrow> int list \<times> InstructionByteCode \<Rightarrow> bool" where
  "compile_spec c i usage = (\<lambda>(usage', ibc). operands_ok c ibc \<and> length usage' = 8
     \<and> (\<forall>j < 8. usage' ! j = (if btype ibc = T_CBRANCH \<or> writes ibc j then int i else usage ! j))
     \<and> (btype ibc = T_CBRANCH \<longrightarrow> branch_imm ibc \<and> (\<exists>d < 8. bdst ibc = IReg d \<and> target ibc = of_int (usage ! d))))"

subsection \<open>Compilation of one instruction\<close>

lemma reg_bounds [simp]: "reg8 x < 8" "reg4 x < 4"
  by (simp_all add: reg8_def reg4_def)

lemma getModMem_bound: "unat (getModMem i) < 4"
proof -
  have "getModMem i = take_bit 2 (ucast (imod i))"
    by (simp add: getModMem_def take_bit_eq_mask mask_eq_exp_minus_1)
  then have "unat (getModMem i) = take_bit 2 (unat (ucast (imod i) :: u32))"
    by (simp only: unsigned_take_bit_eq)
  then show ?thesis by (simp only: take_bit_eq_mod) simp
qed

lemma getModCond_bound: "unat (getModCond i) < 16"
proof -
  have "unat (imod i) < 256" using unsigned_less [of "imod i"] by simp
  moreover have "unat (getModCond i) = unat (ucast (imod i) :: u32) div 2 ^ 4"
    unfolding getModCond_def by (simp only: drop_bit_eq_div) (simp add: unat_div)
  ultimately show ?thesis by (simp add: unsigned_ucast_eq take_bit_eq_mod less_mult_imp_div_less)
qed

lemma address_mask_ok:
  assumes "config_ok c"
  shows "returns (address_mask c instr) (\<lambda>m. unat m + 8 \<le> unat (ScratchpadL3_Size c))"
  using assms getModMem_bound [of instr] by (auto simp: address_mask_def config_ok_def)

lemma L3Mask_ok: "config_ok c \<Longrightarrow> unat (ScratchpadL3Mask c) + 8 \<le> unat (ScratchpadL3_Size c)"
  by (simp add: config_ok_def)

lemma gen_mem_ok:
  assumes "config_ok c" "length usage = 8" "t \<in> set int_mem_types"
  shows "returns (gen_mem c t instr i usage ibc) (compile_spec c i usage)"
proof -
  obtain m where "address_mask c instr = Some m" "unat m + 8 \<le> unat (ScratchpadL3_Size c)"
    using address_mask_ok [OF assms(1), of instr] by (auto simp: returns_def)
  then show ?thesis using assms L3Mask_ok [OF assms(1)]
    by (auto simp: gen_mem_def compile_spec_def operands_ok_def writes_def operand_defs type_groups Let_def nth_list_update)
qed

lemma gen_alu_ok:
  assumes "length usage = 8" "t \<in> set int_types"
  shows "returns (gen_alu t ext instr i usage ibc) (compile_spec c i usage)"
  using assms
  by (auto simp: gen_alu_def compile_spec_def operands_ok_def writes_def operand_defs type_groups Let_def nth_list_update)

lemma gen_mulh_ok:
  assumes "length usage = 8" "t \<in> set int_types"
  shows "returns (gen_mulh t instr i usage ibc) (compile_spec c i usage)"
  using assms
  by (auto simp: gen_mulh_def compile_spec_def operands_ok_def writes_def operand_defs type_groups Let_def nth_list_update)

lemma gen_IADD_RS_ok: "length usage = 8 \<Longrightarrow> returns (gen_IADD_RS instr i usage ibc) (compile_spec c i usage)"
  by (auto simp: gen_IADD_RS_def compile_spec_def operands_ok_def writes_def operand_defs type_groups Let_def nth_list_update)

lemma gen_IMUL_RCP_ok: "length usage = 8 \<Longrightarrow> returns (gen_IMUL_RCP instr i usage ibc) (compile_spec c i usage)"
  by (auto simp: gen_IMUL_RCP_def compile_spec_def operands_ok_def writes_def operand_defs type_groups Let_def nth_list_update)

lemma gen_INEG_R_ok: "length usage = 8 \<Longrightarrow> returns (gen_INEG_R instr i usage ibc) (compile_spec c i usage)"
  by (auto simp: gen_INEG_R_def compile_spec_def operands_ok_def writes_def operand_defs type_groups Let_def nth_list_update)

lemma gen_ISWAP_R_ok: "length usage = 8 \<Longrightarrow> returns (gen_ISWAP_R instr i usage ibc) (compile_spec c i usage)"
  by (auto simp: gen_ISWAP_R_def compile_spec_def operands_ok_def writes_def operand_defs type_groups Let_def nth_list_update)

lemma gen_FSWAP_R_ok:
  assumes "length usage = 8"
  shows "returns (gen_FSWAP_R instr usage ibc) (compile_spec c i usage)"
proof -
  have "reg8 (dst instr) - 4 < 4" using reg_bounds(1) [of "dst instr"] by linarith
  then show ?thesis
    using assms by (auto simp: gen_FSWAP_R_def compile_spec_def operands_ok_def writes_def operand_defs type_groups Let_def)
qed

lemma gen_float_ok:
  assumes "length usage = 8" "R \<in> {FReg, EReg}"
  shows "t \<in> {T_FADD_R, T_FSUB_R, T_FMUL_R} \<Longrightarrow> returns (gen_freg t R instr usage ibc) (compile_spec c i usage)"
    and "t \<in> {T_FSCAL_R, T_FSQRT_R} \<Longrightarrow> returns (gen_fone t R instr usage ibc) (compile_spec c i usage)"
proof -
  show "t \<in> {T_FADD_R, T_FSUB_R, T_FMUL_R} \<Longrightarrow> returns (gen_freg t R instr usage ibc) (compile_spec c i usage)"
    using assms by (auto simp: gen_freg_def compile_spec_def operands_ok_def writes_def operand_defs type_groups)
next
  show "t \<in> {T_FSCAL_R, T_FSQRT_R} \<Longrightarrow> returns (gen_fone t R instr usage ibc) (compile_spec c i usage)"
    using assms by (elim insertE emptyE) (simp_all add: gen_fone_def compile_spec_def operands_ok_def writes_def fdst_ok_def type_groups)
qed

lemma gen_fmem_ok:
  assumes "config_ok c" "length usage = 8" "R \<in> {FReg, EReg}" "t \<in> {T_FADD_M, T_FSUB_M, T_FDIV_M}"
  shows "returns (gen_fmem c t R instr usage ibc) (compile_spec c i usage)"
proof -
  obtain m where "address_mask c instr = Some m" "unat m + 8 \<le> unat (ScratchpadL3_Size c)"
    using address_mask_ok [OF assms(1), of instr] by (auto simp: returns_def)
  then show ?thesis using assms(2-4)
    by (elim insertE emptyE) (simp_all add: gen_fmem_def compile_spec_def operands_ok_def writes_def fdst_ok_def isrc_ok_def mask_ok_def type_groups)
qed

lemma gen_ISTORE_ok:
  assumes "config_ok c" "length usage = 8"
  shows "returns (gen_ISTORE c instr usage ibc) (compile_spec c i usage)"
proof -
  obtain m where "address_mask c instr = Some m" "unat m + 8 \<le> unat (ScratchpadL3_Size c)"
    using address_mask_ok [OF assms(1), of instr] by (auto simp: returns_def)
  then show ?thesis using assms L3Mask_ok [OF assms(1)]
    by (auto simp: gen_ISTORE_def compile_spec_def operands_ok_def writes_def operand_defs type_groups)
qed

lemma gen_CFROUND_ok: "length usage = 8 \<Longrightarrow> returns (gen_CFROUND instr usage ibc) (compile_spec c i usage)"
  by (auto simp: gen_CFROUND_def compile_spec_def operands_ok_def writes_def operand_defs type_groups)

lemma put_all:
  assumes "length xs = n"
  shows "foldM (\<lambda>j xs. put xs j v) [0..<n] xs = Some (replicate n v)"
proof -
  have "returns (foldM (\<lambda>j xs. put xs j v) [0..<n] xs) (\<lambda>ys. length ys = n \<and> (\<forall>i < n. ys ! i = v))"
  proof (rule foldM_returns [where I = "\<lambda>k ys. length ys = n \<and> (\<forall>i < k. ys ! i = v)"])
    show "length xs = n \<and> (\<forall>i < 0. xs ! i = v)" using assms by simp
  next
    fix k ys assume k: "k < n" and ys: "length ys = n \<and> (\<forall>i < k. ys ! i = v)"
    then have "put ys k v = Some (ys[k := v])" by simp
    then show "returns (put ys k v) (\<lambda>ys. length ys = n \<and> (\<forall>i < Suc k. ys ! i = v))"
      using k ys by (auto simp: nth_list_update less_Suc_eq)
  qed
  then obtain ys where ys: "foldM (\<lambda>j xs. put xs j v) [0..<n] xs = Some ys" "length ys = n" "\<forall>i < n. ys ! i = v"
    by (auto simp: returns_def)
  have "ys = replicate n v" using ys(2,3) by (intro nth_equalityI) simp_all
  then show ?thesis using ys(1) by simp
qed

lemma gen_CBRANCH_ok:
  assumes "length usage = 8"
  shows "returns (gen_CBRANCH instr i usage ibc) (compile_spec c i usage)"
proof -
  define sh where "sh = unat (getModCond instr)"
  have sh: "sh < 16" using getModCond_bound by (simp add: sh_def)
  let ?v = "(signExtend2sCompl (imm32 instr) OR push_bit sh (push_bit JumpOffset 1))
    AND NOT (push_bit sh (push_bit (JumpOffset - 1) 1)) :: u64"
  have "bit ?v (8 + sh)" "\<not> bit ?v (7 + sh)"
    using sh by (auto simp: JumpOffset_def bit_simps)
  then show ?thesis
    using assms sh put_all [of usage 8 "int i"]
    by (auto simp: gen_CBRANCH_def compile_spec_def operands_ok_def branch_imm_def operand_defs Let_def sh_def [symmetric]
      intro!: exI [of _ sh])
qed

lemma compileInstruction_ok:
  assumes "config_ok c" "length usage = 8"
  shows "returns (compileInstruction c instr i usage ibc) (compile_spec c i usage)"
proof -
  have "unat (opcode instr) < 256" using unsigned_less [of "opcode instr"] by simp
  then obtain t where t: "decode_type c (opcode instr) = Some t"
    using cascade_total [of "unat (opcode instr)" "FREQ c" instruction_types] assms(1)
    by (auto simp: config_ok_def decode_type_def orders)
  have "returns (compile_type c t instr i usage ibc) (compile_spec c i usage)"
  proof (cases t)
    case T_NOP
    then show ?thesis using assms(2) by (auto simp: compile_spec_def operands_ok_def writes_def type_groups)
  qed (use assms in \<open>simp_all add: gen_IADD_RS_ok gen_mem_ok gen_alu_ok gen_mulh_ok gen_IMUL_RCP_ok gen_INEG_R_ok
    gen_ISWAP_R_ok gen_FSWAP_R_ok gen_float_ok gen_fmem_ok gen_ISTORE_ok gen_CFROUND_ok gen_CBRANCH_ok type_groups\<close>)
  then show ?thesis by (simp add: compileInstruction_def t)
qed

subsection \<open>Compilation of a program\<close>

text \<open>A branch jumps back to the instruction after the last one that wrote its register, or after the
  last branch; between there and the branch nothing writes the register and there is no branch.\<close>

definition quiet :: "InstructionByteCode list \<Rightarrow> nat \<Rightarrow> int \<Rightarrow> nat \<Rightarrow> bool" where
  "quiet bc d t p \<longleftrightarrow> (\<forall>q < p. t < int q \<longrightarrow> btype (bc ! q) \<noteq> T_CBRANCH \<and> \<not> writes (bc ! q) d)"

definition branch_ok :: "InstructionByteCode list \<Rightarrow> nat \<Rightarrow> bool" where
  "branch_ok bc p \<longleftrightarrow> (btype (bc ! p) = T_CBRANCH \<longrightarrow>
     branch_imm (bc ! p) \<and> (\<exists>d t. bdst (bc ! p) = IReg d \<and> d < 8 \<and> sint (target (bc ! p)) = t
       \<and> - 1 \<le> t \<and> t < int p \<and> quiet bc d t p))"

definition bytecode_ok :: "rx_config \<Rightarrow> nat \<Rightarrow> InstructionByteCode list \<Rightarrow> bool" where
  "bytecode_ok c n bc \<longleftrightarrow> (\<forall>p < n. operands_ok c (bc ! p) \<and> branch_ok bc p)"

definition usage_ok :: "InstructionByteCode list \<Rightarrow> nat \<Rightarrow> int list \<Rightarrow> bool" where
  "usage_ok bc n usage \<longleftrightarrow> length usage = 8 \<and> (\<forall>d < 8. - 1 \<le> usage ! d \<and> usage ! d < int n \<and> quiet bc d (usage ! d) n)"

lemma sint_target: "- 1 \<le> t \<Longrightarrow> t < 384 \<Longrightarrow> sint (of_int t :: 16 word) = t"
  by (simp add: signed_of_int signed_take_bit_int_eq_self)

lemma quiet_upd: "p \<le> i \<Longrightarrow> quiet (bc[i := x]) d t p = quiet bc d t p"
  by (auto simp: quiet_def)

lemma branch_ok_upd: "p < i \<Longrightarrow> branch_ok (bc[i := x]) p = branch_ok bc p"
  by (simp add: branch_ok_def quiet_upd)

lemma usage_ok_step:
  assumes "usage_ok bc i usage" "compile_spec c i usage (usage', ibc)" "i < length bc"
  shows "usage_ok (bc[i := ibc]) (Suc i) usage'"
proof -
  have "- 1 \<le> usage' ! d \<and> usage' ! d < int (Suc i) \<and> quiet (bc[i := ibc]) d (usage' ! d) (Suc i)" if d: "d < 8" for d
  proof (cases "btype ibc = T_CBRANCH \<or> writes ibc d")
    case True
    then have "usage' ! d = int i" using assms(2) d by (simp add: compile_spec_def)
    then show ?thesis by (auto simp: quiet_def)
  next
    case False
    then have "usage' ! d = usage ! d" using assms(2) d by (simp add: compile_spec_def)
    then show ?thesis using assms(1,3) d False by (auto simp: usage_ok_def quiet_def less_Suc_eq)
  qed
  then show ?thesis using assms(2) by (simp add: usage_ok_def compile_spec_def)
qed

lemma bytecode_ok_step:
  assumes "bytecode_ok c i bc" "usage_ok bc i usage" "compile_spec c i usage (usage', ibc)" "i < length bc" "i < 384"
  shows "bytecode_ok c (Suc i) (bc[i := ibc])"
proof -
  have "branch_ok (bc[i := ibc]) i"
  proof (cases "btype ibc = T_CBRANCH")
    case True
    then obtain d where d: "branch_imm ibc" "d < 8" "bdst ibc = IReg d" "target ibc = of_int (usage ! d)"
      using assms(3) by (auto simp: compile_spec_def)
    then have "- 1 \<le> usage ! d" "usage ! d < int i" "quiet bc d (usage ! d) i"
      using assms(2) by (auto simp: usage_ok_def)
    then show ?thesis using d assms(4,5) by (simp add: branch_ok_def quiet_upd sint_target)
  qed (use assms(4) in \<open>simp add: branch_ok_def\<close>)
  then show ?thesis
    using assms by (auto simp: bytecode_ok_def less_Suc_eq branch_ok_upd compile_spec_def)
qed

lemma compileProgram_ok:
  assumes "config_ok c" "ProgramSize c \<le> length program" "ProgramSize c \<le> length bc"
  shows "returns (compileProgram c program bc) (\<lambda>bc'. length bc' = length bc \<and> bytecode_ok c (ProgramSize c) bc')"
proof -
  let ?f = "\<lambda>i (usage, bytecode). do {
         instr \<leftarrow> get program i;
         ibc \<leftarrow> get bytecode i;
         (usage, ibc) \<leftarrow> compileInstruction c instr i usage ibc;
         bytecode \<leftarrow> put bytecode i ibc;
         Some (usage, bytecode)
       }"
  define I where "I = (\<lambda>i (usage, bc'). length bc' = length bc \<and> usage_ok bc' i usage \<and> bytecode_ok c i bc')"
  have "returns (foldM ?f [0..<ProgramSize c] (beginCompilation, bc)) (I (ProgramSize c))"
  proof (rule foldM_returns [where I = I])
    show "I 0 (beginCompilation, bc)"
      by (simp add: I_def usage_ok_def bytecode_ok_def beginCompilation_def quiet_def)
  next
    fix i and s :: "int list \<times> InstructionByteCode list"
    assume i: "i < ProgramSize c" and "I i s"
    then obtain usage bc' where s: "s = (usage, bc')" "length bc' = length bc" "usage_ok bc' i usage" "bytecode_ok c i bc'"
      by (cases s) (auto simp: I_def)
    have "returns (compileInstruction c (program ! i) i usage (bc' ! i)) (compile_spec c i usage)"
      using s(3) assms(1) by (intro compileInstruction_ok) (auto simp: usage_ok_def)
    then obtain usage' ibc where ibc: "compileInstruction c (program ! i) i usage (bc' ! i) = Some (usage', ibc)"
      "compile_spec c i usage (usage', ibc)" by (auto simp: returns_def)
    have len: "i < length program" "i < length bc'" "i < 384" using i assms s(2) by (auto simp: config_ok_def)
    then have "?f i s = Some (usage', bc'[i := ibc])" using ibc(1) by (simp add: s(1))
    moreover have "I (Suc i) (usage', bc'[i := ibc])"
      using usage_ok_step [OF s(3) ibc(2) len(2)] bytecode_ok_step [OF s(4,3) ibc(2) len(2,3)] s(2) by (simp add: I_def)
    ultimately show "returns (?f i s) (I (Suc i))" by simp
  qed
  then show ?thesis by (auto simp: compileProgram_def returns_def I_def)
qed

subsection \<open>Execution of one instruction\<close>

definition exec_spec :: "rx_config \<Rightarrow> InstructionByteCode \<Rightarrow> machine \<Rightarrow> machine \<Rightarrow> bool" where
  "exec_spec c ibc m m' \<longleftrightarrow> machine_ok c m' \<and> na m' = na m \<and> (\<forall>j < 8. \<not> writes ibc j \<longrightarrow> nr m' ! j = nr m ! j)"

lemma masked_bound:
  fixes x :: u64 and k :: u32
  shows "unat (x AND ucast k) \<le> unat k" "unat (ucast (x AND ucast k) :: u32) \<le> unat k"
proof -
  have "unat k < 2 ^ 32" using unsigned_less [of k] by simp
  then have u: "unat (ucast k :: u64) = unat k" by (simp add: unsigned_ucast_eq take_bit_eq_mod)
  have "x AND ucast k \<le> (ucast k :: u64)" by (rule word_and_le1)
  then show le: "unat (x AND ucast k) \<le> unat k" unfolding word_le_nat_alt u .
  have "unat (ucast (x AND ucast k) :: u32) \<le> unat (x AND ucast k)"
    by (simp add: unsigned_ucast_eq take_bit_eq_mod)
  then show "unat (ucast (x AND ucast k) :: u32) \<le> unat k" using le by linarith
qed

lemma get_isrc_ok: "machine_ok c m \<Longrightarrow> isrc_ok ibc \<Longrightarrow> \<exists>v. get_isrc ibc m = Some v"
  by (auto simp: machine_ok_def isrc_ok_def get_isrc_def split: src_ptr.splits)

lemma get_idst_ok: "machine_ok c m \<Longrightarrow> idst_ok ibc \<Longrightarrow> \<exists>d < 8. bdst ibc = IReg d \<and> get_idst ibc m = Some (nr m ! d)"
  by (auto simp: machine_ok_def idst_ok_def get_idst_def split: dst_ptr.splits)

lemma get_fdst_ok: "machine_ok c m \<Longrightarrow> fdst_ok ibc \<Longrightarrow> \<exists>x. get_fdst ibc m = Some x"
  by (auto simp: machine_ok_def fdst_ok_def get_fdst_def split: dst_ptr.splits)

lemma scratchpad_address_ok:
  assumes "machine_ok c m" "isrc_ok ibc" "mask_ok c ibc"
  shows "\<exists>off. getScratchpadAddress ibc m = Some off \<and> off + 8 \<le> length (spad m)"
proof -
  obtain x where "get_isrc ibc m = Some x" using get_isrc_ok assms(1,2) by blast
  moreover have "unat (ucast ((x + imm ibc) AND ucast (memMask ibc)) :: u32) \<le> unat (memMask ibc)" by (rule masked_bound)
  ultimately show ?thesis using assms(1,3) by (auto simp: getScratchpadAddress_def machine_ok_def mask_ok_def)
qed

lemma load_operand_ok:
  assumes "machine_ok c m" "isrc_ok ibc" "mask_ok c ibc"
  shows "\<exists>v. load_operand ibc m = Some v" "\<exists>x. load_foperand F ibc m = Some x"
proof -
  obtain off where "getScratchpadAddress ibc m = Some off" "off + 8 \<le> length (spad m)"
    using scratchpad_address_ok [OF assms] by blast
  then show "\<exists>v. load_operand ibc m = Some v" "\<exists>x. load_foperand F ibc m = Some x"
    by (simp_all add: load_operand_def load_foperand_def sp_load64_def rx_cvt_packed_int_vec_f128_def)
qed

lemma put_idst_ok:
  assumes "machine_ok c m" "idst_ok ibc" "\<And>d. bdst ibc = IReg d \<Longrightarrow> writes ibc d"
  shows "returns (put_idst ibc v m) (exec_spec c ibc m)"
  using assms by (auto simp: put_idst_def idst_ok_def machine_ok_def exec_spec_def nth_list_update split: dst_ptr.splits)

lemma put_fdst_ok:
  assumes "machine_ok c m" "fdst_ok ibc"
  shows "returns (put_fdst ibc v m) (exec_spec c ibc m)"
  using assms by (auto simp: put_fdst_def fdst_ok_def machine_ok_def exec_spec_def split: dst_ptr.splits)

lemma exe_int_ok:
  assumes "machine_ok c m" "idst_ok ibc" "isrc_ok ibc" "\<And>d. bdst ibc = IReg d \<Longrightarrow> writes ibc d"
  shows "returns (exe_int g ibc m) (exec_spec c ibc m)"
  using get_idst_ok [OF assms(1,2)] get_isrc_ok [OF assms(1,3)] put_idst_ok [OF assms(1,2,4)]
  by (auto simp: exe_int_def)

lemma exe_int_mem_ok:
  assumes "machine_ok c m" "idst_ok ibc" "isrc_ok ibc" "mask_ok c ibc" "\<And>d. bdst ibc = IReg d \<Longrightarrow> writes ibc d"
  shows "returns (exe_int_mem g ibc m) (exec_spec c ibc m)"
  using get_idst_ok [OF assms(1,2)] load_operand_ok(1) [OF assms(1,3,4)] put_idst_ok [OF assms(1,2,5)]
  by (auto simp: exe_int_mem_def)

lemma exe_INEG_R_ok:
  assumes "machine_ok c m" "idst_ok ibc" "\<And>d. bdst ibc = IReg d \<Longrightarrow> writes ibc d"
  shows "returns (exe_INEG_R ibc m) (exec_spec c ibc m)"
  using get_idst_ok [OF assms(1,2)] put_idst_ok [OF assms] by (auto simp: exe_INEG_R_def)

lemma exe_ISWAP_R_ok:
  assumes "machine_ok c m" "idst_ok ibc" "ireg_ok ibc" "btype ibc = T_ISWAP_R"
  shows "returns (exe_ISWAP_R ibc m) (exec_spec c ibc m)"
proof -
  obtain d k where "bdst ibc = IReg d" "d < 8" "bsrc ibc = SrcR k" "k < 8"
    using assms(2,3) by (auto simp: idst_ok_def ireg_ok_def split: dst_ptr.splits src_ptr.splits)
  then show ?thesis using assms(1,4)
    by (auto simp: exe_ISWAP_R_def get_isrc_def get_idst_def put_isrc_def put_idst_def machine_ok_def exec_spec_def writes_def nth_list_update)
qed

lemma exe_fp1_ok: "machine_ok c m \<Longrightarrow> fdst_ok ibc \<Longrightarrow> returns (exe_fp1 g ibc m) (exec_spec c ibc m)"
  using get_fdst_ok [of c m ibc] by (auto simp: exe_fp1_def intro: put_fdst_ok)

lemma exe_fp2_ok:
  assumes "machine_ok c m" "fdst_ok ibc" "fsrc_ok ibc"
  shows "returns (exe_fp2 g ibc m) (exec_spec c ibc m)"
proof -
  have "\<exists>y. get_fsrc ibc m = Some y"
    using assms(1,3) by (auto simp: get_fsrc_def fsrc_ok_def machine_ok_def split: src_ptr.splits)
  then show ?thesis using get_fdst_ok [OF assms(1,2)] by (auto simp: exe_fp2_def intro: put_fdst_ok [OF assms(1,2)])
qed

lemma exe_fp_mem_ok:
  assumes "machine_ok c m" "fdst_ok ibc" "isrc_ok ibc" "mask_ok c ibc"
  shows "returns (exe_fp_mem F h g ibc m) (exec_spec c ibc m)"
  using get_fdst_ok [OF assms(1,2)] load_operand_ok(2) [OF assms(1,3,4), of F]
  by (auto simp: exe_fp_mem_def intro: put_fdst_ok [OF assms(1,2)])

lemma exe_CFROUND_ok: "machine_ok c m \<Longrightarrow> isrc_ok ibc \<Longrightarrow> returns (exe_CFROUND c ibc m) (exec_spec c ibc m)"
  using get_isrc_ok [of c m ibc] by (auto simp: exe_CFROUND_def exec_spec_def machine_ok_def Let_def)

lemma length_store64 [len_simps, simp]: "length (store64 w) = 8"
  by (simp add: store_le_bytes le_bytes_def)

lemma exe_ISTORE_ok:
  assumes "machine_ok c m" "idst_ok ibc" "isrc_ok ibc" "mask_ok c ibc"
  shows "returns (exe_ISTORE ibc m) (exec_spec c ibc m)"
proof -
  obtain d b where "get_idst ibc m = Some (nr m ! d)" "get_isrc ibc m = Some b"
    using get_idst_ok [OF assms(1,2)] get_isrc_ok [OF assms(1,3)] by blast
  moreover have "unat ((nr m ! d + imm ibc) AND ucast (memMask ibc)) \<le> unat (memMask ibc)" by (rule masked_bound)
  then have "unat ((nr m ! d + imm ibc) AND ucast (memMask ibc)) + 8 \<le> length (spad m)"
    using assms(1,4) by (simp add: machine_ok_def mask_ok_def)
  ultimately show ?thesis using assms(1)
    by (simp add: exe_ISTORE_def sp_store64_def exec_spec_def machine_ok_def)
qed

lemma exe_straight_ok:
  assumes "machine_ok c m" "operands_ok c ibc" "btype ibc \<noteq> T_CBRANCH"
  shows "returns (exe_straight F c cfg (btype ibc) ibc m) (exec_spec c ibc m)"
proof -
  have w: "bdst ibc = IReg d \<Longrightarrow> writes ibc d"
    if "btype ibc \<in> set int_types \<union> set int_mem_types \<union> {T_INEG_R}" for d
    using that by (auto simp: writes_def)
  show ?thesis
  proof (cases "btype ibc")
    case T_NOP
    then show ?thesis using assms(1) by (simp add: exec_spec_def)
  qed (use assms w in \<open>simp_all add: operands_ok_def type_groups exe_int_ok exe_int_mem_ok exe_INEG_R_ok exe_ISWAP_R_ok
    exe_fp1_ok exe_fp2_ok exe_fp_mem_ok exe_CFROUND_ok exe_ISTORE_ok exe_FSCAL_R_def\<close>)
qed

subsection \<open>Execution ends\<close>

text \<open>The window of the branch condition, as arithmetic: with \<open>B = 2 ^ b\<close> the window of \<open>x\<close> is
  \<open>(x div B) mod 256\<close>, and it is zero for at most two values in a row when the immediate has bit \<open>b\<close>
  set and bit \<open>b - 1\<close> clear.\<close>

lemma window_twice:
  fixes X I B :: nat
  assumes "even B" "X < B" "(X + I) mod (256 * B) < B" "odd (I div B)" "I mod B < B div 2"
  shows "\<not> ((X + I) mod (256 * B) + I) mod (256 * B) < B"
proof -
  have B: "0 < B" using assms(2) by simp
  define h where "h = I div B mod 256"
  define l where "l = I mod B"
  have h: "odd h" "h < 256" using assms(4) by (simp_all add: h_def dvd_mod_iff)
  have step: "(Y + I) mod (256 * B) = (Y + l) mod B + B * (((Y + l) div B + h) mod 256)" for Y
  proof -
    define q where "q = I div B"
    have eq: "Y + I = (Y + l) + B * q" by (simp add: l_def q_def)
    have d: "((Y + l) + B * q) div B = (Y + l) div B + q" "((Y + l) + B * q) mod B = (Y + l) mod B" using B by simp_all
    have "(Y + I) mod (B * 256) = B * ((Y + I) div B mod 256) + (Y + I) mod B" by (rule mod_mult2_eq)
    then show ?thesis unfolding eq d by (simp add: h_def q_def mod_add_right_eq mult.commute)
  qed
  have lo: "\<not> (Y + I) mod (256 * B) < B" if "Y + l < B" for Y
  proof -
    have "(Y + I) mod (256 * B) = Y + l + B * h" using step [of Y] that h(2) by simp
    moreover have "h \<noteq> 0" using h(1) by (rule contrapos_pn) simp
    ultimately show ?thesis by (cases h) simp_all
  qed
  have ge: "\<not> X + l < B" using lo [of X] assms(3) by blast
  moreover have "X + l < B + B" using assms(2,5) by (simp add: l_def)
  ultimately have "(X + l) mod B = X + l - B" by (simp add: mod_if)
  moreover have "(X + I) mod (256 * B) = (X + l) mod B"
  proof (cases "((X + l) div B + h) mod 256")
    case 0
    then show ?thesis by (simp add: step)
  next
    case (Suc k)
    then show ?thesis using assms(3) step [of X] by simp
  qed
  ultimately have "(X + I) mod (256 * B) + l < B"
    using assms(1,2,5) ge by (simp add: l_def)
  then show ?thesis by (rule lo)
qed

lemma take_bit_window:
  fixes u :: nat
  assumes "k \<le> m"
  shows "take_bit m u = take_bit k u \<longleftrightarrow> (\<forall>n. k \<le> n \<and> n < m \<longrightarrow> \<not> bit u n)"
proof
  assume eq: "take_bit m u = take_bit k u"
  have "\<not> bit u n" if "k \<le> n" "n < m" for n
  proof -
    have "bit (take_bit m u) n \<longleftrightarrow> bit (take_bit k u) n" unfolding eq ..
    then show ?thesis unfolding bit_take_bit_iff using that by simp
  qed
  then show "\<forall>n. k \<le> n \<and> n < m \<longrightarrow> \<not> bit u n" by simp
next
  assume "\<forall>n. k \<le> n \<and> n < m \<longrightarrow> \<not> bit u n"
  then show "take_bit m u = take_bit k u" using assms by (intro bit_eqI) (auto simp: bit_take_bit_iff not_less)
qed

lemma condition_window:
  fixes x :: u64
  assumes "sh < 16"
  shows "x AND ucast (push_bit sh ConditionMask) = 0 \<longleftrightarrow> unat x mod (256 * 2 ^ (8 + sh)) < 2 ^ (8 + sh)"
proof -
  have bits: "bit (ucast (push_bit sh ConditionMask) :: u64) n \<longleftrightarrow> 8 + sh \<le> n \<and> n < 16 + sh" for n
  proof -
    have bc: "bit ConditionMask k \<longleftrightarrow> 8 \<le> k \<and> k < 16" for k
    proof -
      have cm: "ConditionMask = push_bit 8 (mask 8)"
        by (simp add: ConditionMask_def JumpOffset_def JumpBits_def mask_eq_exp_minus_1)
      show ?thesis unfolding cm bit_push_bit_iff bit_mask_iff by auto
    qed
    show ?thesis unfolding bit_unsigned_iff bit_push_bit_iff bc using assms by auto
  qed
  have len: "bit x n \<Longrightarrow> n < 64" for n using bit_imp_le_length [of x n] by simp
  have "x AND ucast (push_bit sh ConditionMask) = 0 \<longleftrightarrow> (\<forall>n. 8 + sh \<le> n \<and> n < 16 + sh \<longrightarrow> \<not> bit x n)"
    using bits by (auto simp: bit_eq_iff bit_and_iff dest: len)
  also have "\<dots> \<longleftrightarrow> take_bit (16 + sh) (unat x) = take_bit (8 + sh) (unat x)"
    using take_bit_window [of "8 + sh" "16 + sh" "unat x"] by (simp add: bit_unsigned_iff)
  also have "\<dots> \<longleftrightarrow> unat x mod (256 * 2 ^ (8 + sh)) < 2 ^ (8 + sh)"
  proof -
    have "take_bit (8 + sh) (unat x) = unat x mod (256 * 2 ^ (8 + sh)) mod 2 ^ (8 + sh)"
      by (simp add: take_bit_eq_mod mod_mod_cancel)
    moreover have "take_bit (16 + sh) (unat x) = unat x mod (256 * 2 ^ (8 + sh))"
      by (simp add: take_bit_eq_mod power_add)
    ultimately show ?thesis by (metis mod_less mod_less_divisor zero_less_numeral zero_less_power)
  qed
  finally show ?thesis .
qed

lemma branch_at_most_twice:
  fixes x v :: u64
  assumes "sh < 16" "bit v (8 + sh)" "\<not> bit v (7 + sh)"
    and "x AND ucast (push_bit sh ConditionMask) = 0" "(x + v) AND ucast (push_bit sh ConditionMask) = 0"
  shows "(x + v + v) AND ucast (push_bit sh ConditionMask) \<noteq> 0"
proof -
  let ?B = "2 ^ (8 + sh) :: nat"
  have dvd: "256 * ?B dvd 2 ^ 64"
  proof -
    have "256 * ?B = 2 ^ (16 + sh)" by (simp add: power_add)
    then show ?thesis using assms(1) by (simp only:) (rule le_imp_power_dvd, simp)
  qed
  have add: "unat (y + v) mod (256 * ?B) = (unat y mod (256 * ?B) + unat v) mod (256 * ?B)" for y
  proof -
    have "unat (y + v) = (unat y + unat v) mod 2 ^ 64" by (simp add: unat_word_ariths)
    then show ?thesis using dvd by (simp add: mod_mod_cancel mod_add_left_eq)
  qed
  have "odd (unat v div ?B)"
    using assms(2) by (simp add: bit_unsigned_iff bit_iff_odd [symmetric])
  moreover have "unat v mod ?B < ?B div 2"
  proof -
    have "take_bit (8 + sh) (unat v) = take_bit (7 + sh) (unat v)"
      using assms(3) by (intro bit_eqI) (auto simp: bit_take_bit_iff bit_unsigned_iff less_Suc_eq nat_less_le Suc_le_eq add_Suc)
    moreover have "?B div 2 = 2 ^ (7 + sh)" by (simp add: power_add)
    ultimately show ?thesis by (simp add: take_bit_eq_mod)
  qed
  ultimately show ?thesis
    using assms(4,5) window_twice [of ?B "unat x mod (256 * ?B)" "unat v"]
    unfolding condition_window [OF assms(1)] add by simp
qed

text \<open>The loop, one instruction at a time.\<close>

lemma loop_end: "int (ProgramSize c) \<le> pc \<Longrightarrow> bytecode_loop F c cfg bc (pc, m) = Some m"
  by (simp add: bytecode_loop.simps [of F c cfg bc "(pc, m)"])

lemma loop_straight:
  assumes "p < ProgramSize c" "p < length bc" "btype (bc ! p) \<noteq> T_CBRANCH"
    "exe_straight F c cfg (btype (bc ! p)) (bc ! p) m = Some m'"
  shows "bytecode_loop F c cfg bc (int p, m) = bytecode_loop F c cfg bc (int (Suc p), m')"
  using assms by (simp add: bytecode_loop.simps [of F c cfg bc "(int p, m)"] executeInstruction_def add.commute)

lemma loop_branch:
  assumes "p < ProgramSize c" "p < length bc" "btype (bc ! p) = T_CBRANCH" "bdst (bc ! p) = IReg d" "d < length (nr m)"
  shows "bytecode_loop F c cfg bc (int p, m) =
    (let v = nr m ! d + imm (bc ! p); m' = m\<lparr>nr := (nr m)[d := v]\<rparr>
     in if v AND ucast (memMask (bc ! p)) = 0 then bytecode_loop F c cfg bc (sint (target (bc ! p)) + 1, m')
        else bytecode_loop F c cfg bc (int (Suc p), m'))"
  using assms by (simp add: bytecode_loop.simps [of F c cfg bc "(int p, m)"] executeInstruction_def exe_CBRANCH_def
    get_idst_def put_idst_def Let_def add.commute)

text \<open>From the target of a branch the loop comes back to the branch with its register unchanged.\<close>

lemma loop_segment:
  assumes "bytecode_ok c (ProgramSize c) bc" "ProgramSize c \<le> length bc" "p \<le> ProgramSize c"
    "quiet bc d t p" "d < 8" "machine_ok c m" "t < int q" "q \<le> p"
  shows "\<exists>m'. bytecode_loop F c cfg bc (int q, m) = bytecode_loop F c cfg bc (int p, m') \<and> machine_ok c m'
    \<and> nr m' ! d = nr m ! d \<and> na m' = na m"
  using assms(6-8)
proof (induction "p - q" arbitrary: q m)
  case 0
  then show ?case by auto
next
  case (Suc n)
  then have q: "q < p" by simp
  then have ok: "operands_ok c (bc ! q)" "btype (bc ! q) \<noteq> T_CBRANCH" "\<not> writes (bc ! q) d"
    using assms(1,3,4) Suc.prems by (auto simp: bytecode_ok_def quiet_def)
  obtain m1 where m1: "exe_straight F c cfg (btype (bc ! q)) (bc ! q) m = Some m1" "exec_spec c (bc ! q) m m1"
    using exe_straight_ok [OF Suc.prems(1) ok(1,2), of F cfg] by (auto simp: returns_def)
  have "\<exists>m'. bytecode_loop F c cfg bc (int (Suc q), m1) = bytecode_loop F c cfg bc (int p, m') \<and> machine_ok c m'
    \<and> nr m' ! d = nr m1 ! d \<and> na m' = na m1"
    using Suc.hyps(1) [of "Suc q" m1] Suc.hyps(2) Suc.prems q m1(2) by (simp add: exec_spec_def)
  moreover have "bytecode_loop F c cfg bc (int q, m) = bytecode_loop F c cfg bc (int (Suc q), m1)"
    using assms(2,3) q ok(2) m1(1) by (intro loop_straight) auto
  ultimately show ?case using m1(2) ok(3) assms(5) by (auto simp: exec_spec_def)
qed

text \<open>One pass through a branch: either the loop goes on after it, or it is back at the branch, the
  condition held, and the register is the one the branch wrote.\<close>

lemma loop_pass:
  assumes "bytecode_ok c (ProgramSize c) bc" "ProgramSize c \<le> length bc" "p < ProgramSize c"
    "btype (bc ! p) = T_CBRANCH" "bdst (bc ! p) = IReg d" "machine_ok c m"
  shows "\<exists>m'. machine_ok c m' \<and> na m' = na m
    \<and> (bytecode_loop F c cfg bc (int p, m) = bytecode_loop F c cfg bc (int (Suc p), m')
     \<or> bytecode_loop F c cfg bc (int p, m) = bytecode_loop F c cfg bc (int p, m')
       \<and> nr m' ! d = nr m ! d + imm (bc ! p) \<and> nr m' ! d AND ucast (memMask (bc ! p)) = 0)"
proof -
  define v where "v = nr m ! d + imm (bc ! p)"
  define m1 where "m1 = m\<lparr>nr := (nr m)[d := v]\<rparr>"
  obtain t where d: "d < 8" and t: "sint (target (bc ! p)) = t" "- 1 \<le> t" "t < int p" "quiet bc d t p"
    using assms by (auto simp: bytecode_ok_def branch_ok_def)
  have m1: "machine_ok c m1" "nr m1 ! d = v" "na m1 = na m"
    using assms(6) d by (simp_all add: m1_def machine_ok_def)
  have loop: "bytecode_loop F c cfg bc (int p, m) =
    (if v AND ucast (memMask (bc ! p)) = 0 then bytecode_loop F c cfg bc (t + 1, m1)
     else bytecode_loop F c cfg bc (int (Suc p), m1))"
    using loop_branch [of p c bc d m F cfg] assms d t(1) by (simp add: machine_ok_def v_def m1_def Let_def)
  show ?thesis
  proof (cases "v AND ucast (memMask (bc ! p)) = 0")
    case True
    have q: "t + 1 = int (nat (t + 1))" "t < int (nat (t + 1))" "nat (t + 1) \<le> p" using t(2,3) by simp_all
    obtain m' where "bytecode_loop F c cfg bc (int (nat (t + 1)), m1) = bytecode_loop F c cfg bc (int p, m')"
      "machine_ok c m'" "nr m' ! d = nr m1 ! d" "na m' = na m1"
      using loop_segment [OF assms(1,2) less_imp_le [OF assms(3)] t(4) d m1(1), of "nat (t + 1)" F cfg] q(2,3) by blast
    then show ?thesis using True loop m1 q(1) by (auto simp: v_def)
  qed (use loop m1 in auto)
qed

lemma loop_leaves_branch:
  assumes "bytecode_ok c (ProgramSize c) bc" "ProgramSize c \<le> length bc" "p < ProgramSize c"
    "btype (bc ! p) = T_CBRANCH" "machine_ok c m"
  shows "\<exists>m'. bytecode_loop F c cfg bc (int p, m) = bytecode_loop F c cfg bc (int (Suc p), m') \<and> machine_ok c m' \<and> na m' = na m"
proof -
  obtain d sh where d: "bdst (bc ! p) = IReg d" and sh: "sh < 16" "memMask (bc ! p) = push_bit sh ConditionMask"
    "bit (imm (bc ! p)) (8 + sh)" "\<not> bit (imm (bc ! p)) (7 + sh)"
    using assms by (auto simp: bytecode_ok_def branch_ok_def branch_imm_def)
  note pass = loop_pass [OF assms(1-4) d, where F = F and cfg = cfg]
  note twice = branch_at_most_twice [OF sh(1,3,4)]
  show ?thesis
    using pass [OF assms(5)]
  proof (elim exE conjE disjE)
    fix m1 assume m1: "machine_ok c m1" "na m1 = na m" "bytecode_loop F c cfg bc (int p, m) = bytecode_loop F c cfg bc (int p, m1)"
      "nr m1 ! d AND ucast (memMask (bc ! p)) = 0"
    show ?thesis
      using pass [OF m1(1)]
    proof (elim exE conjE disjE)
      fix m2 assume m2: "machine_ok c m2" "na m2 = na m1" "bytecode_loop F c cfg bc (int p, m1) = bytecode_loop F c cfg bc (int p, m2)"
        "nr m2 ! d = nr m1 ! d + imm (bc ! p)" "nr m2 ! d AND ucast (memMask (bc ! p)) = 0"
      have "(nr m2 ! d + imm (bc ! p)) AND ucast (memMask (bc ! p)) \<noteq> 0"
        using twice [of "nr m1 ! d"] m1(4) m2(4,5) sh(2) by simp
      then show ?thesis using pass [OF m2(1)] m1(2,3) m2(2,3) by auto
    qed (use m1 in auto)
  qed auto
qed

lemma bytecode_loop_returns:
  assumes "bytecode_ok c (ProgramSize c) bc" "ProgramSize c \<le> length bc" "machine_ok c m" "p \<le> ProgramSize c"
  shows "returns (bytecode_loop F c cfg bc (int p, m)) (\<lambda>m'. machine_ok c m' \<and> na m' = na m)"
  using assms(3,4)
proof (induction "ProgramSize c - p" arbitrary: p m)
  case 0
  then show ?case by (simp add: loop_end)
next
  case (Suc n)
  then have p: "p < ProgramSize c" by simp
  obtain m' where m': "bytecode_loop F c cfg bc (int p, m) = bytecode_loop F c cfg bc (int (Suc p), m')" "machine_ok c m'" "na m' = na m"
  proof (cases "btype (bc ! p) = T_CBRANCH")
    case True
    show ?thesis using loop_leaves_branch [OF assms(1,2) p True Suc.prems(1), of F cfg] that by blast
  next
    case False
    have "operands_ok c (bc ! p)" using assms(1) p by (simp add: bytecode_ok_def)
    then obtain m1 where "exe_straight F c cfg (btype (bc ! p)) (bc ! p) m = Some m1" "exec_spec c (bc ! p) m m1"
      using exe_straight_ok [OF Suc.prems(1) _ False, of F cfg] by (auto simp: returns_def)
    then show ?thesis using that [of m1] loop_straight [OF p _ False, of F cfg m m1] assms(2) p by (simp add: exec_spec_def)
  qed
  then show ?case using Suc.hyps(1) [of "Suc p" m'] Suc.hyps(2) p by simp
qed

lemma executeBytecode_returns:
  assumes "bytecode_ok c (ProgramSize c) bc" "ProgramSize c \<le> length bc" "machine_ok c m"
  shows "returns (executeBytecode F c cfg bc m) (\<lambda>m'. machine_ok c m' \<and> na m' = na m)"
  using bytecode_loop_returns [OF assms, of 0 F cfg] by (simp add: executeBytecode_def)

text \<open>C11. Whatever program the generator produced, compiling it to bytecode succeeds and executing the
  bytecode ends, although its conditional branches jump back: for every configuration of the program,
  every register and scratchpad content and every floating-point unit, no access leaves the register
  file, the scratchpad or the bytecode, no \<^verbatim>\<open>UNREACHABLE\<close> branch is met, and the constant registers keep
  their value.\<close>

theorem compiled_bytecode_ends:
  assumes "c \<in> set configurations" "ProgramSize c \<le> length program" "ProgramSize c \<le> length bytecode"
    and "machine_ok (Apply c) m"
  shows "\<exists>bytecode' m'. compileProgram (Apply c) program bytecode = Some bytecode'
    \<and> executeBytecode F (Apply c) cfg bytecode' m = Some m' \<and> machine_ok (Apply c) m' \<and> na m' = na m"
proof -
  have size: "ProgramSize (Apply c) = ProgramSize c" by (simp add: Apply_def Let_def)
  obtain bytecode' where b: "compileProgram (Apply c) program bytecode = Some bytecode'" "length bytecode' = length bytecode"
    "bytecode_ok (Apply c) (ProgramSize (Apply c)) bytecode'"
    using compileProgram_ok [OF config_ok_configurations [OF assms(1)], of program bytecode] assms(2,3) size
    by (auto simp: returns_def)
  then show ?thesis using executeBytecode_returns [OF b(3) _ assms(4), of F cfg] assms(3) size by (auto simp: returns_def)
qed

theorem compiled_bytecode_ends_witness:
  "\<exists>bytecode' m'. compileProgram (Apply RandomX_ConfigurationMonero) (replicate 256 \<lparr>opcode = 220, dst = 3, src = 4, imod = 16, imm32 = 7\<rparr>)
      (replicate 384 \<lparr>bdst = IReg 0, bsrc = SrcZero, imm = 0, btype = T_NOP, target = 0, memMask = 0\<rparr>) = Some bytecode'
    \<and> executeBytecode \<lparr>fp_add = (\<lambda>_ x y. x), fp_sub = (\<lambda>_ x y. x), fp_mul = (\<lambda>_ x y. x), fp_div = (\<lambda>_ x y. x),
        fp_sqrt = (\<lambda>_ x. x), fp_cvt = (\<lambda>x. ucast x)\<rparr> (Apply RandomX_ConfigurationMonero)
        \<lparr>eMask = (0, 0), readReg0 = 0, readReg1 = 2, readReg2 = 4, readReg3 = 6\<rparr> bytecode'
        \<lparr>nr = replicate 8 0, nf = replicate 4 (0, 0), ne = replicate 4 (0, 0), na = replicate 4 (1, 1),
          spad = replicate 2097152 0, fprc = 0\<rparr> = Some m'
    \<and> machine_ok (Apply RandomX_ConfigurationMonero) m' \<and> na m' = replicate 4 (1, 1)"
proof -
  let ?c = "RandomX_ConfigurationMonero"
  let ?m = "\<lparr>nr = replicate 8 0, nf = replicate 4 (0, 0), ne = replicate 4 (0, 0), na = replicate 4 (1, 1),
    spad = replicate 2097152 0, fprc = 0\<rparr> :: machine"
  have "?c \<in> set configurations" by (simp add: configurations_def)
  moreover have "ProgramSize ?c = 256" by (simp add: configuration_defs)
  moreover have "machine_ok (Apply ?c) ?m" by (simp add: machine_ok_def Apply_def configuration_defs Let_def)
  ultimately have "\<exists>bytecode' m'. compileProgram (Apply ?c) program bytecode = Some bytecode'
      \<and> executeBytecode F (Apply ?c) cfg bytecode' ?m = Some m' \<and> machine_ok (Apply ?c) m' \<and> na m' = na ?m"
    if "256 \<le> length program" "256 \<le> length bytecode" for program bytecode F cfg
    using compiled_bytecode_ends that by metis
  then show ?thesis by simp
qed

end
