(* ===== verification/Rx_Blake2b.thy ===== *)
theory Rx_Blake2b
  imports Stream_Hash Rx_Prims
begin

text \<open>
  BLAKE2b as RandomX uses it: \<^verbatim>\<open>blake2/blake2b.c\<close> (state, parameter block, streaming update,
  finalisation, the one-shot call and Argon2's variable-length hash) and the SSE4.1 compression of
  \<^verbatim>\<open>blake2b_sse41.c\<close> and \<^verbatim>\<open>blake2b-round.h\<close>, which \<^verbatim>\<open>capi_support.cpp\<close> installs. The state pointer is
  valid in every call of the program; the data and output pointers may be null (\<open>None\<close>). A
  size is a natural number: an object of C never reaches \<open>2 ^ 64 - 128\<close> bytes.
\<close>

subsection \<open>Constants, parameter block and state\<close>

definition BLAKE2B_BLOCKBYTES :: nat where "BLAKE2B_BLOCKBYTES = 128"
definition BLAKE2B_OUTBYTES :: nat where "BLAKE2B_OUTBYTES = 64"
definition BLAKE2B_KEYBYTES :: nat where "BLAKE2B_KEYBYTES = 64"

lemmas blake2b_sizes [simp] = BLAKE2B_BLOCKBYTES_def BLAKE2B_OUTBYTES_def BLAKE2B_KEYBYTES_def

record blake2b_param =
  digest_length :: u8
  key_length :: u8
  fanout :: u8
  depth :: u8
  leaf_length :: u32
  node_offset :: u64
  node_depth :: u8
  inner_length :: u8
  reserved :: "u8 list"
  salt :: "u8 list"
  personal :: "u8 list"

text \<open>The packed structure as bytes.\<close>

definition param_bytes :: "blake2b_param \<Rightarrow> u8 list" where
  "param_bytes P = [digest_length P, key_length P, fanout P, depth P] @ le_bytes 4 (leaf_length P)
     @ le_bytes 8 (node_offset P) @ [node_depth P, inner_length P] @ reserved P @ salt P @ personal P"

record blake2b_state =
  bh :: "u64 list"
  t0 :: u64
  t1 :: u64
  f0 :: u64
  f1 :: u64
  buf :: "u8 list"
  buflen :: nat
  outlen :: nat
  last_node :: u8

definition blake2b_IV :: "u64 list" where
  "blake2b_IV = [7640891576956012808, 13503953896175478587, 4354685564936845355, 11912009170470909681,
     5840696475078001361, 11170449401992604703, 2270897969802886507, 6620516959819538809]"

definition blake2b_sigma :: "nat list list" where
  "blake2b_sigma = [
     [0, 1, 2, 3, 4, 5, 6, 7, 8, 9, 10, 11, 12, 13, 14, 15],
     [14, 10, 4, 8, 9, 15, 13, 6, 1, 12, 0, 2, 11, 7, 5, 3],
     [11, 8, 12, 0, 5, 2, 15, 13, 10, 14, 3, 6, 7, 1, 9, 4],
     [7, 9, 3, 1, 13, 12, 11, 14, 2, 6, 5, 10, 4, 0, 15, 8],
     [9, 0, 5, 7, 2, 4, 10, 15, 14, 1, 11, 12, 6, 8, 3, 13],
     [2, 12, 6, 10, 0, 11, 8, 3, 4, 13, 7, 5, 15, 14, 1, 9],
     [12, 5, 1, 15, 14, 13, 4, 10, 0, 7, 6, 3, 9, 2, 8, 11],
     [13, 11, 7, 14, 12, 1, 3, 9, 5, 0, 15, 4, 8, 6, 2, 10],
     [6, 15, 14, 9, 11, 3, 0, 8, 12, 2, 13, 7, 1, 4, 10, 5],
     [10, 2, 8, 4, 7, 6, 1, 5, 15, 11, 9, 14, 3, 12, 13, 0],
     [0, 1, 2, 3, 4, 5, 6, 7, 8, 9, 10, 11, 12, 13, 14, 15],
     [14, 10, 4, 8, 9, 15, 13, 6, 1, 12, 0, 2, 11, 7, 5, 3]]"

definition blake2b_set_lastnode :: "blake2b_state \<Rightarrow> blake2b_state" where
  "blake2b_set_lastnode S = S\<lparr>f1 := - 1\<rparr>"

definition blake2b_set_lastblock :: "blake2b_state \<Rightarrow> blake2b_state" where
  "blake2b_set_lastblock S = (let S = (if last_node S \<noteq> 0 then blake2b_set_lastnode S else S) in S\<lparr>f0 := - 1\<rparr>)"

definition blake2b_increment_counter :: "blake2b_state \<Rightarrow> u64 \<Rightarrow> blake2b_state" where
  "blake2b_increment_counter S inc =
     (let S = S\<lparr>t0 := t0 S + inc\<rparr> in S\<lparr>t1 := t1 S + (if t0 S < inc then 1 else 0)\<rparr>)"

definition blake2b_invalidate_state :: "blake2b_state \<Rightarrow> blake2b_state" where
  "blake2b_invalidate_state S = blake2b_set_lastblock S"

definition blake2b_init0 :: blake2b_state where
  "blake2b_init0 = \<lparr>bh = blake2b_IV, t0 = 0, t1 = 0, f0 = 0, f1 = 0, buf = replicate BLAKE2B_BLOCKBYTES 0,
     buflen = 0, outlen = 0, last_node = 0\<rparr>"

subsection \<open>Compression\<close>

definition blake2b_G :: "u64 list \<Rightarrow> nat \<Rightarrow> nat \<Rightarrow> nat \<Rightarrow> nat \<Rightarrow> nat \<Rightarrow> nat \<Rightarrow> u64 list \<Rightarrow> u64 list" where
  "blake2b_G m r i ja jb jc jd v =
     (let a = v ! ja; b = v ! jb; c = v ! jc; d = v ! jd;
          a = a + b + m ! (blake2b_sigma ! r ! (2 * i + 0));
          d = blake_rotr64 (d XOR a) 32;
          c = c + d;
          b = blake_rotr64 (b XOR c) 24;
          a = a + b + m ! (blake2b_sigma ! r ! (2 * i + 1));
          d = blake_rotr64 (d XOR a) 16;
          c = c + d;
          b = blake_rotr64 (b XOR c) 63
      in v[ja := a, jb := b, jc := c, jd := d])"

definition blake2b_ROUND :: "u64 list \<Rightarrow> nat \<Rightarrow> u64 list \<Rightarrow> u64 list" where
  "blake2b_ROUND m r v =
     (let v = blake2b_G m r 0 0 4 8 12 v;
          v = blake2b_G m r 1 1 5 9 13 v;
          v = blake2b_G m r 2 2 6 10 14 v;
          v = blake2b_G m r 3 3 7 11 15 v;
          v = blake2b_G m r 4 0 5 10 15 v;
          v = blake2b_G m r 5 1 6 11 12 v;
          v = blake2b_G m r 6 2 7 8 13 v
      in blake2b_G m r 7 3 4 9 14 v)"

definition rx_blake2b_compress_integer :: "blake2b_state \<Rightarrow> u8 list \<Rightarrow> blake2b_state" where
  "rx_blake2b_compress_integer S block =
     (let m = map (\<lambda>i. load64 (drop (8 * i) block)) [0..<16];
          v = map (\<lambda>i. bh S ! i) [0..<8] @
              [blake2b_IV ! 0, blake2b_IV ! 1, blake2b_IV ! 2, blake2b_IV ! 3,
               blake2b_IV ! 4 XOR t0 S, blake2b_IV ! 5 XOR t1 S, blake2b_IV ! 6 XOR f0 S, blake2b_IV ! 7 XOR f1 S];
          v = fold (blake2b_ROUND m) [0..<12] v
      in S\<lparr>bh := map (\<lambda>i. bh S ! i XOR v ! i XOR v ! (i + 8)) [0..<8]\<rparr>)"

subsection \<open>Initialisation\<close>

text \<open>An operation returns its \<^verbatim>\<open>int\<close> status and the state it leaves.\<close>

definition rx_blake2b_init_param :: "blake2b_param \<Rightarrow> int \<times> blake2b_state" where
  "rx_blake2b_init_param P =
     (let p = param_bytes P; S = blake2b_init0;
          S = S\<lparr>bh := map (\<lambda>i. bh S ! i XOR load64 (drop (8 * i) p)) [0..<8]\<rparr>
      in (0, S\<lparr>outlen := unat (digest_length P)\<rparr>))"

definition blake2b_setup :: "nat \<Rightarrow> nat \<Rightarrow> blake2b_param" where
  "blake2b_setup olen keylen = \<lparr>digest_length = of_nat olen, key_length = of_nat keylen, fanout = 1, depth = 1,
     leaf_length = 0, node_offset = 0, node_depth = 0, inner_length = 0,
     reserved = replicate 14 0, salt = replicate 16 0, personal = replicate 16 0\<rparr>"

definition rx_blake2b_init :: "blake2b_state \<Rightarrow> nat \<Rightarrow> int \<times> blake2b_state" where
  "rx_blake2b_init S olen =
     (if olen = 0 \<or> olen > BLAKE2B_OUTBYTES then (- 1, blake2b_invalidate_state S)
      else rx_blake2b_init_param (blake2b_setup olen 0))"

subsection \<open>Update\<close>

text \<open>The loop that compresses the input directly while more than a block is left; the last
  block, full or not, is always left to the buffer.\<close>

function blake2b_blocks :: "(blake2b_state \<Rightarrow> u8 list \<Rightarrow> blake2b_state) \<Rightarrow> blake2b_state \<Rightarrow> u8 list \<Rightarrow> blake2b_state \<times> u8 list" where
  "blake2b_blocks compress S pin =
     (if length pin > BLAKE2B_BLOCKBYTES then
        blake2b_blocks compress (compress (blake2b_increment_counter S (of_nat BLAKE2B_BLOCKBYTES)) (take BLAKE2B_BLOCKBYTES pin))
          (drop BLAKE2B_BLOCKBYTES pin)
      else (S, pin))"
  by pat_completeness auto

termination
  by (relation "measure (\<lambda>(_, _, pin). length pin)") auto

declare blake2b_blocks.simps [simp del]

text \<open>The compression is the function pointer \<^verbatim>\<open>rx_blake2b_compress\<close>.\<close>

definition rx_blake2b_update :: "(blake2b_state \<Rightarrow> u8 list \<Rightarrow> blake2b_state) \<Rightarrow> blake2b_state \<Rightarrow> u8 list option \<Rightarrow> nat \<Rightarrow> int \<times> blake2b_state" where
  "rx_blake2b_update compress S inp inlen =
     (if inlen = 0 then (0, S)
      else case inp of
        None \<Rightarrow> (- 1, S)
      | Some p \<Rightarrow>
          if f0 S \<noteq> 0 then (- 1, S)
          else
            let pin = take inlen p;
                (S, pin) =
                  (if buflen S + inlen > BLAKE2B_BLOCKBYTES then
                     let left = buflen S; fill = BLAKE2B_BLOCKBYTES - left;
                         S = S\<lparr>buf := blit (buf S) left (take fill pin)\<rparr>;
                         S = blake2b_increment_counter S (of_nat BLAKE2B_BLOCKBYTES);
                         S = compress S (buf S);
                         S = S\<lparr>buflen := 0\<rparr>
                     in blake2b_blocks compress S (drop fill pin)
                   else (S, pin));
                S = S\<lparr>buf := blit (buf S) (buflen S) pin\<rparr>
            in (0, S\<lparr>buflen := buflen S + length pin\<rparr>))"

definition rx_blake2b_init_key :: "(blake2b_state \<Rightarrow> u8 list \<Rightarrow> blake2b_state) \<Rightarrow> blake2b_state \<Rightarrow> nat \<Rightarrow> u8 list option \<Rightarrow> nat \<Rightarrow> int \<times> blake2b_state" where
  "rx_blake2b_init_key compress S olen key keylen =
     (if olen = 0 \<or> olen > BLAKE2B_OUTBYTES then (- 1, blake2b_invalidate_state S)
      else if key = None \<or> keylen = 0 \<or> keylen > BLAKE2B_KEYBYTES then (- 1, blake2b_invalidate_state S)
      else
        let (st, S) = rx_blake2b_init_param (blake2b_setup olen keylen)
        in if st < 0 then (- 1, blake2b_invalidate_state S)
           else
             let block = replicate BLAKE2B_BLOCKBYTES 0;
                 block = blit block 0 (take keylen (the key));
                 (st, S) = rx_blake2b_update compress S (Some block) BLAKE2B_BLOCKBYTES
             in (0, S))"

subsection \<open>Finalisation and one-shot hash\<close>

definition rx_blake2b_final :: "(blake2b_state \<Rightarrow> u8 list \<Rightarrow> blake2b_state) \<Rightarrow> blake2b_state \<Rightarrow> u8 list option \<Rightarrow> nat \<Rightarrow> int \<times> blake2b_state \<times> u8 list option" where
  "rx_blake2b_final compress S out olen =
     (if out = None \<or> olen < outlen S then (- 1, S, out)
      else if f0 S \<noteq> 0 then (- 1, S, out)
      else
        let S = blake2b_increment_counter S (of_nat (buflen S));
            S = blake2b_set_lastblock S;
            S = S\<lparr>buf := blit (buf S) (buflen S) (replicate (BLAKE2B_BLOCKBYTES - buflen S) 0)\<rparr>;
            S = compress S (buf S);
            buffer = concat (map (\<lambda>i. store64 (bh S ! i)) [0..<8])
        in (0, S, Some (blit (the out) 0 (take (outlen S) buffer))))"

definition rx_blake2b_default :: "(blake2b_state \<Rightarrow> u8 list \<Rightarrow> blake2b_state) \<Rightarrow> u8 list option \<Rightarrow> nat \<Rightarrow> u8 list option \<Rightarrow> nat \<Rightarrow> int \<times> u8 list option" where
  "rx_blake2b_default compress out olen inp inlen =
     (if inp = None \<and> inlen > 0 then (- 1, out)
      else if out = None \<or> olen = 0 \<or> olen > BLAKE2B_OUTBYTES then (- 1, out)
      else
        let (st, S) = rx_blake2b_init blake2b_init0 olen
        in if st < 0 then (- 1, out)
           else let (st, S) = rx_blake2b_update compress S inp inlen
             in if st < 0 then (- 1, out)
                else let (ret, S, out) = rx_blake2b_final compress S out olen in (ret, out))"

subsection \<open>Variable-length hash\<close>

text \<open>The loop of \<^verbatim>\<open>rxa2_blake2b_long\<close>: status, output, write offset, bytes left to produce and the
  last chaining block. A status below zero leaves the loop.\<close>

function long_loop :: "(blake2b_state \<Rightarrow> u8 list \<Rightarrow> blake2b_state) \<Rightarrow> u8 list \<Rightarrow> nat \<Rightarrow> nat \<Rightarrow> u8 list \<Rightarrow> int \<times> u8 list \<times> nat \<times> nat \<times> u8 list" where
  "long_loop compress out off toproduce out_buffer =
     (if toproduce > BLAKE2B_OUTBYTES then
        let in_buffer = out_buffer;
            (ret, ob) = rx_blake2b_default compress (Some out_buffer) BLAKE2B_OUTBYTES (Some in_buffer) BLAKE2B_OUTBYTES
        in if ret < 0 then (ret, out, off, toproduce, the ob)
           else long_loop compress (blit out off (take (BLAKE2B_OUTBYTES div 2) (the ob))) (off + BLAKE2B_OUTBYTES div 2)
                  (toproduce - BLAKE2B_OUTBYTES div 2) (the ob)
      else (0, out, off, toproduce, out_buffer))"
  by pat_completeness auto

termination
  by (relation "measure (\<lambda>(_, _, _, toproduce, _). toproduce)") auto

declare long_loop.simps [simp del]

text \<open>The three calls that hash the length prefix and the input into \<open>out\<close>.\<close>

definition long_first :: "(blake2b_state \<Rightarrow> u8 list \<Rightarrow> blake2b_state) \<Rightarrow> u8 list \<Rightarrow> nat \<Rightarrow> u8 list \<Rightarrow> u8 list option \<Rightarrow> nat \<Rightarrow> int \<times> u8 list" where
  "long_first compress out olen outlen_bytes inp inlen =
     (let (ret, S) = rx_blake2b_init blake2b_init0 olen in
      if ret < 0 then (ret, out) else
      let (ret, S) = rx_blake2b_update compress S (Some outlen_bytes) 4 in
      if ret < 0 then (ret, out) else
      let (ret, S) = rx_blake2b_update compress S inp inlen in
      if ret < 0 then (ret, out) else
      let (ret, S, out') = rx_blake2b_final compress S (Some out) olen in
      (ret, the out'))"

definition rxa2_blake2b_long :: "(blake2b_state \<Rightarrow> u8 list \<Rightarrow> blake2b_state) \<Rightarrow> u8 list \<Rightarrow> nat \<Rightarrow> u8 list option \<Rightarrow> nat \<Rightarrow> int \<times> u8 list" where
  "rxa2_blake2b_long compress out olen inp inlen =
     (if olen > 4294967295 then (- 1, out)
      else
        let outlen_bytes = store32 (of_nat olen)
        in if olen \<le> BLAKE2B_OUTBYTES then long_first compress out olen outlen_bytes inp inlen
           else
             let (ret, out_buffer) = long_first compress (replicate BLAKE2B_OUTBYTES 0) BLAKE2B_OUTBYTES outlen_bytes inp inlen
             in if ret < 0 then (ret, out)
                else
                  let out = blit out 0 (take (BLAKE2B_OUTBYTES div 2) out_buffer);
                      (ret, out, off, toproduce, out_buffer) =
                        long_loop compress out (BLAKE2B_OUTBYTES div 2) (olen - BLAKE2B_OUTBYTES div 2) out_buffer
                  in if ret < 0 then (ret, out)
                     else
                       let (ret, ob) = rx_blake2b_default compress (Some out_buffer) toproduce (Some out_buffer) BLAKE2B_OUTBYTES
                       in if ret < 0 then (ret, out)
                          else (ret, blit out off (take toproduce (the ob))))"

subsection \<open>SSE4.1 compression\<close>

text \<open>A register is its low and its high 64-bit lane; the byte instructions act on the 16 bytes
  in little-endian order, as the instruction set manual defines them.\<close>

type_synonym m128 = "u64 \<times> u64"

definition bytes128 :: "m128 \<Rightarrow> u8 list" where
  "bytes128 x = le_bytes 8 (fst x) @ le_bytes 8 (snd x)"

definition of_bytes128 :: "u8 list \<Rightarrow> m128" where
  "of_bytes128 bs = (le_word (take 8 bs), le_word (drop 8 bs))"

definition mm_xor_si128 :: "m128 \<Rightarrow> m128 \<Rightarrow> m128" where "mm_xor_si128 x y = (fst x XOR fst y, snd x XOR snd y)"
definition mm_add_epi64 :: "m128 \<Rightarrow> m128 \<Rightarrow> m128" where "mm_add_epi64 x y = (fst x + fst y, snd x + snd y)"
definition mm_srli_epi64 :: "m128 \<Rightarrow> nat \<Rightarrow> m128" where "mm_srli_epi64 x c = (drop_bit c (fst x), drop_bit c (snd x))"
definition mm_slli_epi64 :: "m128 \<Rightarrow> nat \<Rightarrow> m128" where "mm_slli_epi64 x c = (push_bit c (fst x), push_bit c (snd x))"
definition mm_set_epi64x :: "u64 \<Rightarrow> u64 \<Rightarrow> m128" where "mm_set_epi64x hi lo = (lo, hi)"

definition mm_shuffle_epi8 :: "m128 \<Rightarrow> nat list \<Rightarrow> m128" where
  "mm_shuffle_epi8 x sel = of_bytes128 (map (\<lambda>i. bytes128 x ! i) sel)"

definition mm_shuffle_epi32 :: "m128 \<Rightarrow> nat \<Rightarrow> m128" where
  "mm_shuffle_epi32 x imm = of_bytes128 (concat (map (\<lambda>j. chunk 4 (imm div 4 ^ j mod 4) (bytes128 x)) [0..<4]))"

definition mm_alignr_epi8 :: "m128 \<Rightarrow> m128 \<Rightarrow> nat \<Rightarrow> m128" where
  "mm_alignr_epi8 x y n = of_bytes128 (take 16 (drop n (bytes128 y @ bytes128 x)))"

definition MM_SHUFFLE :: "nat \<Rightarrow> nat \<Rightarrow> nat \<Rightarrow> nat \<Rightarrow> nat" where
  "MM_SHUFFLE z y x w = z * 64 + y * 16 + x * 4 + w"

definition r16 :: "nat list" where "r16 = [2, 3, 4, 5, 6, 7, 0, 1, 10, 11, 12, 13, 14, 15, 8, 9]"
definition r24 :: "nat list" where "r24 = [3, 4, 5, 6, 7, 0, 1, 2, 11, 12, 13, 14, 15, 8, 9, 10]"

definition mm_roti_epi64 :: "m128 \<Rightarrow> int \<Rightarrow> m128" where
  "mm_roti_epi64 x c =
     (if - c = 32 then mm_shuffle_epi32 x (MM_SHUFFLE 2 3 0 1)
      else if - c = 24 then mm_shuffle_epi8 x r24
      else if - c = 16 then mm_shuffle_epi8 x r16
      else if - c = 63 then mm_xor_si128 (mm_srli_epi64 x (nat (- c))) (mm_add_epi64 x x)
      else mm_xor_si128 (mm_srli_epi64 x (nat (- c))) (mm_slli_epi64 x (nat (64 - (- c)))))"

record rows =
  row1l :: m128
  row1h :: m128
  row2l :: m128
  row2h :: m128
  row3l :: m128
  row3h :: m128
  row4l :: m128
  row4h :: m128

definition sse_G1 :: "rows \<Rightarrow> m128 \<Rightarrow> m128 \<Rightarrow> rows" where
  "sse_G1 R b0 b1 =
     (let R = R\<lparr>row1l := mm_add_epi64 (mm_add_epi64 (row1l R) b0) (row2l R)\<rparr>;
          R = R\<lparr>row1h := mm_add_epi64 (mm_add_epi64 (row1h R) b1) (row2h R)\<rparr>;
          R = R\<lparr>row4l := mm_xor_si128 (row4l R) (row1l R)\<rparr>;
          R = R\<lparr>row4h := mm_xor_si128 (row4h R) (row1h R)\<rparr>;
          R = R\<lparr>row4l := mm_roti_epi64 (row4l R) (- 32)\<rparr>;
          R = R\<lparr>row4h := mm_roti_epi64 (row4h R) (- 32)\<rparr>;
          R = R\<lparr>row3l := mm_add_epi64 (row3l R) (row4l R)\<rparr>;
          R = R\<lparr>row3h := mm_add_epi64 (row3h R) (row4h R)\<rparr>;
          R = R\<lparr>row2l := mm_xor_si128 (row2l R) (row3l R)\<rparr>;
          R = R\<lparr>row2h := mm_xor_si128 (row2h R) (row3h R)\<rparr>;
          R = R\<lparr>row2l := mm_roti_epi64 (row2l R) (- 24)\<rparr>
      in R\<lparr>row2h := mm_roti_epi64 (row2h R) (- 24)\<rparr>)"

definition sse_G2 :: "rows \<Rightarrow> m128 \<Rightarrow> m128 \<Rightarrow> rows" where
  "sse_G2 R b0 b1 =
     (let R = R\<lparr>row1l := mm_add_epi64 (mm_add_epi64 (row1l R) b0) (row2l R)\<rparr>;
          R = R\<lparr>row1h := mm_add_epi64 (mm_add_epi64 (row1h R) b1) (row2h R)\<rparr>;
          R = R\<lparr>row4l := mm_xor_si128 (row4l R) (row1l R)\<rparr>;
          R = R\<lparr>row4h := mm_xor_si128 (row4h R) (row1h R)\<rparr>;
          R = R\<lparr>row4l := mm_roti_epi64 (row4l R) (- 16)\<rparr>;
          R = R\<lparr>row4h := mm_roti_epi64 (row4h R) (- 16)\<rparr>;
          R = R\<lparr>row3l := mm_add_epi64 (row3l R) (row4l R)\<rparr>;
          R = R\<lparr>row3h := mm_add_epi64 (row3h R) (row4h R)\<rparr>;
          R = R\<lparr>row2l := mm_xor_si128 (row2l R) (row3l R)\<rparr>;
          R = R\<lparr>row2h := mm_xor_si128 (row2h R) (row3h R)\<rparr>;
          R = R\<lparr>row2l := mm_roti_epi64 (row2l R) (- 63)\<rparr>
      in R\<lparr>row2h := mm_roti_epi64 (row2h R) (- 63)\<rparr>)"

definition sse_DIAGONALIZE :: "rows \<Rightarrow> rows" where
  "sse_DIAGONALIZE R =
     (let u0 = mm_alignr_epi8 (row2h R) (row2l R) 8; u1 = mm_alignr_epi8 (row2l R) (row2h R) 8;
          R = R\<lparr>row2l := u0, row2h := u1\<rparr>;
          u0 = row3l R; R = R\<lparr>row3l := row3h R\<rparr>; R = R\<lparr>row3h := u0\<rparr>;
          u0 = mm_alignr_epi8 (row4h R) (row4l R) 8; u1 = mm_alignr_epi8 (row4l R) (row4h R) 8
      in R\<lparr>row4l := u1, row4h := u0\<rparr>)"

definition sse_UNDIAGONALIZE :: "rows \<Rightarrow> rows" where
  "sse_UNDIAGONALIZE R =
     (let u0 = mm_alignr_epi8 (row2l R) (row2h R) 8; u1 = mm_alignr_epi8 (row2h R) (row2l R) 8;
          R = R\<lparr>row2l := u0, row2h := u1\<rparr>;
          u0 = row3l R; R = R\<lparr>row3l := row3h R\<rparr>; R = R\<lparr>row3h := u0\<rparr>;
          u0 = mm_alignr_epi8 (row4l R) (row4h R) 8; u1 = mm_alignr_epi8 (row4h R) (row4l R) 8
      in R\<lparr>row4l := u1, row4h := u0\<rparr>)"

definition blake2b_sigma_sse41 :: "nat list list" where
  "blake2b_sigma_sse41 = [
     [0, 2, 4, 6, 1, 3, 5, 7, 8, 10, 12, 14, 9, 11, 13, 15],
     [14, 4, 9, 13, 10, 8, 15, 6, 1, 0, 11, 5, 12, 2, 7, 3],
     [11, 12, 5, 15, 8, 0, 2, 13, 10, 3, 7, 9, 14, 6, 1, 4],
     [7, 3, 13, 11, 9, 1, 12, 14, 2, 5, 4, 15, 6, 10, 0, 8],
     [9, 5, 2, 10, 0, 7, 4, 15, 14, 11, 6, 3, 1, 12, 8, 13],
     [2, 6, 0, 8, 12, 10, 11, 3, 4, 7, 15, 1, 13, 5, 14, 9],
     [12, 1, 14, 4, 5, 15, 13, 10, 0, 6, 9, 8, 7, 3, 2, 11],
     [13, 7, 12, 3, 11, 14, 1, 9, 5, 15, 8, 2, 0, 4, 6, 10],
     [6, 14, 11, 0, 15, 9, 3, 8, 12, 13, 1, 10, 2, 7, 4, 5],
     [10, 8, 7, 1, 2, 4, 6, 5, 15, 9, 3, 13, 11, 14, 12, 0],
     [0, 2, 4, 6, 1, 3, 5, 7, 8, 10, 12, 14, 9, 11, 13, 15],
     [14, 4, 9, 13, 10, 8, 15, 6, 1, 0, 11, 5, 12, 2, 7, 3]]"

definition sse_LOAD_MSG :: "u64 list \<Rightarrow> nat \<Rightarrow> nat \<Rightarrow> m128 \<times> m128" where
  "sse_LOAD_MSG m r i =
     (mm_set_epi64x (m ! (blake2b_sigma_sse41 ! r ! (i * 4 + 1))) (m ! (blake2b_sigma_sse41 ! r ! (i * 4 + 0))),
      mm_set_epi64x (m ! (blake2b_sigma_sse41 ! r ! (i * 4 + 3))) (m ! (blake2b_sigma_sse41 ! r ! (i * 4 + 2))))"

definition sse_ROUND :: "u64 list \<Rightarrow> nat \<Rightarrow> rows \<Rightarrow> rows" where
  "sse_ROUND m r R =
     (let (b0, b1) = sse_LOAD_MSG m r 0; R = sse_G1 R b0 b1;
          (b0, b1) = sse_LOAD_MSG m r 1; R = sse_G2 R b0 b1;
          R = sse_DIAGONALIZE R;
          (b0, b1) = sse_LOAD_MSG m r 2; R = sse_G1 R b0 b1;
          (b0, b1) = sse_LOAD_MSG m r 3; R = sse_G2 R b0 b1
      in sse_UNDIAGONALIZE R)"

text \<open>\<^verbatim>\<open>LOADU\<close> of two neighbouring words, and the message words as the cast to \<^verbatim>\<open>uint64_t*\<close> reads them.\<close>

definition LOADU :: "u64 list \<Rightarrow> nat \<Rightarrow> m128" where
  "LOADU ws i = (ws ! i, ws ! (i + 1))"

definition STOREU :: "u64 list \<Rightarrow> nat \<Rightarrow> m128 \<Rightarrow> u64 list" where
  "STOREU ws i r = ws[i := fst r, i + 1 := snd r]"

definition rx_blake2b_compress_sse41 :: "blake2b_state \<Rightarrow> u8 list \<Rightarrow> blake2b_state" where
  "rx_blake2b_compress_sse41 S block =
     (let R = \<lparr>row1l = LOADU (bh S) 0, row1h = LOADU (bh S) 2, row2l = LOADU (bh S) 4, row2h = LOADU (bh S) 6,
               row3l = LOADU blake2b_IV 0, row3h = LOADU blake2b_IV 2,
               row4l = mm_xor_si128 (LOADU blake2b_IV 4) (t0 S, t1 S),
               row4h = mm_xor_si128 (LOADU blake2b_IV 6) (f0 S, f1 S)\<rparr>;
          m = map (\<lambda>i. load64_native (drop (8 * i) block)) [0..<16];
          R = fold (sse_ROUND m) [0..<12] R;
          R = R\<lparr>row1l := mm_xor_si128 (row3l R) (row1l R)\<rparr>;
          R = R\<lparr>row1h := mm_xor_si128 (row3h R) (row1h R)\<rparr>;
          S = S\<lparr>bh := STOREU (bh S) 0 (mm_xor_si128 (LOADU (bh S) 0) (row1l R))\<rparr>;
          S = S\<lparr>bh := STOREU (bh S) 2 (mm_xor_si128 (LOADU (bh S) 2) (row1h R))\<rparr>;
          R = R\<lparr>row2l := mm_xor_si128 (row4l R) (row2l R)\<rparr>;
          R = R\<lparr>row2h := mm_xor_si128 (row4h R) (row2h R)\<rparr>;
          S = S\<lparr>bh := STOREU (bh S) 4 (mm_xor_si128 (LOADU (bh S) 4) (row2l R))\<rparr>
      in S\<lparr>bh := STOREU (bh S) 6 (mm_xor_si128 (LOADU (bh S) 6) (row2h R))\<rparr>)"

subsection \<open>Reference: RFC 7693\<close>

definition rfc_G :: "nat \<Rightarrow> nat \<Rightarrow> nat \<Rightarrow> nat \<Rightarrow> u64 \<Rightarrow> u64 \<Rightarrow> u64 list \<Rightarrow> u64 list" where
  "rfc_G ja jb jc jd x y v =
     (let a = v ! ja + v ! jb + x; d = word_rotr 32 (v ! jd XOR a);
          c = v ! jc + d; b = word_rotr 24 (v ! jb XOR c);
          a = a + b + y; d = word_rotr 16 (d XOR a);
          c = c + d; b = word_rotr 63 (b XOR c)
      in v[ja := a, jb := b, jc := c, jd := d])"

text \<open>
  The initial value: the first 64 bits of the fractional parts of the square roots of the first
  eight primes. The permutations of the message words have no such rule in the RFC, which lists them.
\<close>

primrec sqrt_bits :: "nat \<Rightarrow> int \<Rightarrow> int \<Rightarrow> int" where
  "sqrt_bits 0 n r = r"
| "sqrt_bits (Suc k) n r = sqrt_bits k n (if (r + 2 ^ k) * (r + 2 ^ k) \<le> n then r + 2 ^ k else r)"

definition rfc_root :: "int \<Rightarrow> int" where
  "rfc_root p = sqrt_bits 67 (p * 2 ^ 128) 0"

definition rfc_IV :: "u64 list" where
  "rfc_IV = map word_of_int (map rfc_root [2, 3, 5, 7, 11, 13, 17, 19])"

definition rfc_round :: "u64 list \<Rightarrow> nat \<Rightarrow> u64 list \<Rightarrow> u64 list" where
  "rfc_round m r v =
     (let s = blake2b_sigma ! (r mod 10)
      in fold (\<lambda>(i, ja, jb, jc, jd). rfc_G ja jb jc jd (m ! (s ! (2 * i))) (m ! (s ! (2 * i + 1))))
           [(0, 0, 4, 8, 12), (1, 1, 5, 9, 13), (2, 2, 6, 10, 14), (3, 3, 7, 11, 15),
            (4, 0, 5, 10, 15), (5, 1, 6, 11, 12), (6, 2, 7, 8, 13), (7, 3, 4, 9, 14)] v)"

definition rfc_F :: "u64 list \<Rightarrow> u8 list \<Rightarrow> nat \<Rightarrow> bool \<Rightarrow> u64 list" where
  "rfc_F h block t final =
     (let m = map (\<lambda>i. le_word (chunk 8 i block)) [0..<16];
          v = h @ rfc_IV;
          v = v[12 := v ! 12 XOR of_nat t, 13 := v ! 13 XOR of_nat (t div 2 ^ 64)];
          v = (if final then v[14 := NOT (v ! 14)] else v);
          v = fold (rfc_round m) [0..<12] v
      in map (\<lambda>i. h ! i XOR v ! i XOR v ! (i + 8)) [0..<8])"

definition zero_pad :: "nat \<Rightarrow> u8 list \<Rightarrow> u8 list" where
  "zero_pad n xs = xs @ replicate (n - length xs) 0"

text \<open>The blocks of the data, the last one padded and flagged; \<open>t\<close> bytes were hashed before.\<close>

function rfc_blocks :: "u64 list \<Rightarrow> nat \<Rightarrow> u8 list \<Rightarrow> u64 list" where
  "rfc_blocks h t xs =
     (if length xs \<le> 128 then rfc_F h (zero_pad 128 xs) (t + length xs) True
      else rfc_blocks (rfc_F h (take 128 xs) (t + 128) False) (t + 128) (drop 128 xs))"
  by pat_completeness auto
termination
  by (relation "measure (\<lambda>(_, _, xs). length xs)") auto

declare rfc_blocks.simps [simp del]

definition rfc_blake2b :: "nat \<Rightarrow> u8 list \<Rightarrow> u8 list \<Rightarrow> u8 list" where
  "rfc_blake2b nn key xs =
     (let h = rfc_IV[0 := rfc_IV ! 0 XOR 0x01010000 XOR push_bit 8 (of_nat (length key)) XOR of_nat nn];
          xs = (if key = [] then xs else zero_pad 128 key @ xs)
      in take nn (concat (map (le_bytes 8) (rfc_blocks h 0 xs))))"

subsection \<open>The portable compression is the function F of the RFC\<close>

text \<open>The computed root is the integer part of the root.\<close>

lemma sqrt_bits_floor:
  assumes "0 \<le> r" "r * r \<le> n" "n < (r + 2 ^ k) * (r + 2 ^ k)"
  shows "let x = sqrt_bits k n r in 0 \<le> x \<and> x * x \<le> n \<and> n < (x + 1) * (x + 1)"
  using assms
proof (induction k arbitrary: r)
  case (Suc k)
  show ?case
  proof (cases "(r + 2 ^ k) * (r + 2 ^ k) \<le> n")
    case True
    then show ?thesis using Suc.IH [of "r + 2 ^ k"] Suc.prems by (simp add: add.assoc mult_2 [symmetric])
  next
    case False
    then show ?thesis using Suc.IH [of r] Suc.prems by simp
  qed
qed (simp add: Let_def)

lemma sqrt_primes:
  "map rfc_root [2, 3, 5, 7, 11, 13, 17, 19] =
    [26087635650665564424, 31950697969885030203, 41248173712355948587, 48805497317890012913,
     61180928696206656209, 66510681623121259551, 76057874264641092971, 80407493254657745273]"
  by code_simp

lemma rfc_IV_eq [simp]: "rfc_IV = blake2b_IV"
  unfolding rfc_IV_def sqrt_primes blake2b_IV_def by simp

lemma blake2b_G_rfc:
  "blake2b_G m r i ja jb jc jd v
     = rfc_G ja jb jc jd (m ! (blake2b_sigma ! r ! (2 * i))) (m ! (blake2b_sigma ! r ! (2 * i + 1))) v"
  by (simp add: blake2b_G_def rfc_G_def rx_rotations Let_def)

lemma blake2b_sigma_mod: "r < 12 \<Longrightarrow> blake2b_sigma ! (r mod 10) = blake2b_sigma ! r"
proof (cases "r < 10")
  case False
  moreover assume "r < 12"
  ultimately have "r = 10 \<or> r = 11" by auto
  then show ?thesis by (auto simp: blake2b_sigma_def)
qed simp

lemma blake2b_ROUND_rfc: "r < 12 \<Longrightarrow> blake2b_ROUND m r v = rfc_round m r v"
  unfolding blake2b_ROUND_def rfc_round_def blake2b_G_rfc Let_def by (simp add: blake2b_sigma_mod)

lemma load64_chunk: "8 * Suc i \<le> length b \<Longrightarrow> load64 (drop (8 * i) b) = le_word (chunk 8 i b)"
  by (simp add: load_le_word chunk_def)

lemma compress_integer_rfc:
  assumes "length (bh S) = 8" "length block = 128" "t0 S = of_nat t" "t1 S = of_nat (t div 2 ^ 64)"
    and "f0 S = (if final then - 1 else 0)" "f1 S = 0"
  shows "rx_blake2b_compress_integer S block = S\<lparr>bh := rfc_F (bh S) block t final\<rparr>"
proof -
  let ?m = "map (\<lambda>i. le_word (chunk 8 i block)) [0..<16] :: u64 list"
  have m: "map (\<lambda>i. load64 (drop (8 * i) block)) [0..<16] = ?m"
    using assms(2) by (intro map_cong refl load64_chunk) auto
  have h: "map (\<lambda>i. bh S ! i) [0..<8] = bh S" using assms(1) by (metis map_nth)
  have r: "fold (blake2b_ROUND ?m) [0..<12] v = fold (rfc_round ?m) [0..<12] v" for v
    by (intro fold_cong refl) (auto simp: fun_eq_iff blake2b_ROUND_rfc)
  have IV: "length blake2b_IV = 8" by (simp add: blake2b_IV_def)
  let ?w = "(bh S @ blake2b_IV)[12 := (bh S @ blake2b_IV) ! 12 XOR of_nat t,
      13 := (bh S @ blake2b_IV) ! 13 XOR of_nat (t div 2 ^ 64)]"
  have v: "bh S @ [blake2b_IV ! 0, blake2b_IV ! 1, blake2b_IV ! 2, blake2b_IV ! 3,
      blake2b_IV ! 4 XOR t0 S, blake2b_IV ! 5 XOR t1 S, blake2b_IV ! 6 XOR f0 S, blake2b_IV ! 7 XOR f1 S]
      = (if final then ?w[14 := NOT (?w ! 14)] else ?w)"
    using assms by (auto simp: nth_append list_update_append blake2b_IV_def)
  show ?thesis unfolding rx_blake2b_compress_integer_def rfc_F_def rfc_IV_eq Let_def m h r v ..
qed

subsection \<open>The SSE4.1 compression is the portable one\<close>

lemma rotate_bytes:
  fixes a :: u64
  shows "le_word (map (\<lambda>j. le_bytes 8 a ! ((j + n) mod 8)) [0..<8]) = word_rotr (8 * n) a"
proof (rule bit_word_eqI)
  fix k assume "k < LENGTH(64)"
  then have k: "k < 64" by simp
  have "(8 * n + k) mod (8 * 8) = 8 * ((8 * n + k) div 8 mod 8) + (8 * n + k) mod 8" by (simp only: mod_mult2_eq)
  then have "(8 * n + k) mod 64 = 8 * ((k div 8 + n) mod 8) + k mod 8" by (simp add: add.commute)
  then show "bit (le_word (map (\<lambda>j. le_bytes 8 a ! ((j + n) mod 8)) [0..<8]) :: u64) k \<longleftrightarrow> bit (word_rotr (8 * n) a) k"
    using k nth_upt [of 0 "k div 8" 8] by (simp add: bit_le_word bit_le_bytes bit_word_rotr_iff add.commute)
qed

lemma bytes128_nth: "i < 8 \<Longrightarrow> bytes128 x ! i = le_bytes 8 (fst x) ! i"
  "8 \<le> i \<Longrightarrow> bytes128 x ! i = le_bytes 8 (snd x) ! (i - 8)"
  by (simp_all add: bytes128_def nth_append)

lemma shuffle_rotate:
  assumes "sel = map (\<lambda>j. (j + n) mod 8) [0..<8] @ map (\<lambda>j. (j + n) mod 8 + 8) [0..<8]"
  shows "mm_shuffle_epi8 x sel = (word_rotr (8 * n) (fst x), word_rotr (8 * n) (snd x))"
  unfolding mm_shuffle_epi8_def of_bytes128_def assms
  by (simp add: bytes128_nth flip: rotate_bytes cong: map_cong)

lemma roti_rotr:
  "mm_roti_epi64 x (- 32) = (word_rotr 32 (fst x), word_rotr 32 (snd x))"
  "mm_roti_epi64 x (- 24) = (word_rotr 24 (fst x), word_rotr 24 (snd x))"
  "mm_roti_epi64 x (- 16) = (word_rotr 16 (fst x), word_rotr 16 (snd x))"
  "mm_roti_epi64 x (- 63) = (word_rotr 63 (fst x), word_rotr 63 (snd x))"
proof -
  have "r24 = map (\<lambda>j. (j + 3) mod 8) [0..<8] @ map (\<lambda>j. (j + 3) mod 8 + 8) [0..<8]" by code_simp
  from shuffle_rotate [OF this] show "mm_roti_epi64 x (- 24) = (word_rotr 24 (fst x), word_rotr 24 (snd x))"
    by (simp add: mm_roti_epi64_def)
  have "r16 = map (\<lambda>j. (j + 2) mod 8) [0..<8] @ map (\<lambda>j. (j + 2) mod 8 + 8) [0..<8]" by code_simp
  from shuffle_rotate [OF this] show "mm_roti_epi64 x (- 16) = (word_rotr 16 (fst x), word_rotr 16 (snd x))"
    by (simp add: mm_roti_epi64_def)
  have "mm_shuffle_epi32 x (MM_SHUFFLE 2 3 0 1)
      = mm_shuffle_epi8 x (map (\<lambda>j. (j + 4) mod 8) [0..<8] @ map (\<lambda>j. (j + 4) mod 8 + 8) [0..<8])"
  proof -
    obtain e0 e1 e2 e3 e4 e5 e6 e7 e8 e9 e10 e11 e12 e13 e14 e15
      where e: "bytes128 x = [e0, e1, e2, e3, e4, e5, e6, e7, e8, e9, e10, e11, e12, e13, e14, e15]"
    proof -
      have "length (bytes128 x) = 16" by (simp add: bytes128_def)
      then show ?thesis using that by (auto simp: numeral_eq_Suc length_Suc_conv)
    qed
    have sel: "map (\<lambda>j. (j + 4) mod 8) [0..<8] @ map (\<lambda>j. (j + 4) mod 8 + 8) [0..<8]
        = [4, 5, 6, 7, 0, 1, 2, 3, 12, 13, 14, 15, 8, 9, 10, 11 :: nat]" by code_simp
    have imm: "map (\<lambda>j. MM_SHUFFLE 2 3 0 1 div 4 ^ j mod 4) [0..<4] = [1, 0, 3, 2]" by code_simp
    have "map (\<lambda>j. chunk 4 (MM_SHUFFLE 2 3 0 1 div 4 ^ j mod 4) (bytes128 x)) [0..<4] = map (\<lambda>i. chunk 4 i (bytes128 x)) [1, 0, 3, 2]"
      unfolding imm [symmetric] by simp
    then show ?thesis unfolding mm_shuffle_epi32_def mm_shuffle_epi8_def sel by (simp add: e chunk_def)
  qed
  then show "mm_roti_epi64 x (- 32) = (word_rotr 32 (fst x), word_rotr 32 (snd x))"
    using shuffle_rotate [OF refl, of x 4] by (simp add: mm_roti_epi64_def)
  have "drop_bit 63 a XOR (a + a) = word_rotr 63 a" for a :: u64
  proof -
    have "drop_bit 63 a XOR (a + a) = drop_bit 63 a XOR push_bit 1 a" by (simp add: push_bit_eq_mult mult.commute)
    also have "\<dots> = drop_bit 63 a OR push_bit 1 a"
      by (rule bit_word_eqI, unfold bit_xor_iff bit_or_iff bit_drop_bit_eq bit_push_bit_iff) (auto dest: bit_imp_le_length)
    also have "\<dots> = word_rotr 63 a" using shift_or_rotr [of 63 a] by simp
    finally show ?thesis .
  qed
  then show "mm_roti_epi64 x (- 63) = (word_rotr 63 (fst x), word_rotr 63 (snd x))"
    by (simp add: mm_roti_epi64_def mm_xor_si128_def mm_srli_epi64_def mm_add_epi64_def)
qed

lemma alignr_8: "mm_alignr_epi8 x y 8 = (snd y, fst x)"
  by (simp add: mm_alignr_epi8_def of_bytes128_def bytes128_def)

text \<open>The four results of one mixing function, by name, so that rounds can be compared symbolically.\<close>

definition mix_a :: "u64 \<Rightarrow> u64 \<Rightarrow> u64 \<Rightarrow> u64 \<Rightarrow> u64 \<Rightarrow> u64 \<Rightarrow> u64" where
  "mix_a a b c d x y = rfc_G 0 1 2 3 x y [a, b, c, d] ! 0"
definition mix_b :: "u64 \<Rightarrow> u64 \<Rightarrow> u64 \<Rightarrow> u64 \<Rightarrow> u64 \<Rightarrow> u64 \<Rightarrow> u64" where
  "mix_b a b c d x y = rfc_G 0 1 2 3 x y [a, b, c, d] ! 1"
definition mix_c :: "u64 \<Rightarrow> u64 \<Rightarrow> u64 \<Rightarrow> u64 \<Rightarrow> u64 \<Rightarrow> u64 \<Rightarrow> u64" where
  "mix_c a b c d x y = rfc_G 0 1 2 3 x y [a, b, c, d] ! 2"
definition mix_d :: "u64 \<Rightarrow> u64 \<Rightarrow> u64 \<Rightarrow> u64 \<Rightarrow> u64 \<Rightarrow> u64 \<Rightarrow> u64" where
  "mix_d a b c d x y = rfc_G 0 1 2 3 x y [a, b, c, d] ! 3"

lemmas mix_defs = mix_a_def mix_b_def mix_c_def mix_d_def

lemma rfc_G_mix:
  "rfc_G ja jb jc jd x y v =
     v[ja := mix_a (v ! ja) (v ! jb) (v ! jc) (v ! jd) x y, jb := mix_b (v ! ja) (v ! jb) (v ! jc) (v ! jd) x y,
       jc := mix_c (v ! ja) (v ! jb) (v ! jc) (v ! jd) x y, jd := mix_d (v ! ja) (v ! jb) (v ! jc) (v ! jd) x y]"
  by (simp add: rfc_G_def mix_defs Let_def)

lemma sse_G_mix:
  "sse_G2 (sse_G1 \<lparr>row1l = (a0, a1), row1h = (a2, a3), row2l = (b0, b1), row2h = (b2, b3),
      row3l = (c0, c1), row3h = (c2, c3), row4l = (d0, d1), row4h = (d2, d3)\<rparr> (x0, x1) (x2, x3)) (y0, y1) (y2, y3) =
   \<lparr>row1l = (mix_a a0 b0 c0 d0 x0 y0, mix_a a1 b1 c1 d1 x1 y1), row1h = (mix_a a2 b2 c2 d2 x2 y2, mix_a a3 b3 c3 d3 x3 y3),
    row2l = (mix_b a0 b0 c0 d0 x0 y0, mix_b a1 b1 c1 d1 x1 y1), row2h = (mix_b a2 b2 c2 d2 x2 y2, mix_b a3 b3 c3 d3 x3 y3),
    row3l = (mix_c a0 b0 c0 d0 x0 y0, mix_c a1 b1 c1 d1 x1 y1), row3h = (mix_c a2 b2 c2 d2 x2 y2, mix_c a3 b3 c3 d3 x3 y3),
    row4l = (mix_d a0 b0 c0 d0 x0 y0, mix_d a1 b1 c1 d1 x1 y1), row4h = (mix_d a2 b2 c2 d2 x2 y2, mix_d a3 b3 c3 d3 x3 y3)\<rparr>"
  by (simp add: sse_G1_def sse_G2_def Let_def roti_rotr mm_add_epi64_def mm_xor_si128_def mix_defs rfc_G_def ac_simps)

definition rows_of :: "u64 list \<Rightarrow> rows" where
  "rows_of v = \<lparr>row1l = LOADU v 0, row1h = LOADU v 2, row2l = LOADU v 4, row2h = LOADU v 6,
     row3l = LOADU v 8, row3h = LOADU v 10, row4l = LOADU v 12, row4h = LOADU v 14\<rparr>"

text \<open>The permuted schedule groups the same words by lane.\<close>

lemma sigma_sse41:
  "list_all (\<lambda>r. list_all (\<lambda>i.
     blake2b_sigma_sse41 ! r ! (8 * (i div 4) + i mod 4) = blake2b_sigma ! r ! (2 * i) \<and>
     blake2b_sigma_sse41 ! r ! (8 * (i div 4) + i mod 4 + 4) = blake2b_sigma ! r ! (2 * i + 1)) [0..<8]) [0..<12]"
  by code_simp

lemma sigma_sse41_nth:
  assumes "r < 12" "i < 8"
  shows "blake2b_sigma_sse41 ! r ! (8 * (i div 4) + i mod 4) = blake2b_sigma ! r ! (2 * i)"
    "blake2b_sigma_sse41 ! r ! (8 * (i div 4) + i mod 4 + 4) = blake2b_sigma ! r ! (2 * i + 1)"
  using sigma_sse41 assms by (auto simp: list_all_iff)

lemma length_blake2b_ROUND [simp]: "length (blake2b_ROUND m r v) = length v"
proof -
  have "length (blake2b_G m r i ja jb jc jd v) = length v" for i ja jb jc jd v by (simp add: blake2b_G_def Let_def)
  then show ?thesis by (simp add: blake2b_ROUND_def)
qed

lemma sse_ROUND_rows:
  assumes "length v = 16" "r < 12"
  shows "sse_ROUND m r (rows_of v) = rows_of (blake2b_ROUND m r v)"
proof -
  obtain v0 v1 v2 v3 v4 v5 v6 v7 v8 v9 v10 v11 v12 v13 v14 v15
    where v: "v = [v0, v1, v2, v3, v4, v5, v6, v7, v8, v9, v10, v11, v12, v13, v14, v15]"
    using assms(1) by (auto simp: numeral_eq_Suc length_Suc_conv)
  note s = sigma_sse41_nth [OF assms(2), of 0, simplified] sigma_sse41_nth [OF assms(2), of 1, simplified]
    sigma_sse41_nth [OF assms(2), of 2, simplified] sigma_sse41_nth [OF assms(2), of 3, simplified]
    sigma_sse41_nth [OF assms(2), of 4, simplified] sigma_sse41_nth [OF assms(2), of 5, simplified]
    sigma_sse41_nth [OF assms(2), of 6, simplified] sigma_sse41_nth [OF assms(2), of 7, simplified]
  show ?thesis
    unfolding v sse_ROUND_def blake2b_ROUND_def Let_def
    by (simp add: blake2b_G_rfc rfc_G_mix rows_of_def LOADU_def sse_LOAD_MSG_def mm_set_epi64x_def sse_G_mix sse_DIAGONALIZE_def
        sse_UNDIAGONALIZE_def alignr_8 s)
qed

lemma sse_rounds:
  "length v = 16 \<Longrightarrow> n \<le> 12 \<Longrightarrow> fold (sse_ROUND m) [0..<n] (rows_of v) = rows_of (fold (blake2b_ROUND m) [0..<n] v)
     \<and> length (fold (blake2b_ROUND m) [0..<n] v) = 16"
  by (induction n) (simp_all add: sse_ROUND_rows)

lemma compress_sse41_eq:
  assumes "length (bh S) = 8" "length block = 128"
  shows "rx_blake2b_compress_sse41 S block = rx_blake2b_compress_integer S block"
proof -
  obtain h0 h1 h2 h3 h4 h5 h6 h7 where h: "bh S = [h0, h1, h2, h3, h4, h5, h6, h7]"
    using assms(1) by (auto simp: numeral_eq_Suc length_Suc_conv)
  let ?m = "map (\<lambda>i. load64 (drop (8 * i) block)) [0..<16]"
  let ?v = "bh S @ [blake2b_IV ! 0, blake2b_IV ! 1, blake2b_IV ! 2, blake2b_IV ! 3,
               blake2b_IV ! 4 XOR t0 S, blake2b_IV ! 5 XOR t1 S, blake2b_IV ! 6 XOR f0 S, blake2b_IV ! 7 XOR f1 S]"
  define w where "w = fold (blake2b_ROUND ?m) [0..<12] ?v"
  have m: "map (\<lambda>i. load64_native (drop (8 * i) block)) [0..<16] = ?m"
    using assms(2) by (intro map_cong refl) (simp add: load64_native_def load_le_word)
  have R: "\<lparr>row1l = LOADU (bh S) 0, row1h = LOADU (bh S) 2, row2l = LOADU (bh S) 4, row2h = LOADU (bh S) 6,
               row3l = LOADU blake2b_IV 0, row3h = LOADU blake2b_IV 2,
               row4l = mm_xor_si128 (LOADU blake2b_IV 4) (t0 S, t1 S),
               row4h = mm_xor_si128 (LOADU blake2b_IV 6) (f0 S, f1 S)\<rparr> = rows_of ?v"
    by (simp add: h rows_of_def LOADU_def mm_xor_si128_def)
  have w: "fold (sse_ROUND ?m) [0..<12] (rows_of ?v) = rows_of w"
    unfolding w_def using sse_rounds [of ?v 12 ?m] assms(1) by simp
  have hs: "map (\<lambda>i. bh S ! i) [0..<8] = bh S" using assms(1) by (metis map_nth)
  have "rx_blake2b_compress_integer S block = S\<lparr>bh := map (\<lambda>i. bh S ! i XOR w ! i XOR w ! (i + 8)) [0..<8]\<rparr>"
    unfolding rx_blake2b_compress_integer_def Let_def hs w_def by simp
  moreover have "rx_blake2b_compress_sse41 S block = S\<lparr>bh := map (\<lambda>i. bh S ! i XOR w ! i XOR w ! (i + 8)) [0..<8]\<rparr>"
    unfolding rx_blake2b_compress_sse41_def m R w Let_def
    by (simp add: h rows_of_def LOADU_def STOREU_def mm_xor_si128_def upt_bytes numeral_3_eq_3 ac_simps)
  ultimately show ?thesis by simp
qed

subsection \<open>Counter\<close>

definition counter :: "blake2b_state \<Rightarrow> nat" where
  "counter S = unat (t0 S) + 2 ^ 64 * unat (t1 S)"

lemma counter_words: "of_nat (counter S) = t0 S" "of_nat (counter S div 2 ^ 64) = t1 S"
proof -
  have "of_nat (counter S) = of_nat (unat (t0 S)) + (of_nat (2 ^ 64) * of_nat (unat (t1 S)) :: u64)"
    unfolding counter_def by (simp only: of_nat_add of_nat_mult)
  moreover have "of_nat (2 ^ 64) = (0 :: u64)" by simp
  ultimately show "of_nat (counter S) = t0 S" by (simp only: mult_zero_left) simp
  have "counter S div 2 ^ 64 = unat (t1 S)" using unat_u64_less [of "t0 S"] by (simp add: counter_def)
  then show "of_nat (counter S div 2 ^ 64) = t1 S" by simp
qed

text \<open>The two words are a 128-bit counter: the carry is detected by the wrapped sum.\<close>

lemma carry_add:
  fixes a b n :: u64
  shows "unat (a + n) + 2 ^ 64 * unat (b + (if a + n < n then 1 else 0)) = (unat a + 2 ^ 64 * unat b + unat n) mod 2 ^ 128"
proof -
  let ?s = "unat a + unat n"
  have lt: "unat a < 2 ^ 64" "unat b < 2 ^ 64" "unat n < 2 ^ 64" using unat_u64_less by auto
  have s: "unat (a + n) = (if ?s < 2 ^ 64 then ?s else ?s - 2 ^ 64)"
    using lt by (auto simp: unat_word_ariths mod_if)
  have c: "a + n < n \<longleftrightarrow> \<not> ?s < 2 ^ 64" unfolding word_less_nat_alt s using lt by auto
  have b: "unat (b + 1) = (if unat b + 1 = 2 ^ 64 then 0 else unat b + 1)"
    using lt by (auto simp: unat_word_ariths mod_if)
  show ?thesis
  proof (cases "?s < 2 ^ 64")
    case True
    have "unat a + 2 ^ 64 * unat b + unat n < 2 ^ 128" using True lt by simp
    then show ?thesis using True s c by simp
  next
    case False
    then have eq: "unat (a + n) + 2 ^ 64 = ?s" using s by simp
    show ?thesis
    proof (cases "unat b + 1 = 2 ^ 64")
      case True
      then have "unat a + 2 ^ 64 * unat b + unat n = 2 ^ 128 + unat (a + n)" using eq by simp
      then have "(unat a + 2 ^ 64 * unat b + unat n) mod 2 ^ 128 = unat (a + n)"
        using unat_u64_less [of "a + n"] by (simp only:) simp
      then show ?thesis using False c b True by (simp only:) simp
    next
      case b': False
      have "unat a + 2 ^ 64 * unat b + unat n = unat (a + n) + 2 ^ 64 * (unat b + 1)" using eq by simp
      moreover have "unat (a + n) + 2 ^ 64 * (unat b + 1) < 2 ^ 128" using b' lt unat_u64_less [of "a + n"] by simp
      ultimately show ?thesis using False c b b' by simp
    qed
  qed
qed

lemma counter_frame [simp]:
  "counter (S\<lparr>bh := h\<rparr>) = counter S" "counter (S\<lparr>buf := b\<rparr>) = counter S" "counter (S\<lparr>buflen := n\<rparr>) = counter S"
  "counter (S\<lparr>f0 := w\<rparr>) = counter S"
  by (simp_all add: counter_def)

lemma counter_increment: "counter (blake2b_increment_counter S n) = (counter S + unat n) mod 2 ^ 128"
  using carry_add [of "t0 S" n "t1 S"] by (simp add: counter_def blake2b_increment_counter_def Let_def)

lemma increment_frame [simp]:
  "bh (blake2b_increment_counter S n) = bh S" "f0 (blake2b_increment_counter S n) = f0 S"
  "f1 (blake2b_increment_counter S n) = f1 S" "buf (blake2b_increment_counter S n) = buf S"
  "buflen (blake2b_increment_counter S n) = buflen S" "outlen (blake2b_increment_counter S n) = outlen S"
  "last_node (blake2b_increment_counter S n) = last_node S"
  by (simp_all add: blake2b_increment_counter_def Let_def)

lemma rfc_F_mod: "rfc_F h b (t mod 2 ^ 128) final = rfc_F h b t final"
proof -
  have "of_nat (t mod 2 ^ 128) = (of_nat t :: u64)" 
    by (rule word_unat_eq_iff [THEN iffD2]) (simp add: unat_of_nat mod_mod_cancel)
  moreover have "of_nat (t mod 2 ^ 128 div 2 ^ 64) = (of_nat (t div 2 ^ 64) :: u64)"
  proof (rule word_unat_eq_iff [THEN iffD2])
    have "t mod (2 ^ 64 * 2 ^ 64) div 2 ^ 64 = t div 2 ^ 64 mod 2 ^ 64" by (simp only: mod_mult2_eq) simp
    then show "unat (of_nat (t mod 2 ^ 128 div 2 ^ 64) :: u64) = unat (of_nat (t div 2 ^ 64) :: u64)" by (simp add: unat_of_nat)
  qed
  ultimately show ?thesis by (simp add: rfc_F_def)
qed

lemma length_rfc_F [simp]: "length (rfc_F h b t final) = 8"
  by (simp add: rfc_F_def Let_def)

subsection \<open>Streaming\<close>

definition blake2b_wf :: "blake2b_state \<Rightarrow> bool" where
  "blake2b_wf S \<longleftrightarrow> length (bh S) = 8 \<and> length (buf S) = 128 \<and> buflen S \<le> 128 \<and> f0 S = 0 \<and> f1 S = 0 \<and> last_node S = 0"

definition blake2b_chain :: "blake2b_state \<Rightarrow> u64 list \<times> nat" where
  "blake2b_chain S = (bh S, counter S)"

definition blake2b_pending :: "blake2b_state \<Rightarrow> u8 list" where
  "blake2b_pending S = take (buflen S) (buf S)"

definition chain_step :: "u64 list \<times> nat \<Rightarrow> u8 list \<Rightarrow> u64 list \<times> nat" where
  "chain_step s b = (rfc_F (fst s) b (snd s + 128) False, (snd s + 128) mod 2 ^ 128)"

lemma compress_step:
  assumes "length (bh S) = 8" "f0 S = 0" "f1 S = 0" "length b = 128"
  defines "S' \<equiv> rx_blake2b_compress_integer (blake2b_increment_counter S 128) b"
  shows "blake2b_chain S' = chain_step (blake2b_chain S) b" "length (bh S') = 8" "f0 S' = 0" "f1 S' = 0"
    "buf S' = buf S" "buflen S' = buflen S" "outlen S' = outlen S" "last_node S' = last_node S"
proof -
  let ?I = "blake2b_increment_counter S 128"
  have S': "S' = ?I\<lparr>bh := rfc_F (bh ?I) b (counter ?I) False\<rparr>"
    unfolding S'_def using assms(1-4) counter_words [of ?I] by (intro compress_integer_rfc) simp_all
  show "blake2b_chain S' = chain_step (blake2b_chain S) b"
    unfolding blake2b_chain_def chain_step_def S'
    by (simp add: counter_increment rfc_F_mod [where t = "counter S + 128", simplified])
qed (auto simp: S'_def rx_blake2b_compress_integer_def Let_def assms)

locale full_block_compression =
  fixes compress :: "blake2b_state \<Rightarrow> u8 list \<Rightarrow> blake2b_state"
  assumes compress_full: "length (bh S) = 8 \<Longrightarrow> length b = 128 \<Longrightarrow> compress S b = rx_blake2b_compress_integer S b"
begin

lemma blocks_absorb:
  "length (bh S) = 8 \<Longrightarrow> f0 S = 0 \<Longrightarrow> f1 S = 0 \<Longrightarrow> blake2b_blocks compress S pin = (S', r) \<Longrightarrow>
     (blake2b_chain S', r) = absorb_lazy chain_step 128 (blake2b_chain S) pin \<and> length (bh S') = 8 \<and> f0 S' = 0 \<and> f1 S' = 0
     \<and> buf S' = buf S \<and> buflen S' = buflen S \<and> outlen S' = outlen S \<and> last_node S' = last_node S"
proof (induction "length pin" arbitrary: S pin rule: less_induct)
  case less
  show ?case
  proof (cases "length pin \<le> 128")
    case True
    then show ?thesis using less.prems by (simp add: blake2b_blocks.simps)
  next
    case False
    let ?b = "take 128 pin"
    let ?S = "rx_blake2b_compress_integer (blake2b_increment_counter S 128) ?b"
    have lb: "length ?b = 128" using False by simp
    have "compress (blake2b_increment_counter S 128) ?b = ?S" using less.prems lb by (intro compress_full) simp_all
    then have "blake2b_blocks compress ?S (drop 128 pin) = (S', r)"
      using less.prems(4) False by (subst (asm) blake2b_blocks.simps) simp
    note step = compress_step [OF less.prems(1-3) lb]
    have "absorb_lazy chain_step 128 (blake2b_chain S) pin = absorb_lazy chain_step 128 (blake2b_chain ?S) (drop 128 pin)"
      using False step(1) by (subst absorb_lazy.simps) simp
    then show ?thesis
      using less.hyps [OF _ step(2-4) \<open>blake2b_blocks compress ?S (drop 128 pin) = (S', r)\<close>] False step by simp
  qed
qed

text \<open>An update of a fresh or running state accepts any input.\<close>

lemma update_ok:
  assumes wf: "blake2b_wf S"
  shows "\<exists>S'. rx_blake2b_update compress S (Some xs) (length xs) = (0, S') \<and> blake2b_wf S' \<and> outlen S' = outlen S
    \<and> (blake2b_chain S', blake2b_pending S') = absorb_lazy chain_step 128 (blake2b_chain S) (blake2b_pending S @ xs)"
proof -
  have len: "length (blake2b_pending S) = buflen S" "length (bh S) = 8" "length (buf S) = 128" "buflen S \<le> 128" "f0 S = 0" "f1 S = 0" "last_node S = 0"
    using wf by (auto simp: blake2b_wf_def blake2b_pending_def)
  consider "xs = []" | "xs \<noteq> []" "buflen S + length xs \<le> 128" | "xs \<noteq> []" "buflen S + length xs > 128" by fastforce
  then show ?thesis
  proof cases
    case 1
    then show ?thesis using wf len by (simp add: rx_blake2b_update_def)
  next
    case 2
    let ?T = "S\<lparr>buf := blit (buf S) (buflen S) xs, buflen := buflen S + length xs\<rparr>"
    have "rx_blake2b_update compress S (Some xs) (length xs) = (0, ?T)"
      using 2 len by (simp add: rx_blake2b_update_def Let_def)
    moreover have "blake2b_wf ?T" using wf 2 len by (simp add: blake2b_wf_def)
    moreover have "blake2b_pending ?T = blake2b_pending S @ xs" using 2 len by (simp add: blake2b_pending_def take_blit)
    moreover have "blake2b_chain ?T = blake2b_chain S" by (simp add: blake2b_chain_def counter_def)
    ultimately show ?thesis using 2 len by simp
  next
    case 3
    let ?fill = "128 - buflen S"
    let ?b = "blake2b_pending S @ take ?fill xs"
    let ?S1 = "S\<lparr>buf := ?b\<rparr>"
    have b: "blit (buf S) (buflen S) (take ?fill xs) = ?b" "length ?b = 128"
      using 3 len by (simp_all add: blit_def blake2b_pending_def)
    let ?S2 = "rx_blake2b_compress_integer (blake2b_increment_counter ?S1 128) ?b"
    have c: "compress (blake2b_increment_counter ?S1 128) ?b = ?S2" using b len by (intro compress_full) simp_all
    note step = compress_step [of ?S1 ?b, simplified, OF len(2,5,6) b(2) [simplified]]
    let ?S3 = "?S2\<lparr>buflen := 0\<rparr>"
    obtain S' r where blocks: "blake2b_blocks compress ?S3 (drop ?fill xs) = (S', r)" by fastforce
    have abs: "(blake2b_chain S', r) = absorb_lazy chain_step 128 (blake2b_chain ?S3) (drop ?fill xs) \<and> length (bh S') = 8 \<and> f0 S' = 0 \<and> f1 S' = 0
     \<and> buf S' = ?b \<and> buflen S' = 0 \<and> outlen S' = outlen S \<and> last_node S' = 0"
      using blocks_absorb [OF _ _ _ blocks] step len by simp
    have r: "length r \<le> 128" using abs absorb_lazy_rest_le [of 128 chain_step "blake2b_chain ?S3" "drop ?fill xs"] by (metis snd_conv zero_less_numeral)
    let ?T = "S'\<lparr>buf := blit (buf S') 0 r, buflen := length r\<rparr>"
    have "rx_blake2b_update compress S (Some xs) (length xs) = (0, ?T)"
      using 3 len b c blocks abs by (simp add: rx_blake2b_update_def Let_def)
    moreover have "blake2b_wf ?T" using abs r b(2) by (simp add: blake2b_wf_def)
    moreover have "blake2b_pending ?T = r" using abs r b(2) take_blit [of 0 r "buf S'"] by (simp add: blake2b_pending_def)
    moreover have "blake2b_chain ?T = blake2b_chain S'" by (simp add: blake2b_chain_def)
    moreover have "blake2b_chain ?S3 = chain_step (blake2b_chain S) ?b" using step(1) by (simp add: blake2b_chain_def)
    then have "absorb_lazy chain_step 128 (blake2b_chain S) (?b @ drop ?fill xs) = absorb_lazy chain_step 128 (blake2b_chain ?S3) (drop ?fill xs)"
      using b(2) 3 len(1,4) by (subst absorb_lazy_block) auto
    ultimately show ?thesis using abs by simp
  qed
qed

end

sublocale full_block_compression \<subseteq> stream: lazy_stream
  "\<lambda>S xs. snd (rx_blake2b_update compress S (Some xs) (length xs))" blake2b_wf blake2b_chain blake2b_pending chain_step 128
proof unfold_locales
  fix c xs
  assume wf: "blake2b_wf c"
  show "length (blake2b_pending c) \<le> 128" using wf by (simp add: blake2b_wf_def blake2b_pending_def)
  from update_ok [OF wf, of xs]
  show "blake2b_wf (snd (rx_blake2b_update compress c (Some xs) (length xs)))"
    "(blake2b_chain (snd (rx_blake2b_update compress c (Some xs) (length xs))),
      blake2b_pending (snd (rx_blake2b_update compress c (Some xs) (length xs))))
     = absorb_lazy chain_step 128 (blake2b_chain c) (blake2b_pending c @ xs)" by auto
qed simp

subsection \<open>Initial state and reference blocks\<close>

definition rfc_init :: "nat \<Rightarrow> nat \<Rightarrow> u64 list" where
  "rfc_init nn kk = rfc_IV[0 := rfc_IV ! 0 XOR 0x01010000 XOR push_bit 8 (of_nat kk) XOR of_nat nn]"

lemma param_word:
  "ucast nn OR push_bit 8 (ucast kk) OR 65536 OR 16777216 = (0x01010000 XOR push_bit 8 (ucast kk) XOR ucast nn :: u64)"
  for nn kk :: u8
proof -
  define C where "C = (push_bit 16 1 OR push_bit 24 1 :: u64)"
  have c: "bit C n \<longleftrightarrow> n = 16 \<or> n = 24" for n
    unfolding C_def bit_or_iff bit_push_bit_iff bit_1_iff by auto
  have "ucast nn OR push_bit 8 (ucast kk) OR C = (C XOR push_bit 8 (ucast kk) XOR ucast nn :: u64)"
    by (rule bit_word_eqI) (auto simp: bit_simps c dest: bit_imp_le_length)
  then show ?thesis by (simp add: C_def)
qed

lemma init_param_words:
  assumes "nn \<le> 64" "kk \<le> 64"
  shows "map (\<lambda>i. blake2b_IV ! i XOR load64 (drop (8 * i) (param_bytes (blake2b_setup nn kk)))) [0..<8] = rfc_init nn kk"
proof -
  let ?p = "param_bytes (blake2b_setup nn kk)"
  have p: "?p = [of_nat nn, of_nat kk, 1, 1] @ replicate 60 0"
    by (simp add: param_bytes_def blake2b_setup_def le_bytes_def upt_bytes numeral_eq_Suc)
  have u: "ucast (of_nat n :: u8) = (of_nat n :: u64)" if "n \<le> 64" for n
    using that by (simp add: word_unat_eq_iff unsigned_ucast_eq take_bit_eq_mod unat_of_nat)
  have 0: "load64 ?p = 0x01010000 XOR push_bit 8 (of_nat kk) XOR of_nat nn"
    unfolding p load64_def using u [OF assms(1)] u [OF assms(2)] param_word [of "of_nat nn" "of_nat kk"]
    by (simp add: numeral_eq_Suc)
  have z: "load64 (drop (8 * i) ?p) = 0" if "0 < i" "i < 8" for i
  proof -
    have "4 \<le> 8 * i" "8 \<le> 64 - 8 * i" using that by auto
    then show ?thesis unfolding p drop_append by (simp add: load64_def)
  qed
  show ?thesis
  proof (rule nth_equalityI)
    fix i assume "i < length (map (\<lambda>i. blake2b_IV ! i XOR load64 (drop (8 * i) ?p)) [0..<8])"
    then have i: "i < 8" by simp
    show "map (\<lambda>i. blake2b_IV ! i XOR load64 (drop (8 * i) ?p)) [0..<8] ! i = rfc_init nn kk ! i"
    proof (cases "i = 0")
      case True
      then show ?thesis using 0 by (simp add: rfc_init_def blake2b_IV_def ac_simps)
    next
      case False
      then show ?thesis using z i by (simp add: rfc_init_def)
    qed
  qed (simp add: rfc_init_def blake2b_IV_def)
qed

lemma init_param_ok:
  assumes "nn \<le> 64" "kk \<le> 64" and "rx_blake2b_init_param (blake2b_setup nn kk) = (st, S)"
  shows "st = 0" "blake2b_wf S" "outlen S = nn" "blake2b_pending S = []" "blake2b_chain S = (rfc_init nn kk, 0)"
proof -
  have nn: "unat (of_nat nn :: u8) = nn" using assms(1) by (simp add: unat_of_nat)
  have S: "st = 0" "S = blake2b_init0\<lparr>bh := rfc_init nn kk, outlen := nn\<rparr>"
    using assms(3) init_param_words [OF assms(1,2)]
    by (auto simp: rx_blake2b_init_param_def Let_def blake2b_init0_def nn blake2b_setup_def)
  then show "st = 0" "blake2b_wf S" "outlen S = nn" "blake2b_pending S = []" "blake2b_chain S = (rfc_init nn kk, 0)"
    by (auto simp: blake2b_wf_def blake2b_pending_def blake2b_chain_def counter_def blake2b_init0_def rfc_init_def blake2b_IV_def)
qed

lemma init_ok:
  assumes "0 < nn" "nn \<le> 64"
  shows "\<exists>S'. rx_blake2b_init S nn = (0, S') \<and> blake2b_wf S' \<and> outlen S' = nn
    \<and> blake2b_pending S' = [] \<and> blake2b_chain S' = (rfc_init nn 0, 0)"
proof -
  obtain st S' where "rx_blake2b_init_param (blake2b_setup nn 0) = (st, S')" by fastforce
  with init_param_ok [OF assms(2) _ this] show ?thesis using assms by (simp add: rx_blake2b_init_def)
qed

text \<open>The lazy absorption followed by the flagged last block is the recursion of the RFC.\<close>

lemma rfc_blocks_absorb:
  "absorb_lazy chain_step 128 (h, t mod 2 ^ 128) xs = ((h', t'), r) \<Longrightarrow>
     rfc_F h' (zero_pad 128 r) (t' + length r) True = rfc_blocks h t xs"
proof (induction "length xs" arbitrary: h t xs rule: less_induct)
  case less
  show ?case
  proof (cases "length xs \<le> 128")
    case True
    have m: "rfc_F h b (t mod 2 ^ 128 + n) True = rfc_F h b (t + n) True" for b n
      using rfc_F_mod [of h b "t mod 2 ^ 128 + n" True] rfc_F_mod [of h b "t + n" True] by (simp add: mod_simps)
    have "h' = h" "t' = t mod 2 ^ 128" "r = xs" using True less.prems by simp_all
    then show ?thesis using True by (simp only: m rfc_blocks.simps [of h t xs] if_True)
  next
    case False
    have "chain_step (h, t mod 2 ^ 128) (take 128 xs) = (rfc_F h (take 128 xs) (t + 128) False, (t + 128) mod 2 ^ 128)"
      using rfc_F_mod [of h "take 128 xs" "t mod 2 ^ 128 + 128" False] rfc_F_mod [of h "take 128 xs" "t + 128" False]
      by (simp add: chain_step_def mod_simps)
    then have "absorb_lazy chain_step 128 (rfc_F h (take 128 xs) (t + 128) False, (t + 128) mod 2 ^ 128) (drop 128 xs) = ((h', t'), r)"
      using less.prems False by (subst (asm) absorb_lazy.simps) simp
    then show ?thesis using less.hyps [of "drop 128 xs"] False by (subst rfc_blocks.simps) simp
  qed
qed

context full_block_compression
begin

lemma final_ok:
  assumes wf: "blake2b_wf S" and "outlen S \<le> olen" "outlen S \<le> 64" "olen \<le> length out"
  shows "\<exists>S'. rx_blake2b_final compress S (Some out) olen
      = (0, S', Some (blit out 0 (take (outlen S) (concat (map (le_bytes 8)
            (rfc_F (bh S) (zero_pad 128 (blake2b_pending S)) (counter S + length (blake2b_pending S)) True))))))
    \<and> f0 S' \<noteq> 0"
proof -
  have len: "length (blake2b_pending S) = buflen S" "length (bh S) = 8" "length (buf S) = 128" "buflen S \<le> 128" "f0 S = 0" "f1 S = 0" "last_node S = 0"
    using wf by (auto simp: blake2b_wf_def blake2b_pending_def)
  let ?I = "(blake2b_increment_counter S (of_nat (buflen S)))\<lparr>f0 := - 1\<rparr>"
  let ?b = "zero_pad 128 (blake2b_pending S)"
  let ?J = "?I\<lparr>buf := ?b\<rparr>"
  let ?F = "rfc_F (bh S) ?b (counter S + buflen S) True"
  have b: "blit (buf S) (buflen S) (replicate (128 - buflen S) 0) = ?b" "length ?b = 128"
    using len by (simp_all add: blit_def blake2b_pending_def zero_pad_def)
  have "unat (of_nat (buflen S) :: u64) = buflen S" using len by (simp add: unat_of_nat)
  then have cnt: "counter ?J = (counter S + buflen S) mod 2 ^ 128"
    by (simp add: counter_increment)
  have "compress ?J ?b = rx_blake2b_compress_integer ?J ?b" using b len by (intro compress_full) simp_all
  also have "\<dots> = ?J\<lparr>bh := rfc_F (bh ?J) ?b (counter ?J) True\<rparr>"
    using len b counter_words [of ?J] by (intro compress_integer_rfc) simp_all
  also have "rfc_F (bh ?J) ?b (counter ?J) True = ?F" unfolding cnt rfc_F_mod by simp
  finally have c: "compress ?J ?b = ?J\<lparr>bh := ?F\<rparr>" .
  have out: "concat (map (\<lambda>i. store64 (?F ! i)) [0..<8]) = concat (map (le_bytes 8) ?F)"
    unfolding store_le_bytes using map_nth [of ?F] by (simp flip: map_map [unfolded comp_def])
  have "rx_blake2b_final compress S (Some out) olen = (0, ?J\<lparr>bh := ?F\<rparr>, Some (blit out 0 (take (outlen S) (concat (map (le_bytes 8) ?F)))))"
    using assms(2) len b c out by (simp add: rx_blake2b_final_def Let_def blake2b_set_lastblock_def)
  then show ?thesis using len by auto
qed

lemma finish:
  assumes "blake2b_wf S" "outlen S = nn" "nn \<le> 64" "nn \<le> length out" "blake2b_chain S = (h, t)" "t < 2 ^ 128"
    and T: "blake2b_wf T" "outlen T = nn"
      "(blake2b_chain T, blake2b_pending T) = absorb_lazy chain_step 128 (blake2b_chain S) (blake2b_pending S @ xs)"
  shows "\<exists>T'. rx_blake2b_final compress T (Some out) nn
      = (0, T', Some (blit out 0 (take nn (concat (map (le_bytes 8) (rfc_blocks h t (blake2b_pending S @ xs))))))) \<and> f0 T' \<noteq> 0"
proof -
  have "absorb_lazy chain_step 128 (h, t mod 2 ^ 128) (blake2b_pending S @ xs) = ((bh T, counter T), blake2b_pending T)"
    using T(3) assms(5,6) by (simp add: blake2b_chain_def)
  from rfc_blocks_absorb [OF this] final_ok [OF T(1), of nn out] assms show ?thesis by simp
qed

end

subsection \<open>Whole hashes\<close>

text \<open>A sequence of update calls, left at the first status below zero.\<close>

definition blake2b_feed :: "(blake2b_state \<Rightarrow> u8 list \<Rightarrow> blake2b_state) \<Rightarrow> u8 list list \<Rightarrow> blake2b_state \<Rightarrow> int \<times> blake2b_state" where
  "blake2b_feed compress ps S =
     fold (\<lambda>p (st, S). if st < 0 then (st, S) else rx_blake2b_update compress S (Some p) (length p)) ps (0, S)"

lemma length_rfc_blocks [simp]: "length (rfc_blocks h t xs) = 8"
  by (induction h t xs rule: rfc_blocks.induct) (subst rfc_blocks.simps, simp)

lemma length_rfc_blake2b [simp]: "nn \<le> 64 \<Longrightarrow> length (rfc_blake2b nn key xs) = nn"
  by (simp add: rfc_blake2b_def Let_def length_concat comp_def sum_list_triv)

context full_block_compression
begin

lemma feed_ok:
  assumes "blake2b_wf S"
  shows "\<exists>S'. blake2b_feed compress ps S = (0, S') \<and> blake2b_wf S' \<and> outlen S' = outlen S
    \<and> (blake2b_chain S', blake2b_pending S') = absorb_lazy chain_step 128 (blake2b_chain S) (blake2b_pending S @ concat ps)"
proof -
  let ?f = "\<lambda>ps. fold (\<lambda>p S. snd (rx_blake2b_update compress S (Some p) (length p))) ps S"
  have "blake2b_feed compress ps S = (0, ?f ps) \<and> outlen (?f ps) = outlen S"
  proof (induction ps rule: rev_induct)
    case (snoc p ps)
    have "blake2b_wf (?f ps)" using stream.update_pieces [OF assms] by blast
    from update_ok [OF this, of p] show ?case using snoc by (auto simp: blake2b_feed_def)
  qed (simp add: blake2b_feed_def)
  then show ?thesis using stream.update_pieces [OF assms, of ps] by auto
qed

lemma hash_from:
  assumes "blake2b_wf S" "outlen S = nn" "nn \<le> 64" "nn \<le> length out" "blake2b_chain S = (h, 0)"
  shows "\<exists>S2 S3. blake2b_feed compress ps S = (0, S2) \<and> rx_blake2b_final compress S2 (Some out) nn
    = (0, S3, Some (blit out 0 (take nn (concat (map (le_bytes 8) (rfc_blocks h 0 (blake2b_pending S @ concat ps))))))) \<and> f0 S3 \<noteq> 0"
proof -
  obtain S2 where S2: "blake2b_feed compress ps S = (0, S2)" "blake2b_wf S2" "outlen S2 = nn"
    "(blake2b_chain S2, blake2b_pending S2) = absorb_lazy chain_step 128 (blake2b_chain S) (blake2b_pending S @ concat ps)"
    using feed_ok [OF assms(1), of ps] assms(2) by auto
  from finish [OF assms(1-5) _ S2(2-4)] S2(1) show ?thesis by auto
qed

lemma hash_plain:
  assumes "0 < nn" "nn \<le> 64" "nn \<le> length out"
  shows "\<exists>S1 S2 S3. rx_blake2b_init S nn = (0, S1) \<and> blake2b_feed compress ps S1 = (0, S2)
    \<and> rx_blake2b_final compress S2 (Some out) nn = (0, S3, Some (blit out 0 (rfc_blake2b nn [] (concat ps)))) \<and> f0 S3 \<noteq> 0"
proof -
  obtain S1 where S1: "rx_blake2b_init S nn = (0, S1)" "blake2b_wf S1" "outlen S1 = nn" "blake2b_pending S1 = []"
    "blake2b_chain S1 = (rfc_init nn 0, 0)" using init_ok [OF assms(1,2)] by blast
  from hash_from [OF S1(2,3) assms(2,3) S1(5), of ps] S1(1,4) show ?thesis
    by (auto simp: rfc_blake2b_def rfc_init_def)
qed

lemma hash_keyed:
  assumes "0 < nn" "nn \<le> 64" "nn \<le> length out" "key \<noteq> []" "length key \<le> 64"
  shows "\<exists>S1 S2 S3. rx_blake2b_init_key compress S nn (Some key) (length key) = (0, S1) \<and> blake2b_feed compress ps S1 = (0, S2)
    \<and> rx_blake2b_final compress S2 (Some out) nn = (0, S3, Some (blit out 0 (rfc_blake2b nn key (concat ps)))) \<and> f0 S3 \<noteq> 0"
proof -
  obtain st S0 where p: "rx_blake2b_init_param (blake2b_setup nn (length key)) = (st, S0)" by fastforce
  note S0 = init_param_ok [OF assms(2,5) p]
  have pad: "blit (replicate 128 0) 0 key = zero_pad 128 key" using assms(5) by (simp add: blit_def zero_pad_def)
  have lp: "length (zero_pad 128 key) = 128" using assms(5) by (simp add: zero_pad_def)
  obtain S1 where S1: "rx_blake2b_update compress S0 (Some (zero_pad 128 key)) 128 = (0, S1)" "blake2b_wf S1" "outlen S1 = nn"
    "(blake2b_chain S1, blake2b_pending S1) = absorb_lazy chain_step 128 (rfc_init nn (length key), 0) (zero_pad 128 key)"
    using update_ok [OF S0(2), of "zero_pad 128 key"] S0 lp by auto
  then have "blake2b_chain S1 = (rfc_init nn (length key), 0)" "blake2b_pending S1 = zero_pad 128 key" using lp by simp_all
  moreover have "rx_blake2b_init_key compress S nn (Some key) (length key) = (0, S1)"
    using assms p S0(1) S1(1) pad by (simp add: rx_blake2b_init_key_def)
  ultimately show ?thesis using hash_from [OF S1(2,3) assms(2,3), of "rfc_init nn (length key)" ps] assms(4)
    by (auto simp: rfc_blake2b_def rfc_init_def)
qed

lemma default_ok:
  assumes "0 < nn" "nn \<le> 64" "nn \<le> length out"
  shows "rx_blake2b_default compress (Some out) nn (Some xs) (length xs) = (0, Some (blit out 0 (rfc_blake2b nn [] xs)))"
  using hash_plain [OF assms, of blake2b_init0 "[xs]"] assms(1,2) by (auto simp: rx_blake2b_default_def blake2b_feed_def)

end

text \<open>Both compressions meet the interface.\<close>

interpretation portable: full_block_compression rx_blake2b_compress_integer
  by unfold_locales simp

interpretation sse41: full_block_compression rx_blake2b_compress_sse41
  by unfold_locales (rule compress_sse41_eq)

subsection \<open>Argon2's variable-length hash\<close>

function long_tail :: "nat \<Rightarrow> u8 list \<Rightarrow> u8 list" where
  "long_tail n v =
     (if n > 64 then (let w = rfc_blake2b 64 [] v in take 32 w @ long_tail (n - 32) w) else rfc_blake2b n [] v)"
  by pat_completeness auto
termination
  by (relation "measure fst") auto

declare long_tail.simps [simp del]

definition long_hash :: "nat \<Rightarrow> u8 list \<Rightarrow> u8 list" where
  "long_hash n xs =
     (let p = le_bytes 4 (of_nat n :: u32)
      in if n \<le> 64 then rfc_blake2b n [] (p @ xs)
         else let v = rfc_blake2b 64 [] (p @ xs) in take 32 v @ long_tail (n - 32) v)"

lemma length_long_tail [simp]: "length (long_tail n v) = n"
proof (induction n v rule: long_tail.induct)
  case (1 n v)
  then show ?case by (subst long_tail.simps) (simp add: Let_def)
qed

lemma blit_full: "length out = length ys \<Longrightarrow> blit out 0 ys = ys"
  by (simp add: blit_def)

context full_block_compression
begin

lemma long_first_ok:
  assumes "0 < n" "n \<le> 64" "n \<le> length out" "length p = 4"
  shows "long_first compress out n p (Some xs) (length xs) = (0, blit out 0 (rfc_blake2b n [] (p @ xs)))"
proof -
  obtain S1 S2 S3 where S: "rx_blake2b_init blake2b_init0 n = (0, S1)" "blake2b_feed compress [p, xs] S1 = (0, S2)"
    "rx_blake2b_final compress S2 (Some out) n = (0, S3, Some (blit out 0 (rfc_blake2b n [] (concat [p, xs]))))"
    using hash_plain [OF assms(1-3), of blake2b_init0 "[p, xs]"] by blast
  obtain st T where T: "rx_blake2b_update compress S1 (Some p) 4 = (st, T)" by fastforce
  have "\<not> st < 0" "rx_blake2b_update compress T (Some xs) (length xs) = (0, S2)"
    using S(2) T assms(4) by (auto simp: blake2b_feed_def split: if_splits)
  then show ?thesis using S T by (simp add: long_first_def)
qed

lemma long_loop_ok:
  "0 < n \<Longrightarrow> length v = 64 \<Longrightarrow> off + n \<le> length out \<Longrightarrow>
     \<exists>ws m w. long_loop compress out off n v = (0, blit out off ws, off + length ws, m, w)
       \<and> 0 < m \<and> m \<le> 64 \<and> length w = 64 \<and> length ws + m = n \<and> long_tail n v = ws @ rfc_blake2b m [] w"
proof (induction n arbitrary: out off v rule: less_induct)
  case (less n)
  show ?case
  proof (cases "n > 64")
    case False
    then show ?thesis using less.prems by (intro exI [of _ "[]"]) (simp add: long_loop.simps long_tail.simps)
  next
    case True
    let ?w = "rfc_blake2b 64 [] v"
    let ?out = "blit out off (take 32 ?w)"
    have d: "rx_blake2b_default compress (Some v) 64 (Some v) 64 = (0, Some ?w)"
      using default_ok [of 64 v v] less.prems(2) by (simp add: blit_full)
    have step: "long_loop compress out off n v = long_loop compress ?out (off + 32) (n - 32) ?w"
      using True d by (subst long_loop.simps) simp
    have t: "long_tail n v = take 32 ?w @ long_tail (n - 32) ?w"
      using True by (subst long_tail.simps) (simp add: Let_def)
    obtain ws m w where ih: "long_loop compress ?out (off + 32) (n - 32) ?w = (0, blit ?out (off + 32) ws, off + 32 + length ws, m, w)"
      "0 < m" "m \<le> 64" "length w = 64" "length ws + m = n - 32" "long_tail (n - 32) ?w = ws @ rfc_blake2b m [] w"
      using less.IH [of "n - 32" ?w "off + 32" ?out] less.prems True by auto
    have "blit ?out (off + 32) ws = blit out off (take 32 ?w @ ws)"
      using blit_blit [of off "take 32 ?w" ws out] ih(5) True less.prems by simp
    then show ?thesis using step t ih True by (intro exI [of _ "take 32 ?w @ ws"] exI [of _ m] exI [of _ w]) simp
  qed
qed

lemma long_ok:
  assumes "0 < n" "n \<le> 4294967295" "n \<le> length out"
  shows "rxa2_blake2b_long compress out n (Some xs) (length xs) = (0, blit out 0 (long_hash n xs))"
proof (cases "n \<le> 64")
  case True
  then show ?thesis using assms long_first_ok [of n out "store32 (of_nat n)" xs]
    by (simp add: rxa2_blake2b_long_def long_hash_def store_le_bytes Let_def)
next
  case False
  let ?p = "le_bytes 4 (of_nat n :: u32)"
  let ?v = "rfc_blake2b 64 [] (?p @ xs)"
  let ?out = "blit out 0 (take 32 ?v)"
  have first: "long_first compress (replicate 64 0) 64 (store32 (of_nat n)) (Some xs) (length xs) = (0, ?v)"
    using long_first_ok [of 64 "replicate 64 0" "store32 (of_nat n)" xs] by (simp add: store_le_bytes blit_full)
  obtain ws m w where l: "long_loop compress ?out 32 (n - 32) ?v = (0, blit ?out 32 ws, 32 + length ws, m, w)"
    "0 < m" "m \<le> 64" "length w = 64" "length ws + m = n - 32" "long_tail (n - 32) ?v = ws @ rfc_blake2b m [] w"
    using long_loop_ok [of "n - 32" ?v 32 ?out] False assms by auto
  have d: "rx_blake2b_default compress (Some w) m (Some w) 64 = (0, Some (blit w 0 (rfc_blake2b m [] w)))"
    using default_ok [of m w w] l by simp
  have tk: "take m (blit w 0 (rfc_blake2b m [] w)) = rfc_blake2b m [] w"
    using take_blit [of 0 "rfc_blake2b m [] w" w] l by simp
  have "blit ?out 32 ws = blit out 0 (take 32 ?v @ ws)"
    using blit_blit [of 0 "take 32 ?v" ws out] l(5) False assms by simp
  then have "blit (blit ?out 32 ws) (32 + length ws) (rfc_blake2b m [] w) = blit out 0 ((take 32 ?v @ ws) @ rfc_blake2b m [] w)"
    using blit_blit [of 0 "take 32 ?v @ ws" "rfc_blake2b m [] w" out] l(3,5) False assms by simp
  then show ?thesis using False assms first l d tk
    by (simp add: rxa2_blake2b_long_def long_hash_def Let_def)
qed

end

subsection \<open>Properties\<close>

text \<open>C34. The SSE4.1 compression that the library installs (byte shuffles for rotations, lanes
  diagonalised by \<^verbatim>\<open>alignr\<close>, a permuted message schedule) is the portable compression, on every state
  with eight chaining words and every 128-byte block.\<close>

theorem rx_blake2b_compress_sse41_portable:
  assumes "length (bh S) = 8" "length block = 128"
  shows "rx_blake2b_compress_sse41 S block = rx_blake2b_compress_integer S block"
  using assms by (rule compress_sse41_eq)

theorem rx_blake2b_compress_sse41_portable_witness:
  "rx_blake2b_compress_sse41 blake2b_init0 (replicate 128 7) = rx_blake2b_compress_integer blake2b_init0 (replicate 128 7)"
  by (rule rx_blake2b_compress_sse41_portable) (simp_all add: blake2b_init0_def blake2b_IV_def)

text \<open>C14. The streaming interface computes BLAKE2b of RFC 7693: initialisation with or without a
  key succeeds for a digest of 1 to 64 bytes, every sequence of updates succeeds however the
  message is cut, and finalisation writes the digest of the whole message, with the portable
  and with the SSE4.1 compression; the state is then marked as used.\<close>

theorem rx_blake2b_streaming:
  assumes "0 < nn" "nn \<le> 64" "nn \<le> length out" "length key \<le> 64"
    and "c = rx_blake2b_compress_integer \<or> c = rx_blake2b_compress_sse41"
  shows "\<exists>S1 S2 S3.
     (if key = [] then rx_blake2b_init S nn else rx_blake2b_init_key c S nn (Some key) (length key)) = (0, S1)
     \<and> blake2b_feed c ps S1 = (0, S2)
     \<and> rx_blake2b_final c S2 (Some out) nn = (0, S3, Some (blit out 0 (rfc_blake2b nn key (concat ps))))
     \<and> f0 S3 \<noteq> 0"
proof (cases "key = []")
  case True
  then show ?thesis
    using portable.hash_plain [OF assms(1-3), of S ps] sse41.hash_plain [OF assms(1-3), of S ps] assms(5) by auto
next
  case False
  then show ?thesis
    using portable.hash_keyed [OF assms(1-3) _ assms(4), of S ps] sse41.hash_keyed [OF assms(1-3) _ assms(4), of S ps] assms(5) by auto
qed

theorem rx_blake2b_streaming_witness:
  "\<exists>S1 S2 S3.
     rx_blake2b_init_key rx_blake2b_compress_sse41 blake2b_init0 2 (Some [1, 2]) 2 = (0, S1)
     \<and> blake2b_feed rx_blake2b_compress_sse41 [[3], [], [4, 5]] S1 = (0, S2)
     \<and> rx_blake2b_final rx_blake2b_compress_sse41 S2 (Some [0, 0, 9]) 2
         = (0, S3, Some (blit [0, 0, 9] 0 (rfc_blake2b 2 [1, 2] [3, 4, 5]))) \<and> f0 S3 \<noteq> 0"
  using rx_blake2b_streaming [of 2 "[0, 0, 9]" "[1, 2]" rx_blake2b_compress_sse41 blake2b_init0 "[[3], [], [4, 5]]"]
  by (simp add: numeral_2_eq_2)

text \<open>C35. Argon2's variable-length hash returns for every requested length from 1 to \<open>2 ^ 32 - 1\<close>
  and writes exactly the bytes of its definition: the hash of the length and the input for at
  most 64 bytes, and a chain of 64-byte hashes, half of each being output, above.\<close>

theorem rxa2_blake2b_long_correct:
  assumes "0 < n" "n \<le> 4294967295" "n \<le> length out"
    and "c = rx_blake2b_compress_integer \<or> c = rx_blake2b_compress_sse41"
  shows "rxa2_blake2b_long c out n (Some xs) (length xs) = (0, blit out 0 (long_hash n xs)) \<and> length (long_hash n xs) = n"
proof -
  have "length (long_hash n xs) = n" by (simp add: long_hash_def Let_def)
  then show ?thesis using portable.long_ok [OF assms(1-3)] sse41.long_ok [OF assms(1-3)] assms(4) by auto
qed

theorem rxa2_blake2b_long_correct_witness:
  "rxa2_blake2b_long rx_blake2b_compress_sse41 (replicate 200 0) 150 (Some [1, 2, 3]) 3
     = (0, blit (replicate 200 0) 0 (long_hash 150 [1, 2, 3])) \<and> length (long_hash 150 [1, 2, 3]) = 150"
  using rxa2_blake2b_long_correct [of 150 "replicate 200 0" rx_blake2b_compress_sse41 "[1, 2, 3]"] by (simp add: numeral_3_eq_3)

lemma final_sets_f0:
  assumes "c = rx_blake2b_compress_integer \<or> c = rx_blake2b_compress_sse41"
    and "rx_blake2b_final c S out m = (0, S', out')"
  shows "f0 S' \<noteq> 0"
proof -
  have "f0 (c S b) = f0 S" for S b
    using assms(1) by (auto simp: rx_blake2b_compress_integer_def rx_blake2b_compress_sse41_def Let_def)
  then show ?thesis using assms(2)
    by (auto simp: rx_blake2b_final_def blake2b_set_lastblock_def Let_def split: if_splits)
qed

text \<open>C36. Misuse is refused: a digest length of 0 or above 64 makes the initialisation and the
  one-shot call return -1, the state such a call leaves refuses further input and finalisation
  without changing anything, and so does the state of a finished hash, whatever was hashed; a
  length of 0 or above 32 bits makes the variable-length hash return -1 with its output untouched.\<close>

theorem rx_blake2b_refuses:
  assumes "nn = 0 \<or> 64 < nn" "n = 0 \<or> 4294967295 < n"
    and "c = rx_blake2b_compress_integer \<or> c = rx_blake2b_compress_sse41"
    and "rx_blake2b_final c T out1 m1 = (0, T', out2)"
  shows "\<exists>S'. rx_blake2b_init S nn = (- 1, S')
     \<and> (\<forall>S'' \<in> {S', T'}. rx_blake2b_update c S'' (Some (x # xs)) (Suc (length xs)) = (- 1, S'')
         \<and> rx_blake2b_final c S'' out m = (- 1, S'', out))
     \<and> rx_blake2b_default c out nn inp inlen = (- 1, out)
     \<and> rxa2_blake2b_long c buffer n inp inlen = (- 1, buffer)"
proof -
  let ?S = "blake2b_invalidate_state S"
  have "f0 ?S \<noteq> 0" by (simp add: blake2b_invalidate_state_def blake2b_set_lastblock_def Let_def)
  moreover have "f0 T' \<noteq> 0" using final_sets_f0 [OF assms(3,4)] .
  ultimately have "rx_blake2b_update c S'' (Some (x # xs)) (Suc (length xs)) = (- 1, S'')
      \<and> rx_blake2b_final c S'' out m = (- 1, S'', out)" if "S'' \<in> {?S, T'}" for S''
    using that by (auto simp: rx_blake2b_update_def rx_blake2b_final_def)
  moreover have "rx_blake2b_init S nn = (- 1, ?S)" using assms(1) by (auto simp: rx_blake2b_init_def)
  moreover have "rx_blake2b_default c out nn inp inlen = (- 1, out)" using assms(1) by (auto simp: rx_blake2b_default_def)
  moreover have "rxa2_blake2b_long c buffer n inp inlen = (- 1, buffer)"
    using assms(2) by (auto simp: rxa2_blake2b_long_def long_first_def rx_blake2b_init_def)
  ultimately show ?thesis by blast
qed

theorem rx_blake2b_refuses_witness:
  "\<exists>T' out2. rx_blake2b_final rx_blake2b_compress_sse41 blake2b_init0 (Some [7]) 64 = (0, T', out2)
     \<and> rx_blake2b_update rx_blake2b_compress_sse41 T' (Some [1, 2]) 2 = (- 1, T')
     \<and> (\<exists>S'. rx_blake2b_init blake2b_init0 65 = (- 1, S')
       \<and> rx_blake2b_final rx_blake2b_compress_sse41 S' (Some [7]) 1 = (- 1, S', Some [7]))"
proof -
  obtain T' out2 where f: "rx_blake2b_final rx_blake2b_compress_sse41 blake2b_init0 (Some [7]) 64 = (0, T', out2)"
    by (simp add: rx_blake2b_final_def blake2b_init0_def Let_def)
  have "65 = (0 :: nat) \<or> 64 < (65 :: nat)" "(0 :: nat) = 0 \<or> 4294967295 < (0 :: nat)"
    "rx_blake2b_compress_sse41 = rx_blake2b_compress_integer \<or> rx_blake2b_compress_sse41 = rx_blake2b_compress_sse41"
    by simp_all
  from rx_blake2b_refuses [OF this f, of blake2b_init0 1 "[2]" "Some [7]" 1 None 0 "[7]"] f
  show ?thesis by (auto simp: numeral_2_eq_2)
qed

end
