(* ===== verification/Rx_Vm.thy ===== *)
theory Rx_Vm
  imports Rx_AesHash Rx_Bytecode_Run Rx_Blake2b
begin

text \<open>
  The interpreted virtual machine and the hash functions (\<^verbatim>\<open>virtual_machine.cpp\<close>,
  \<^verbatim>\<open>vm_interpreted.cpp\<close>, \<^verbatim>\<open>vm_interpreted_light.cpp\<close>, \<^verbatim>\<open>program.hpp\<close> and the calculation functions of
  \<^verbatim>\<open>randomx.cpp\<close>). The parts a machine is built from are the record \<open>rx_env\<close>: the current
  configuration, the floating-point instructions, the AES rounds of the hash and the generators, the
  instance of the combined AES pass with its rounds (software AES chooses it at run time) and the
  compression function of BLAKE2b. The virtual \<^verbatim>\<open>datasetRead\<close> is the argument \<open>rd\<close>, with an instance that
  reads the dataset and one that computes the item from the cache.
\<close>

subsection \<open>State\<close>

record rx_env =
  env_config :: rx_config
  env_fpu :: fpu
  env_variant :: aes_variant
  env_enc :: aes_round_fun
  env_dec :: aes_round_fun
  env_hf_enc :: aes_round_fun
  env_hf_dec :: aes_round_fun
  env_compress :: "blake2b_state \<Rightarrow> u8 list \<Rightarrow> blake2b_state"

record randomx_vm =
  vm_program :: "u8 list"
  vm_r :: "u64 list"
  vm_f :: "f128 list"
  vm_e :: "f128 list"
  vm_a :: "f128 list"
  vm_config :: ProgramConfiguration
  vm_mx :: u32
  vm_ma :: u32
  vm_scratchpad :: "u8 list"
  vm_datasetOffset :: u64
  vm_bytecode :: "InstructionByteCode list"
  vm_rounding :: nat

type_synonym dataset_reader = "u64 \<Rightarrow> u64 list \<Rightarrow> u64 list option"

text \<open>The hash function pointer, applied to \<open>n\<close> bytes of output.\<close>

definition rx_blake2b_run :: "rx_env \<Rightarrow> nat \<Rightarrow> u8 list \<Rightarrow> u8 list option" where
  "rx_blake2b_run E n inp = snd (rx_blake2b_default (env_compress E) (Some (replicate n 0)) n (Some inp) (length inp))"

definition resetRoundingMode :: "randomx_vm \<Rightarrow> randomx_vm" where
  "resetRoundingMode vm = vm\<lparr>vm_rounding := 0\<rparr>"

subsection \<open>Program and its configuration\<close>

definition ScratchpadSize :: "rx_env \<Rightarrow> nat" where
  "ScratchpadSize E = unat (ScratchpadL3_Size (env_config E))"

definition getEntropy :: "u8 list \<Rightarrow> nat \<Rightarrow> u64" where
  "getEntropy program i = load64 (drop (8 * i) program)"

definition program_instr :: "u8 list \<Rightarrow> nat \<Rightarrow> Instruction" where
  "program_instr program pc =
     (let b = drop (128 + 8 * pc) program
      in \<lparr>opcode = b ! 0, dst = b ! 1, src = b ! 2, imod = b ! 3, imm32 = load32 (drop 4 b)\<rparr>)"

definition getSmallPositiveFloatBits :: "u64 \<Rightarrow> u64" where
  "getSmallPositiveFloatBits entropy =
     (let exponent = drop_bit 59 entropy;
          mantissa = entropy AND (push_bit 52 1 - 1);
          exponent = exponent + 1023;
          exponent = exponent AND (push_bit 11 1 - 1);
          exponent = push_bit 52 exponent
      in exponent OR mantissa)"

definition getStaticExponent :: "u64 \<Rightarrow> u64" where
  "getStaticExponent entropy =
     (let exponent = 0x300;
          exponent = exponent OR push_bit 4 (drop_bit (64 - 4) entropy)
      in push_bit 52 exponent)"

definition getFloatMask :: "u64 \<Rightarrow> u64" where
  "getFloatMask entropy = (entropy AND (push_bit 22 1 - 1)) OR getStaticExponent entropy"

definition initialize :: "randomx_vm \<Rightarrow> randomx_vm" where
  "initialize vm =
     (let ent = getEntropy (vm_program vm);
          a = map (\<lambda>i. (getSmallPositiveFloatBits (ent (2 * i)), getSmallPositiveFloatBits (ent (2 * i + 1)))) [0..<4];
          addressRegisters = ent 12;
          r0 = 0 + unat (addressRegisters AND 1);
          addressRegisters = drop_bit 1 addressRegisters;
          r1 = 2 + unat (addressRegisters AND 1);
          addressRegisters = drop_bit 1 addressRegisters;
          r2 = 4 + unat (addressRegisters AND 1);
          addressRegisters = drop_bit 1 addressRegisters;
          r3 = 6 + unat (addressRegisters AND 1)
      in vm\<lparr>vm_a := a,
            vm_ma := ucast (ent 8 AND CacheLineAlignMask),
            vm_mx := ucast (ent 10),
            vm_config := \<lparr>eMask = (getFloatMask (ent 14), getFloatMask (ent 15)),
              readReg0 = r0, readReg1 = r1, readReg2 = r2, readReg3 = r3\<rparr>,
            vm_datasetOffset := (ent 13 mod of_nat (DatasetExtraItems + 1)) * of_nat CacheLineSize\<rparr>)"

definition generateProgram :: "rx_env \<Rightarrow> u8 list \<Rightarrow> randomx_vm \<Rightarrow> randomx_vm option" where
  "generateProgram E seed vm = do {
     p \<leftarrow> fillAes4Rx4 (env_config E) (env_enc E) (env_dec E) seed (128 + ProgramSize (env_config E) * 8) (vm_program vm);
     Some (vm\<lparr>vm_program := p\<rparr>)
   }"

subsection \<open>Execution\<close>

definition xor_words :: "u64 list \<Rightarrow> (nat \<Rightarrow> u64 option) \<Rightarrow> u64 list option" where
  "xor_words r word = foldM (\<lambda>i r. do { w \<leftarrow> word i; x \<leftarrow> get r i; put r i (x XOR w) }) [0..<8] r"

definition datasetRead :: "u8 list \<Rightarrow> dataset_reader" where
  "datasetRead ds address r = xor_words r (\<lambda>i. load64_at ds (unat address + 8 * i))"

definition datasetRead_light :: "randomx_cache \<Rightarrow> dataset_reader" where
  "datasetRead_light cache address r =
     (let itemNumber = ucast (address div of_nat CacheLineSize) :: u32
      in do {
        rl \<leftarrow> initDatasetItem cache (ucast itemNumber);
        xor_words r (\<lambda>q. load64_at rl (8 * q))
      })"

definition load_f :: "rx_env \<Rightarrow> (f128 \<Rightarrow> f128) \<Rightarrow> u8 list \<Rightarrow> nat \<Rightarrow> f128 list \<Rightarrow> f128 list option" where
  "load_f E h sp off f =
     foldM (\<lambda>i f. do { x \<leftarrow> rx_cvt_packed_int_vec_f128 (env_fpu E) sp (off + 8 * i); put f i (h x) }) [0..<RegisterCountFlt] f"

definition store_r :: "u64 list \<Rightarrow> nat \<Rightarrow> u8 list \<Rightarrow> u8 list option" where
  "store_r r off sp = foldM (\<lambda>i sp. do { x \<leftarrow> get r i; sp_store64 sp (off + 8 * i) x }) [0..<RegistersCount] sp"

definition xor_f128 :: "f128 \<Rightarrow> f128 \<Rightarrow> f128" where "xor_f128 x y = lanes2 (XOR) x y"

definition mix_f :: "f128 list \<Rightarrow> f128 list \<Rightarrow> f128 list option" where
  "mix_f f e = foldM (\<lambda>i f. do { x \<leftarrow> get f i; y \<leftarrow> get e i; put f i (xor_f128 x y) }) [0..<RegisterCountFlt] f"

definition store_f :: "f128 list \<Rightarrow> nat \<Rightarrow> u8 list \<Rightarrow> u8 list option" where
  "store_f f off sp = foldM (\<lambda>i sp. do {
       x \<leftarrow> get f i;
       sp \<leftarrow> sp_store64 sp (off + 16 * i) (fst x);
       sp_store64 sp (off + 16 * i + 8) (snd x)
     }) [0..<RegisterCountFlt] sp"

record exec_state =
  xm :: machine
  spAddr0 :: u32
  spAddr1 :: u32
  xmx :: u32
  xma :: u32

definition scratchpad_addresses :: "rx_env \<Rightarrow> ProgramConfiguration \<Rightarrow> exec_state \<Rightarrow> exec_state option" where
  "scratchpad_addresses E cfg s = do {
     x \<leftarrow> get (nr (xm s)) (readReg0 cfg);
     y \<leftarrow> get (nr (xm s)) (readReg1 cfg);
     let spMix = x XOR y;
     Some (s\<lparr>spAddr0 := (spAddr0 s XOR ucast spMix) AND ScratchpadL3Mask64 (env_config E),
             spAddr1 := (spAddr1 s XOR ucast (drop_bit 32 spMix)) AND ScratchpadL3Mask64 (env_config E)\<rparr>)
   }"

definition load_registers :: "rx_env \<Rightarrow> ProgramConfiguration \<Rightarrow> exec_state \<Rightarrow> exec_state option" where
  "load_registers E cfg s = do {
     let m = xm s;
     r \<leftarrow> xor_words (nr m) (\<lambda>i. sp_load64 (spad m) (unat (spAddr0 s) + 8 * i));
     f \<leftarrow> load_f E (\<lambda>x. x) (spad m) (unat (spAddr1 s)) (nf m);
     e \<leftarrow> load_f E (maskRegisterExponentMantissa cfg) (spad m) (unat (spAddr1 s) + 8 * RegisterCountFlt) (ne m);
     Some (s\<lparr>xm := m\<lparr>nr := r, nf := f, ne := e\<rparr>\<rparr>)
   }"

definition rx_mix_dataset :: "rx_env \<Rightarrow> dataset_reader \<Rightarrow> ProgramConfiguration \<Rightarrow> u64 \<Rightarrow> exec_state \<Rightarrow> exec_state option" where
  "rx_mix_dataset E rd cfg datasetOffset s = do {
     let readPtr = datasetOffset + (ucast (xma s) AND CacheLineAlignMask);
     x \<leftarrow> get (nr (xm s)) (readReg2 cfg);
     y \<leftarrow> get (nr (xm s)) (readReg3 cfg);
     let s = (if Tweak_V2_PREFETCH (env_config E) then s\<lparr>xma := xma s XOR ucast (x XOR y)\<rparr>
              else s\<lparr>xmx := xmx s XOR ucast (x XOR y)\<rparr>);
     r \<leftarrow> rd readPtr (nr (xm s));
     Some (s\<lparr>xm := (xm s)\<lparr>nr := r\<rparr>, xmx := xma s, xma := xmx s\<rparr>)
   }"

definition store_registers :: "exec_state \<Rightarrow> exec_state option" where
  "store_registers s = do {
     let m = xm s;
     sp \<leftarrow> store_r (nr m) (unat (spAddr1 s)) (spad m);
     f \<leftarrow> mix_f (nf m) (ne m);
     sp \<leftarrow> store_f f (unat (spAddr0 s)) sp;
     Some (s\<lparr>xm := m\<lparr>nf := f, spad := sp\<rparr>, spAddr0 := 0, spAddr1 := 0\<rparr>)
   }"

definition execute_turn :: "rx_env \<Rightarrow> dataset_reader \<Rightarrow> ProgramConfiguration \<Rightarrow> u64 \<Rightarrow> InstructionByteCode list \<Rightarrow> exec_state \<Rightarrow> exec_state option" where
  "execute_turn E rd cfg datasetOffset bc s = do {
     s \<leftarrow> scratchpad_addresses E cfg s;
     s \<leftarrow> load_registers E cfg s;
     m \<leftarrow> executeBytecode (env_fpu E) (env_config E) cfg bc (xm s);
     s \<leftarrow> rx_mix_dataset E rd cfg datasetOffset (s\<lparr>xm := m\<rparr>);
     store_registers s
   }"

text \<open>The registers \<open>f\<close> and \<open>e\<close> of the native register file are written before they are read, so their
  first value does not matter; it is zero here.\<close>

definition execute_start :: "randomx_vm \<Rightarrow> exec_state" where
  "execute_start vm =
     \<lparr>xm = \<lparr>nr = replicate RegistersCount 0, nf = replicate RegisterCountFlt (0, 0), ne = replicate RegisterCountFlt (0, 0),
         na = vm_a vm, spad = vm_scratchpad vm, fprc = vm_rounding vm\<rparr>,
      spAddr0 = vm_mx vm, spAddr1 = vm_ma vm, xmx = vm_mx vm, xma = vm_ma vm\<rparr>"

definition execute :: "rx_env \<Rightarrow> dataset_reader \<Rightarrow> randomx_vm \<Rightarrow> randomx_vm option" where
  "execute E rd vm = do {
     let program = map (program_instr (vm_program vm)) [0..<ProgramSize (env_config E)];
     bc \<leftarrow> compileProgram (env_config E) program (vm_bytecode vm);
     s \<leftarrow> foldM (\<lambda>ic. execute_turn E rd (vm_config vm) (vm_datasetOffset vm) bc)
        [0..<ProgramIterations (env_config E)] (execute_start vm);
     let m = xm s;
     Some (vm\<lparr>vm_bytecode := bc, vm_r := nr m, vm_f := nf m, vm_e := ne m, vm_scratchpad := spad m,
       vm_rounding := fprc m, vm_mx := xmx s, vm_ma := xma s\<rparr>)
   }"

definition run :: "rx_env \<Rightarrow> dataset_reader \<Rightarrow> u8 list \<Rightarrow> randomx_vm \<Rightarrow> randomx_vm option" where
  "run E rd seed vm = do {
     vm \<leftarrow> generateProgram E seed vm;
     execute E rd (initialize vm)
   }"

subsection \<open>Hashing\<close>

definition f128_bytes :: "f128 \<Rightarrow> u8 list" where
  "f128_bytes x = le_bytes 8 (fst x) @ le_bytes 8 (snd x)"

definition register_bytes :: "randomx_vm \<Rightarrow> u8 list" where
  "register_bytes vm = concat (map store64 (vm_r vm)) @ concat (map f128_bytes (vm_f vm))
     @ concat (map f128_bytes (vm_e vm)) @ concat (map f128_bytes (vm_a vm))"

definition set_a :: "u8 list \<Rightarrow> randomx_vm \<Rightarrow> randomx_vm" where
  "set_a h vm = vm\<lparr>vm_a := map (\<lambda>i. (load64_native (chunk 8 (2 * i) h), load64_native (chunk 8 (2 * i + 1) h))) [0..<4]\<rparr>"

definition RANDOMX_HASH_SIZE :: nat where "RANDOMX_HASH_SIZE = 32"

definition getFinalResult :: "rx_env \<Rightarrow> randomx_vm \<Rightarrow> (randomx_vm \<times> u8 list) option" where
  "getFinalResult E vm = do {
     h \<leftarrow> hashAes1Rx4 (env_enc E) (env_dec E) (vm_scratchpad vm) (ScratchpadSize E);
     let vm = set_a h vm;
     out \<leftarrow> rx_blake2b_run E RANDOMX_HASH_SIZE (register_bytes vm);
     Some (vm, out)
   }"

definition hashAndFill :: "rx_env \<Rightarrow> u8 list \<Rightarrow> randomx_vm \<Rightarrow> (u8 list \<times> randomx_vm \<times> u8 list) option" where
  "hashAndFill E fill_state vm = do {
     (sp, h, fill_state) \<leftarrow> hashAndFillAes1Rx4 (env_variant E) (env_hf_enc E) (env_hf_dec E) (vm_scratchpad vm) (ScratchpadSize E) fill_state;
     let vm = set_a h (vm\<lparr>vm_scratchpad := sp\<rparr>);
     out \<leftarrow> rx_blake2b_run E RANDOMX_HASH_SIZE (register_bytes vm);
     Some (fill_state, vm, out)
   }"

definition initScratchpad :: "rx_env \<Rightarrow> u8 list \<Rightarrow> randomx_vm \<Rightarrow> (u8 list \<times> randomx_vm) option" where
  "initScratchpad E seed vm = do {
     (seed, sp) \<leftarrow> fillAes1Rx4 (env_enc E) (env_dec E) seed (ScratchpadSize E) (vm_scratchpad vm);
     Some (seed, vm\<lparr>vm_scratchpad := sp\<rparr>)
   }"

text \<open>The chain of programs, which both calculation functions run.\<close>

definition run_chain :: "rx_env \<Rightarrow> dataset_reader \<Rightarrow> u8 list \<Rightarrow> randomx_vm \<Rightarrow> randomx_vm option" where
  "run_chain E rd tempHash vm = do {
     let vm = resetRoundingMode vm;
     (tempHash, vm) \<leftarrow> foldM (\<lambda>chain (tempHash, vm). do {
         vm \<leftarrow> run E rd tempHash vm;
         tempHash \<leftarrow> rx_blake2b_run E 64 (register_bytes vm);
         Some (tempHash, vm)
       }) [0..<ProgramCount (env_config E) - 1] (tempHash, vm);
     run E rd tempHash vm
   }"

definition randomx_calculate_hash :: "rx_env \<Rightarrow> dataset_reader \<Rightarrow> randomx_vm \<Rightarrow> u8 list \<Rightarrow> (randomx_vm \<times> u8 list) option" where
  "randomx_calculate_hash E rd vm input = do {
     tempHash \<leftarrow> rx_blake2b_run E 64 input;
     (tempHash, vm) \<leftarrow> initScratchpad E tempHash vm;
     vm \<leftarrow> run_chain E rd tempHash vm;
     getFinalResult E vm
   }"

definition randomx_calculate_hash_first :: "rx_env \<Rightarrow> randomx_vm \<Rightarrow> u8 list \<Rightarrow> (u8 list \<times> randomx_vm) option" where
  "randomx_calculate_hash_first E vm input = do {
     tempHash \<leftarrow> rx_blake2b_run E 64 input;
     initScratchpad E tempHash vm
   }"

definition randomx_calculate_hash_next :: "rx_env \<Rightarrow> dataset_reader \<Rightarrow> u8 list \<Rightarrow> randomx_vm \<Rightarrow> u8 list \<Rightarrow> (u8 list \<times> randomx_vm \<times> u8 list) option" where
  "randomx_calculate_hash_next E rd tempHash vm nextInput = do {
     vm \<leftarrow> run_chain E rd tempHash vm;
     tempHash \<leftarrow> rx_blake2b_run E 64 nextInput;
     hashAndFill E tempHash vm
   }"

subsection \<open>Interface functions\<close>

definition kMaxBlobSize :: nat where "kMaxBlobSize = 408"

text \<open>The input is copied to a buffer of \<open>kMaxBlobSize\<close> bytes and the hash behind it; a longer input
  writes past the buffer.\<close>

definition randomx_calculate_commitment :: "rx_env \<Rightarrow> u8 list \<Rightarrow> u8 list \<Rightarrow> u8 list option" where
  "randomx_calculate_commitment E input hash_in =
     (if length input > kMaxBlobSize \<or> length hash_in < RANDOMX_HASH_SIZE then None
      else rx_blake2b_run E RANDOMX_HASH_SIZE (input @ take RANDOMX_HASH_SIZE hash_in))"

definition randomx_dataset_item_count :: nat where
  "randomx_dataset_item_count = (DatasetBaseSize + DatasetExtraSize) div 64"

text \<open>The assertions are the preconditions; the cache function gets the memory from the first item on.\<close>

definition randomx_init_dataset :: "randomx_cache \<Rightarrow> u8 list \<Rightarrow> nat \<Rightarrow> nat \<Rightarrow> u8 list option" where
  "randomx_init_dataset cache ds startItem itemCount =
     (if startItem < randomx_dataset_item_count \<and> itemCount \<le> randomx_dataset_item_count
         \<and> startItem + itemCount \<le> randomx_dataset_item_count
      then do {
        part \<leftarrow> initDataset cache (drop (startItem * CacheLineSize) ds) startItem (startItem + itemCount);
        Some (take (startItem * CacheLineSize) ds @ part)
      }
      else None)"

text \<open>Creation of a machine: its class is chosen by the flags, it is placed in the memory pool of its
  node behind the machines created before, and \<^verbatim>\<open>setScratchpad\<close> refuses a machine without its cache or
  dataset, in which case nothing is returned and the place stays free. The result is the class and
  the offset in the pool; \<open>vm_size\<close> gives the size of an object.\<close>

datatype vm_class = InterpretedLightVm bool | InterpretedVm bool | CompiledLightVm bool | CompiledVm bool

definition vm_class_of :: "u32 \<Rightarrow> vm_class" where
  "vm_class_of flags =
     (let hard = (flags AND 2 \<noteq> 0); full = (flags AND 4 \<noteq> 0); jit = (flags AND 8 \<noteq> 0)
      in if jit then (if full then CompiledVm hard else CompiledLightVm hard)
         else if full then InterpretedVm hard else InterpretedLightVm hard)"

fun vm_has_data :: "vm_class \<Rightarrow> bool \<Rightarrow> bool \<Rightarrow> bool" where
  "vm_has_data (InterpretedLightVm _) cache dataset = cache"
| "vm_has_data (CompiledLightVm _) cache dataset = cache"
| "vm_has_data (InterpretedVm _) cache dataset = dataset"
| "vm_has_data (CompiledVm _) cache dataset = dataset"

definition VM_POOL_SIZE :: nat where "VM_POOL_SIZE = 2 * 1024 * 1024"

definition pool_advance :: "nat \<Rightarrow> nat \<Rightarrow> nat" where
  "pool_advance vm_size offset =
     (let offset = offset + vm_size in if offset + 4096 > VM_POOL_SIZE then 0 else offset)"

definition randomx_create_vm :: "(vm_class \<Rightarrow> nat) \<Rightarrow> u32 \<Rightarrow> bool \<Rightarrow> bool \<Rightarrow> nat \<Rightarrow> nat list \<Rightarrow> ((vm_class \<times> nat) option \<times> nat list) option" where
  "randomx_create_vm vm_size flags cache dataset node vm_pool_offset = do {
     let node = (if node \<ge> 64 then 0 else node);
     p \<leftarrow> get vm_pool_offset node;
     let vm = vm_class_of flags;
     if vm_has_data vm cache dataset
     then do {
       offsets \<leftarrow> put vm_pool_offset node (pool_advance (vm_size vm) p);
       Some (Some (vm, p), offsets)
     }
     else Some (None, vm_pool_offset)
   }"

subsection \<open>The memory pool of machines\<close>

text \<open>An object of at most 4096 bytes is always placed inside the pool. The margin is a constant, so a
  larger object can be placed across its end: with objects of 15936 bytes, the 132nd is.\<close>

lemma pool_advance_fits: "vm_size \<le> 4096 \<Longrightarrow> pool_advance vm_size offset + vm_size \<le> VM_POOL_SIZE"
  by (simp add: pool_advance_def VM_POOL_SIZE_def Let_def)

lemma pool_overrun: "(pool_advance 15936 ^^ 131) 0 + 15936 > VM_POOL_SIZE"
proof -
  have "(pool_advance 15936 ^^ n) 0 = 15936 * n" if "n \<le> 131" for n
    using that by (induction n) (simp_all add: pool_advance_def VM_POOL_SIZE_def Let_def)
  from this [of 131] show ?thesis by (simp add: VM_POOL_SIZE_def)
qed

end
