(* ===== verification/Rx_Hash.thy ===== *)
theory Rx_Hash
  imports Rx_Vm
begin

text \<open>
  The properties of the whole machine: hashing returns for every input, without an access outside
  the scratchpad, the dataset or the register file; the pipelined functions compute the same hashes
  as the direct one; and a machine that computes dataset items from the cache computes the same
  hashes as one that reads the dataset.
\<close>

subsection \<open>Environments and machines\<close>

definition aes_agree :: "aes_round_fun \<Rightarrow> aes_round_fun \<Rightarrow> bool" where
  "aes_agree enc enc' \<longleftrightarrow> (\<forall>v k. length v = 4 \<and> length k = 4 \<longrightarrow> length (enc v k) = 4 \<and> enc v k = enc' v k)"

text \<open>A valid environment: an applied configuration, AES rounds on four lanes (any value for a vector
  of another length), the same rounds in the combined pass, and a compression function of BLAKE2b.\<close>

definition env_ok :: "rx_env \<Rightarrow> bool" where
  "env_ok E \<longleftrightarrow> config_ok (env_config E) \<and> 256 dvd ScratchpadSize E
     \<and> aes_lanes (env_enc E) (env_dec E) \<and> aes_lanes (env_hf_enc E) (env_hf_dec E)
     \<and> aes_agree (env_enc E) (env_hf_enc E) \<and> aes_agree (env_dec E) (env_hf_dec E)
     \<and> env_compress E \<in> {rx_blake2b_compress_integer, rx_blake2b_compress_sse41}"

definition vm_ok :: "rx_env \<Rightarrow> randomx_vm \<Rightarrow> bool" where
  "vm_ok E vm \<longleftrightarrow> length (vm_program vm) = 3200 \<and> length (vm_bytecode vm) = 384 \<and> length (vm_scratchpad vm) = ScratchpadSize E"

lemma blake2b_run:
  assumes "env_ok E" "0 < n" "n \<le> 64"
  shows "rx_blake2b_run E n inp = Some (rfc_blake2b n [] inp)"
proof -
  have "blit (replicate n 0) 0 (rfc_blake2b n [] inp) = rfc_blake2b n [] inp"
    using assms(3) by (simp add: blit_def)
  then show ?thesis
    using assms portable.default_ok [of n "replicate n 0" inp] sse41.default_ok [of n "replicate n 0" inp]
    by (auto simp: env_ok_def rx_blake2b_run_def)
qed

subsection \<open>Equal rounds give equal routines\<close>

lemma foldM_cong_inv:
  assumes "I s" "\<And>x s. I s \<Longrightarrow> f x s = g x s" "\<And>x s s'. I s \<Longrightarrow> f x s = Some s' \<Longrightarrow> I s'"
  shows "foldM f xs s = foldM g xs s \<and> (\<forall>s'. foldM f xs s = Some s' \<longrightarrow> I s')"
  using assms(1)
proof (induction xs arbitrary: s)
  case (Cons x xs)
  show ?case
  proof (cases "f x s")
    case None
    then show ?thesis using assms(2) [OF Cons.prems, of x] by simp
  next
    case (Some s1)
    then have "I s1" using assms(3) Cons.prems by blast
    then show ?thesis using Cons.IH [of s1] Some assms(2) [OF Cons.prems, of x] by simp
  qed
qed simp

lemma load4_lanes: "load4 mem off = Some l \<Longrightarrow> lanes_ok l"
  by (auto simp: load4_def rx_load_vec_i128_def lanes_ok_def split: if_splits)

lemma rounds_agree:
  assumes "aes_agree enc enc'" "aes_agree dec dec'" "lanes_ok k" "lanes_ok st"
  shows "hash_round enc dec k st = hash_round enc' dec' k st" "fill_round enc dec k st = fill_round enc' dec' k st"
    "lanes_ok (hash_round enc dec k st)" "lanes_ok (fill_round enc dec k st)"
  using assms by (cases k; cases st; simp add: hash_round_def fill_round_def lanes_ok_def aes_agree_def)+

lemma constant_lanes: "lanes_ok hash_init" "lanes_ok gen_keys"
  "lanes_ok (AES_HASH_1R_XKEY0, AES_HASH_1R_XKEY0, AES_HASH_1R_XKEY0, AES_HASH_1R_XKEY0)"
  "lanes_ok (AES_HASH_1R_XKEY1, AES_HASH_1R_XKEY1, AES_HASH_1R_XKEY1, AES_HASH_1R_XKEY1)"
  by (simp_all add: lanes_ok_def hash_init_def gen_keys_def AES_HASH_1R_STATE0_def AES_HASH_1R_STATE1_def
    AES_HASH_1R_STATE2_def AES_HASH_1R_STATE3_def AES_GEN_1R_KEY0_def AES_GEN_1R_KEY1_def AES_GEN_1R_KEY2_def
    AES_GEN_1R_KEY3_def AES_HASH_1R_XKEY0_def AES_HASH_1R_XKEY1_def)

lemma hashAes_agree:
  assumes "aes_agree enc enc'" "aes_agree dec dec'"
  shows "hashAes1Rx4 enc dec mem n = hashAes1Rx4 enc' dec' mem n"
proof -
  have fin: "hash_finish enc dec st = hash_finish enc' dec' st" if "lanes_ok st" for st
  proof -
    let ?k = "(AES_HASH_1R_XKEY0, AES_HASH_1R_XKEY0, AES_HASH_1R_XKEY0, AES_HASH_1R_XKEY0)"
    have eq: "hash_round enc dec ?k st = hash_round enc' dec' ?k st" by (rule rounds_agree [OF assms constant_lanes(3) that])
    have "lanes_ok (hash_round enc' dec' ?k st)"
      unfolding eq [symmetric] by (rule rounds_agree [OF assms constant_lanes(3) that])
    then show ?thesis by (simp add: hash_finish_def Let_def eq rounds_agree(1) [OF assms constant_lanes(4)])
  qed
  have "foldM (hash_block enc dec mem) xs hash_init = foldM (hash_block enc' dec' mem) xs hash_init
      \<and> (\<forall>s'. foldM (hash_block enc dec mem) xs hash_init = Some s' \<longrightarrow> lanes_ok s')" for xs
  proof (rule foldM_cong_inv [where I = lanes_ok])
    fix x s assume "lanes_ok s"
    then show "hash_block enc dec mem x s = hash_block enc' dec' mem x s"
      by (auto simp: hash_block_def rounds_agree [OF assms] load4_lanes split: bind_splits)
  next
    fix x s s' assume "lanes_ok s" "hash_block enc dec mem x s = Some s'"
    then show "lanes_ok s'"
      by (auto simp: hash_block_def split: bind_splits intro!: rounds_agree(3) [OF assms] intro: load4_lanes)
  qed (rule constant_lanes)
  then show ?thesis using fin by (auto simp: hashAes1Rx4_def split: bind_splits)
qed

lemma fillAes_agree:
  assumes "aes_agree enc enc'" "aes_agree dec dec'"
  shows "fillAes1Rx4 enc dec st n mem = fillAes1Rx4 enc' dec' st n mem"
proof (cases "load4 st 0")
  case None
  then show ?thesis by (simp add: fillAes1Rx4_def)
next
  case (Some l)
  have "foldM (fill_block enc dec) xs (l, mem) = foldM (fill_block enc' dec') xs (l, mem)
      \<and> (\<forall>s'. foldM (fill_block enc dec) xs (l, mem) = Some s' \<longrightarrow> lanes_ok (fst s'))" for xs
  proof (rule foldM_cong_inv [where I = "\<lambda>s. lanes_ok (fst s)"])
    show "lanes_ok (fst (l, mem))" using load4_lanes [OF Some] by simp
  next
    fix x and s :: "lanes \<times> u8 list" assume "lanes_ok (fst s)"
    then show "fill_block enc dec x s = fill_block enc' dec' x s"
      by (cases s) (simp add: fill_block_def rounds_agree [OF assms] constant_lanes Let_def)
  next
    fix x and s s' :: "lanes \<times> u8 list" assume "lanes_ok (fst s)" "fill_block enc dec x s = Some s'"
    then show "lanes_ok (fst s')"
      by (cases s) (auto simp: fill_block_def Let_def split: bind_splits intro!: rounds_agree(4) [OF assms constant_lanes(2)])
  qed
  then show ?thesis by (simp add: fillAes1Rx4_def Some)
qed

subsection \<open>Generating the program\<close>

context aes_lanes
begin

lemma fill_round_keys: "lanes_ok k \<Longrightarrow> lanes_ok (fill_round enc dec k st)"
  by (cases k; cases st) (simp add: fill_round_def lanes_ok_def enc_lanes dec_lanes)

lemma fill4_round_lanes:
  assumes "length key = 8" "list_all (\<lambda>k. length k = 4) key"
  shows "lanes_ok (fill4_round enc dec key st)"
proof -
  have "lanes_ok (key ! 3, key ! 3, key ! 7, key ! 7)" using assms by (simp add: lanes_ok_def list_all_length)
  then show ?thesis by (simp add: fill4_round_def upt_4 fill_round_keys)
qed

lemma fillAes4_returns:
  assumes "config_ok c" "length seed = 64" "n \<le> length buffer" "128 \<le> n" "64 dvd length buffer"
  shows "returns (fillAes4Rx4 c enc dec seed n buffer) (\<lambda>b. length b = length buffer)"
proof -
  obtain st where st: "load4 seed 0 = Some st" using load4_returns [of 0 seed] assms(2) by auto
  have key: "length (fillAes4Rx4_Key c) = 8" "list_all (\<lambda>k. length k = 4) (fillAes4Rx4_Key c)"
    using assms(1) by (simp_all add: config_ok_def)
  have blocks: "64 * max 2 ((n + 63) div 64) \<le> length buffer" using assms(3-5) by auto
  have "returns (foldM (fill4_block enc dec (fillAes4Rx4_Key c)) [0..<max 2 ((n + 63) div 64)] (st, buffer))
    (\<lambda>s. length (snd s) = length buffer)"
  proof (rule foldM_returns [where I = "\<lambda>k s. length (snd s) = length buffer"])
    fix k and s :: "lanes \<times> u8 list"
    assume k: "k < max 2 ((n + 63) div 64)" and len: "length (snd s) = length buffer"
    define l where "l = fill4_round enc dec (fillAes4Rx4_Key c) (fst s)"
    have "lanes_ok l" unfolding l_def by (rule fill4_round_lanes [OF key])
    moreover have "lanes_ok (mask_lanes l)"
      using \<open>lanes_ok l\<close> by (cases l) (simp add: lanes_ok_def mask_lanes_def rx_and_vec_i128_def inst_mask_def Let_def)
    moreover have "64 * k + 64 \<le> length (snd s)" using k blocks len by linarith
    moreover have "lanes_ok (if k < 2 then l else mask_lanes l)" using calculation by simp
    ultimately obtain b where "store4 (snd s) (64 * k) (if k < 2 then l else mask_lanes l) = Some b" "length b = length (snd s)"
      using store4_returns [of "if k < 2 then l else mask_lanes l" "64 * k" "snd s"] by (auto simp: returns_def)
    then show "returns (fill4_block enc dec (fillAes4Rx4_Key c) k s) (\<lambda>s. length (snd s) = length buffer)"
      using len unfolding l_def by (cases s) (auto simp: fill4_block_def Let_def)
  qed simp
  then show ?thesis by (auto simp: fillAes4Rx4_def st returns_def)
qed

lemma fill_fold_lanes:
  "foldM (fill_block enc dec) xs (l, mem) = Some s' \<Longrightarrow> lanes_ok l \<Longrightarrow> lanes_ok (fst s')"
proof (induction xs arbitrary: l mem)
  case (Cons x xs)
  then obtain t where "fill_block enc dec x (l, mem) = Some t" "foldM (fill_block enc dec) xs t = Some s'"
    by (auto split: bind_splits)
  moreover from this(1) obtain mem1 where "t = (fill_round enc dec gen_keys l, mem1)"
    by (auto simp: fill_block_def Let_def split: bind_splits)
  ultimately have "foldM (fill_block enc dec) xs (fill_round enc dec gen_keys l, mem1) = Some s'" by simp
  then show ?case using Cons.IH fill_round_lanes by blast
qed auto

lemma fill_returns:
  assumes "256 dvd n" "n \<le> length mem" "length seed = 64"
  shows "returns (fillAes1Rx4 enc dec seed n mem) (\<lambda>(seed', mem'). length seed' = 64 \<and> length mem' = length mem)"
proof -
  obtain fs mem' where f: "fillAes1Rx4 enc dec seed n mem = Some (fs, mem')" "length mem' = length mem"
    using hash_and_fill [OF assms, of HardAes] by blast
  then obtain l l' where l: "load4 seed 0 = Some l" "foldM (fill_block enc dec) [0..<(n + 63) div 64] (l, mem) = Some (l', mem')"
    "store4 seed 0 l' = Some fs"
    by (auto simp: fillAes1Rx4_def split: bind_splits)
  have "lanes_ok l'" using fill_fold_lanes [OF l(2)] load4_lanes [OF l(1)] by simp
  then have "length fs = 64" using store4_returns [of l' 0 seed] l(3) assms(3) by (simp add: returns_def)
  then show ?thesis using f by simp
qed

end

subsection \<open>One turn of the main loop\<close>

lemma xor_words_returns:
  assumes "length r = 8" "\<And>i. i < 8 \<Longrightarrow> \<exists>w. word i = Some w"
  shows "returns (xor_words r word) (\<lambda>r'. length r' = 8)"
  unfolding xor_words_def
proof (rule foldM_returns [where I = "\<lambda>_ r. length r = 8"])
  fix i :: nat and r :: "u64 list" assume "i < 8" "length r = 8"
  then show "returns (do { w \<leftarrow> word i; x \<leftarrow> get r i; put r i (x XOR w) }) (\<lambda>r. length r = 8)"
    using assms(2) [of i] by auto
qed (rule assms(1))

lemma load_f_returns:
  assumes "length f = 4" "off + 32 \<le> length sp"
  shows "returns (load_f E h sp off f) (\<lambda>f'. length f' = 4)"
  unfolding load_f_def register_counts
proof (rule foldM_returns [where I = "\<lambda>_ f. length f = 4"])
  fix i :: nat and f :: "f128 list" assume "i < 8 div 2" "length f = 4"
  then show "returns (do { x \<leftarrow> rx_cvt_packed_int_vec_f128 (env_fpu E) sp (off + 8 * i); put f i (h x) }) (\<lambda>f. length f = 4)"
    using assms(2) by (simp add: rx_cvt_packed_int_vec_f128_def)
qed (rule assms(1))

lemma sp_store64_ok: "off + 8 \<le> length sp \<Longrightarrow> \<exists>sp'. sp_store64 sp off v = Some sp' \<and> length sp' = length sp"
  by (simp add: sp_store64_def)

lemma store_r_returns:
  assumes "length r = 8" "off + 64 \<le> length sp"
  shows "returns (store_r r off sp) (\<lambda>sp'. length sp' = length sp)"
  unfolding store_r_def register_counts
proof (rule foldM_returns [where I = "\<lambda>_ sp'. length sp' = length sp"])
  fix i :: nat and s :: "u8 list" assume i: "i < 8" and "length s = length sp"
  then have "off + 8 * i + 8 \<le> length s" using assms(2) by linarith
  then obtain s' where "sp_store64 s (off + 8 * i) (r ! i) = Some s'" "length s' = length s" using sp_store64_ok by blast
  then show "returns (do { x \<leftarrow> get r i; sp_store64 s (off + 8 * i) x }) (\<lambda>sp'. length sp' = length sp)"
    using i assms(1) \<open>length s = length sp\<close> by simp
qed simp

lemma mix_f_returns: "length f = 4 \<Longrightarrow> length e = 4 \<Longrightarrow> returns (mix_f f e) (\<lambda>f'. length f' = 4)"
  unfolding mix_f_def register_counts by (rule foldM_returns [where I = "\<lambda>_ f. length f = 4"]) simp_all

lemma store_f_returns:
  assumes "length f = 4" "off + 64 \<le> length sp"
  shows "returns (store_f f off sp) (\<lambda>sp'. length sp' = length sp)"
  unfolding store_f_def register_counts
proof (rule foldM_returns [where I = "\<lambda>_ sp'. length sp' = length sp"])
  fix i :: nat and s :: "u8 list" assume i: "i < 8 div 2" and s: "length s = length sp"
  then have le: "off + 16 * i + 8 \<le> length s" "off + 16 * i + 8 + 8 \<le> length s" using assms(2) by linarith+
  obtain s1 where s1: "sp_store64 s (off + 16 * i) (fst (f ! i)) = Some s1" "length s1 = length s" using sp_store64_ok [OF le(1)] by blast
  obtain s2 where "sp_store64 s1 (off + 16 * i + 8) (snd (f ! i)) = Some s2" "length s2 = length s1"
    using sp_store64_ok [of "off + 16 * i + 8" s1] le(2) s1(2) by auto
  then show "returns (do { x \<leftarrow> get f i; s \<leftarrow> sp_store64 s (off + 16 * i) (fst x); sp_store64 s (off + 16 * i + 8) (snd x) })
    (\<lambda>sp'. length sp' = length sp)"
    using i assms(1) s s1 by simp
qed simp

text \<open>The dataset is only read at aligned addresses inside it.\<close>

definition dataset_address :: "u64 \<Rightarrow> bool" where
  "dataset_address a \<longleftrightarrow> 64 dvd unat a \<and> unat a + 64 \<le> 64 * randomx_dataset_item_count"

definition offset_ok :: "u64 \<Rightarrow> bool" where
  "offset_ok a \<longleftrightarrow> 64 dvd unat a \<and> unat a \<le> 33554368"

lemma aligned_masked:
  fixes x :: u64
  shows "64 dvd unat (x AND CacheLineAlignMask)" "unat (x AND CacheLineAlignMask) \<le> 2147483584"
proof -
  have m: "CacheLineAlignMask = 2147483584" by (simp add: CacheLineAlignMask_def DatasetBaseSize_def)
  have "take_bit 6 (x AND 2147483584) = take_bit 6 x AND take_bit 6 (2147483584 :: u64)" by (rule take_bit_and)
  then have "take_bit 6 (x AND 2147483584) = 0" by simp
  then have "unat (take_bit 6 (x AND 2147483584)) = 0" by simp
  then have "take_bit 6 (unat (x AND 2147483584)) = 0" by (simp only: unsigned_take_bit_eq)
  then show "64 dvd unat (x AND CacheLineAlignMask)" unfolding m by (simp add: take_bit_eq_mod dvd_eq_mod_eq_0)
  have "x AND 2147483584 \<le> 2147483584" by (rule word_and_le1)
  then have "unat (x AND 2147483584) \<le> unat (2147483584 :: u64)" by (simp only: word_le_nat_alt)
  then show "unat (x AND CacheLineAlignMask) \<le> 2147483584" unfolding m by simp
qed

lemma read_address:
  assumes "offset_ok off"
  shows "dataset_address (off + (x AND CacheLineAlignMask))"
proof -
  note a = aligned_masked [of x]
  have "unat off + unat (x AND CacheLineAlignMask) < 2 ^ 64" using assms a(2) by (simp add: offset_ok_def)
  then have "unat (off + (x AND CacheLineAlignMask)) = unat off + unat (x AND CacheLineAlignMask)"
    by (simp add: unat_word_ariths)
  moreover have "64 * randomx_dataset_item_count = 2181038016"
    by (simp add: randomx_dataset_item_count_def DatasetBaseSize_def DatasetExtraSize_def)
  ultimately show ?thesis using assms a by (simp add: dataset_address_def offset_ok_def)
qed

lemma initialize_offset: "offset_ok (vm_datasetOffset (initialize vm))"
proof -
  define x where "x = getEntropy (vm_program vm) 13 mod 524288"
  have "unat x = unat (getEntropy (vm_program vm) 13) mod 524288" by (simp add: x_def unat_mod)
  then have "unat x < 524288" by simp
  moreover have "unat (x * 64) = unat x * 64" using calculation by (simp add: unat_word_ariths)
  moreover have "vm_datasetOffset (initialize vm) = x * 64"
    by (simp add: initialize_def Let_def x_def DatasetExtraItems_def DatasetExtraSize_def)
  ultimately show ?thesis by (simp add: offset_ok_def)
qed

definition reader_ok :: "dataset_reader \<Rightarrow> bool" where
  "reader_ok rd \<longleftrightarrow> (\<forall>a r. dataset_address a \<and> length r = 8 \<longrightarrow> returns (rd a r) (\<lambda>r'. length r' = 8))"

definition regs_ok :: "ProgramConfiguration \<Rightarrow> bool" where
  "regs_ok cfg \<longleftrightarrow> readReg0 cfg < 8 \<and> readReg1 cfg < 8 \<and> readReg2 cfg < 8 \<and> readReg3 cfg < 8"

lemma initialize_regs: "regs_ok (vm_config (initialize vm))"
proof -
  have "unat (x AND 1) < 2" for x :: u64
  proof -
    have "x AND 1 \<le> 1" by (rule word_and_le1)
    then have "unat (x AND 1) \<le> unat (1 :: u64)" by (simp only: word_le_nat_alt)
    then show ?thesis by simp
  qed
  from this [of "getEntropy (vm_program vm) 12"] this [of "drop_bit 1 (getEntropy (vm_program vm) 12)"]
    this [of "drop_bit 1 (drop_bit 1 (getEntropy (vm_program vm) 12))"]
    this [of "drop_bit 1 (drop_bit 1 (drop_bit 1 (getEntropy (vm_program vm) 12)))"]
  show ?thesis unfolding regs_ok_def initialize_def Let_def
    by (simp del: drop_bit_drop_bit drop_bit_Suc One_nat_def)
qed

definition exec_ok :: "rx_env \<Rightarrow> exec_state \<Rightarrow> bool" where
  "exec_ok E s \<longleftrightarrow> machine_ok (env_config E) (xm s)"

lemma execute_turn_ok:
  assumes "env_ok E" "reader_ok rd" "regs_ok cfg" "offset_ok off" "bytecode_ok (env_config E) (ProgramSize (env_config E)) bc"
    "ProgramSize (env_config E) \<le> length bc" "exec_ok E s"
  shows "returns (execute_turn E rd cfg off bc s) (exec_ok E)"
proof -
  let ?c = "env_config E"
  have c: "unat (ScratchpadL3Mask64 ?c) + 64 \<le> unat (ScratchpadL3_Size ?c)" using assms(1) by (simp add: env_ok_def config_ok_def)
  have mask: "unat (x AND ScratchpadL3Mask64 ?c) + 64 \<le> unat (ScratchpadL3_Size ?c)" for x
  proof -
    have "x AND ScratchpadL3Mask64 ?c \<le> ScratchpadL3Mask64 ?c" by (rule word_and_le1)
    then have "unat (x AND ScratchpadL3Mask64 ?c) \<le> unat (ScratchpadL3Mask64 ?c)" by (simp only: word_le_nat_alt)
    then show ?thesis using c by linarith
  qed
  have ok: "length (nr (xm s)) = 8" "length (nf (xm s)) = 4" "length (ne (xm s)) = 4" "length (na (xm s)) = 4"
    "length (spad (xm s)) = unat (ScratchpadL3_Size ?c)"
    using assms(7) by (simp_all add: exec_ok_def machine_ok_def)
  obtain s1 where s1: "scratchpad_addresses E cfg s = Some s1" "xm s1 = xm s"
    "unat (spAddr0 s1) + 64 \<le> unat (ScratchpadL3_Size ?c)" "unat (spAddr1 s1) + 64 \<le> unat (ScratchpadL3_Size ?c)"
    using assms(3) ok(1) mask by (simp add: scratchpad_addresses_def regs_ok_def)
  have "returns (xor_words (nr (xm s)) (\<lambda>i. sp_load64 (spad (xm s)) (unat (spAddr0 s1) + 8 * i))) (\<lambda>r. length r = 8)"
    using s1(3) ok(5) by (intro xor_words_returns [OF ok(1)]) (simp add: sp_load64_def)
  then obtain r where r: "xor_words (nr (xm s)) (\<lambda>i. sp_load64 (spad (xm s)) (unat (spAddr0 s1) + 8 * i)) = Some r" "length r = 8"
    by (auto simp: returns_def)
  obtain f where f: "load_f E (\<lambda>x. x) (spad (xm s)) (unat (spAddr1 s1)) (nf (xm s)) = Some f" "length f = 4"
    using load_f_returns [OF ok(2), of "unat (spAddr1 s1)" "spad (xm s)" E "\<lambda>x. x"] s1(4) ok(5) by (auto simp: returns_def)
  obtain e where e: "load_f E (maskRegisterExponentMantissa cfg) (spad (xm s)) (unat (spAddr1 s1) + 32) (ne (xm s)) = Some e" "length e = 4"
    using load_f_returns [OF ok(3), of "unat (spAddr1 s1) + 32" "spad (xm s)" E "maskRegisterExponentMantissa cfg"] s1(4) ok(5)
    by (auto simp: returns_def)
  define s2 where "s2 = s1\<lparr>xm := (xm s)\<lparr>nr := r, nf := f, ne := e\<rparr>\<rparr>"
  have s2: "load_registers E cfg s1 = Some s2" using r(1) f(1) e(1) s1(2) by (simp add: load_registers_def s2_def)
  have "machine_ok ?c (xm s2)" using ok r f e by (simp add: s2_def machine_ok_def)
  then obtain m where m: "executeBytecode (env_fpu E) ?c cfg bc (xm s2) = Some m" "machine_ok ?c m"
    using executeBytecode_returns [OF assms(5,6), of "xm s2" "env_fpu E" cfg] by (auto simp: returns_def)
  have lm: "length (nr m) = 8" "length (nf m) = 4" "length (ne m) = 4" "length (spad m) = unat (ScratchpadL3_Size ?c)"
    using m(2) by (simp_all add: machine_ok_def)
  obtain r' where r': "rd (off + (ucast (xma s2) AND CacheLineAlignMask)) (nr m) = Some r'" "length r' = 8"
    using assms(2) read_address [OF assms(4), of "ucast (xma s2)"] lm(1) by (force simp: reader_ok_def returns_def)
  have "returns (rx_mix_dataset E rd cfg off (s2\<lparr>xm := m\<rparr>))
    (\<lambda>s. xm s = m\<lparr>nr := r'\<rparr> \<and> spAddr0 s = spAddr0 s1 \<and> spAddr1 s = spAddr1 s1)"
    using assms(3) lm(1) r' by (simp add: rx_mix_dataset_def regs_ok_def s2_def)
  then obtain s3 where s3: "rx_mix_dataset E rd cfg off (s2\<lparr>xm := m\<rparr>) = Some s3" "xm s3 = m\<lparr>nr := r'\<rparr>"
    "spAddr0 s3 = spAddr0 s1" "spAddr1 s3 = spAddr1 s1" by (auto simp: returns_def)
  obtain sp where sp: "store_r r' (unat (spAddr1 s1)) (spad m) = Some sp" "length sp = length (spad m)"
    using store_r_returns [OF r'(2), of "unat (spAddr1 s1)" "spad m"] s1(4) lm(4) by (auto simp: returns_def)
  obtain f' where f': "mix_f (nf m) (ne m) = Some f'" "length f' = 4"
    using mix_f_returns [OF lm(2,3)] by (auto simp: returns_def)
  obtain sp' where sp': "store_f f' (unat (spAddr0 s1)) sp = Some sp'" "length sp' = length sp"
    using store_f_returns [OF f'(2), of "unat (spAddr0 s1)" sp] s1(3) lm(4) sp(2) by (auto simp: returns_def)
  have "returns (store_registers s3) (exec_ok E)"
    using s3 sp sp' f' r'(2) m(2) by (simp add: store_registers_def exec_ok_def machine_ok_def)
  then show ?thesis using s1(1) s2 m(1) s3(1) by (simp add: execute_turn_def)
qed

subsection \<open>Running programs\<close>

lemma execute_ok:
  assumes "env_ok E" "reader_ok rd" "vm_ok E vm" "regs_ok (vm_config vm)" "offset_ok (vm_datasetOffset vm)" "length (vm_a vm) = 4"
  shows "returns (execute E rd vm) (vm_ok E)"
proof -
  let ?c = "env_config E"
  have c: "config_ok ?c" "ProgramSize ?c \<le> 384" using assms(1) by (simp_all add: env_ok_def config_ok_def)
  let ?p = "map (program_instr (vm_program vm)) [0..<ProgramSize ?c]"
  have "ProgramSize ?c \<le> length ?p" "ProgramSize ?c \<le> length (vm_bytecode vm)"
    using c(2) assms(3) by (simp_all add: vm_ok_def)
  from compileProgram_ok [OF c(1) this] obtain bc where bc: "compileProgram ?c ?p (vm_bytecode vm) = Some bc"
    "length bc = 384" "bytecode_ok ?c (ProgramSize ?c) bc"
    using assms(3) by (auto simp: returns_def vm_ok_def)
  have "exec_ok E (execute_start vm)"
    using assms(3,6) by (simp add: exec_ok_def execute_start_def machine_ok_def vm_ok_def ScratchpadSize_def)
  then have "returns (foldM (\<lambda>ic. execute_turn E rd (vm_config vm) (vm_datasetOffset vm) bc) [0..<ProgramIterations ?c] (execute_start vm))
    (exec_ok E)"
    using execute_turn_ok [OF assms(1,2,4,5) bc(3)] c(2) bc(2) by (intro foldM_returns [where I = "\<lambda>_. exec_ok E"]) auto
  then obtain s where s: "foldM (\<lambda>ic. execute_turn E rd (vm_config vm) (vm_datasetOffset vm) bc) [0..<ProgramIterations ?c] (execute_start vm) = Some s"
    "exec_ok E s" by (auto simp: returns_def)
  have "length (spad (xm s)) = ScratchpadSize E" using s(2) by (simp add: exec_ok_def machine_ok_def ScratchpadSize_def)
  then show ?thesis using bc s(1) assms(3) by (simp add: execute_def vm_ok_def Let_def)
qed

lemma run_ok:
  assumes "env_ok E" "reader_ok rd" "vm_ok E vm" "length seed = 64"
  shows "returns (run E rd seed vm) (vm_ok E)"
proof -
  let ?c = "env_config E"
  have c: "config_ok ?c" "ProgramSize ?c \<le> 384" "aes_lanes (env_enc E) (env_dec E)"
    using assms(1) by (simp_all add: env_ok_def config_ok_def)
  have len: "length (vm_program vm) = 3200" using assms(3) by (simp add: vm_ok_def)
  obtain p where p: "fillAes4Rx4 ?c (env_enc E) (env_dec E) seed (128 + ProgramSize ?c * 8) (vm_program vm) = Some p" "length p = 3200"
    using aes_lanes.fillAes4_returns [OF c(3,1) assms(4), of "128 + ProgramSize ?c * 8" "vm_program vm"] c(2) len
    by (auto simp: returns_def)
  define vm1 where "vm1 = initialize (vm\<lparr>vm_program := p\<rparr>)"
  have "vm_ok E vm1" "length (vm_a vm1) = 4"
    using assms(3) p(2) by (simp_all add: vm1_def initialize_def Let_def vm_ok_def)
  then have "returns (execute E rd vm1) (vm_ok E)"
    using execute_ok [OF assms(1,2)] initialize_regs initialize_offset by (simp add: vm1_def)
  then show ?thesis using p(1) by (simp add: run_def generateProgram_def vm1_def)
qed

lemma run_chain_ok:
  assumes "env_ok E" "reader_ok rd" "vm_ok E vm" "length seed = 64"
  shows "returns (run_chain E rd seed vm) (vm_ok E)"
proof -
  let ?I = "\<lambda>s. length (fst s) = 64 \<and> vm_ok E (snd s)"
  let ?f = "\<lambda>chain :: nat. \<lambda>(tempHash, vm). do {
         vm \<leftarrow> run E rd tempHash vm;
         tempHash \<leftarrow> rx_blake2b_run E 64 (register_bytes vm);
         Some (tempHash, vm)
       }"
  have "returns (foldM ?f [0..<ProgramCount (env_config E) - 1] (seed, resetRoundingMode vm)) ?I"
  proof (rule foldM_returns [where I = "\<lambda>_. ?I"])
    show "?I (seed, resetRoundingMode vm)" using assms(3,4) by (simp add: resetRoundingMode_def vm_ok_def)
  next
    fix k and s :: "u8 list \<times> randomx_vm" assume s: "?I s"
    obtain vm1 where "run E rd (fst s) (snd s) = Some vm1" "vm_ok E vm1"
      using run_ok [OF assms(1,2), of "snd s" "fst s"] s by (auto simp: returns_def)
    then show "returns (?f k s) ?I" using blake2b_run [OF assms(1), of 64] by (cases s) simp
  qed
  then obtain t vm1 where "foldM ?f [0..<ProgramCount (env_config E) - 1] (seed, resetRoundingMode vm) = Some (t, vm1)" "length t = 64" "vm_ok E vm1"
    by (auto simp: returns_def)
  then show ?thesis using run_ok [OF assms(1,2), of vm1 t] by (simp add: run_chain_def)
qed

lemma datasetRead_ok:
  assumes "64 * randomx_dataset_item_count \<le> length ds"
  shows "reader_ok (datasetRead ds)"
  unfolding reader_ok_def
proof (intro allI impI)
  fix a and r :: "u64 list" assume a: "dataset_address a \<and> length r = 8"
  then have "unat a + 64 \<le> length ds" using assms by (simp add: dataset_address_def)
  then show "returns (datasetRead ds a r) (\<lambda>r'. length r' = 8)"
    unfolding datasetRead_def using a by (intro xor_words_returns) (auto simp: load64_at_def)
qed

lemma initScratchpad_ok:
  assumes "env_ok E" "vm_ok E vm" "length seed = 64"
  shows "returns (initScratchpad E seed vm) (\<lambda>(seed', vm'). length seed' = 64 \<and> vm_ok E vm')"
proof -
  have e: "aes_lanes (env_enc E) (env_dec E)" "256 dvd ScratchpadSize E" using assms(1) by (simp_all add: env_ok_def)
  obtain seed' sp where "fillAes1Rx4 (env_enc E) (env_dec E) seed (ScratchpadSize E) (vm_scratchpad vm) = Some (seed', sp)"
    "length seed' = 64" "length sp = ScratchpadSize E"
    using aes_lanes.fill_returns [OF e, of "vm_scratchpad vm" seed] assms(2,3) by (auto simp: returns_def vm_ok_def)
  then show ?thesis using assms(2) by (simp add: initScratchpad_def vm_ok_def)
qed

text \<open>Finishing a hash and starting the next one in the combined pass is finishing it and then
  filling the scratchpad.\<close>

lemma hashAndFill_splits:
  assumes "env_ok E" "vm_ok E vm" "length t = 64"
  shows "\<exists>vm' out t' vm2. getFinalResult E vm = Some (vm', out) \<and> length out = 32 \<and> vm_ok E vm'
    \<and> hashAndFill E t vm = Some (t', vm2, out) \<and> initScratchpad E t vm' = Some (t', vm2)"
proof -
  have e: "aes_lanes (env_hf_enc E) (env_hf_dec E)" "256 dvd ScratchpadSize E" "aes_agree (env_enc E) (env_hf_enc E)"
    "aes_agree (env_dec E) (env_hf_dec E)" using assms(1) by (simp_all add: env_ok_def)
  have len: "ScratchpadSize E \<le> length (vm_scratchpad vm)" using assms(2) by (simp add: vm_ok_def)
  obtain h fs sp where hf: "hashAndFillAes1Rx4 (env_variant E) (env_hf_enc E) (env_hf_dec E) (vm_scratchpad vm) (ScratchpadSize E) t = Some (sp, h, fs)"
    "hashAes1Rx4 (env_enc E) (env_dec E) (vm_scratchpad vm) (ScratchpadSize E) = Some h"
    "fillAes1Rx4 (env_enc E) (env_dec E) t (ScratchpadSize E) (vm_scratchpad vm) = Some (fs, sp)"
    using aes_lanes.hash_and_fill [OF e(1,2) len assms(3), of "env_variant E"] hashAes_agree [OF e(3,4)] fillAes_agree [OF e(3,4)]
    by auto
  have "register_bytes (set_a h (vm\<lparr>vm_scratchpad := sp\<rparr>)) = register_bytes (set_a h vm)"
    by (simp add: register_bytes_def set_a_def)
  moreover have "(set_a h vm)\<lparr>vm_scratchpad := sp\<rparr> = set_a h (vm\<lparr>vm_scratchpad := sp\<rparr>)" by (simp add: set_a_def)
  moreover have "vm_ok E (set_a h vm)" "vm_scratchpad (set_a h vm) = vm_scratchpad vm"
    using assms(2) by (simp_all add: vm_ok_def set_a_def)
  ultimately show ?thesis
    using hf blake2b_run [OF assms(1), of 32]
    by (simp add: getFinalResult_def hashAndFill_def initScratchpad_def RANDOMX_HASH_SIZE_def Let_def)
qed

text \<open>C5. In a valid environment, hashing returns for every input and gives 32 bytes, with no access
  outside the scratchpad, the dataset or the register file, and every program in the chain ends. The
  pipelined functions give the same results: starting with one input and going on to the next returns
  the hash the direct function returns, and leaves the machine and the temporary hash exactly as
  starting with the next input after the direct function does.\<close>

theorem randomx_pipeline_correct:
  assumes "env_ok E" "vm_ok E vm" "64 * randomx_dataset_item_count \<le> length ds"
  shows "\<exists>t1 vm1 t2 vm2 out vm'. randomx_calculate_hash_first E vm input = Some (t1, vm1)
    \<and> randomx_calculate_hash_next E (datasetRead ds) t1 vm1 nextInput = Some (t2, vm2, out)
    \<and> randomx_calculate_hash E (datasetRead ds) vm input = Some (vm', out) \<and> length out = 32
    \<and> randomx_calculate_hash_first E vm' nextInput = Some (t2, vm2)"
proof -
  note b = blake2b_run [OF assms(1), of 64]
  obtain t1 vm1 where 1: "initScratchpad E (rfc_blake2b 64 [] input) vm = Some (t1, vm1)" "length t1 = 64" "vm_ok E vm1"
    using initScratchpad_ok [OF assms(1,2), of "rfc_blake2b 64 [] input"] by (auto simp: returns_def)
  obtain vmc where c: "run_chain E (datasetRead ds) t1 vm1 = Some vmc" "vm_ok E vmc"
    using run_chain_ok [OF assms(1) datasetRead_ok [OF assms(3)] 1(3,2)] by (auto simp: returns_def)
  obtain vm' out t2 vm2 where "getFinalResult E vmc = Some (vm', out)" "length out = 32"
    "hashAndFill E (rfc_blake2b 64 [] nextInput) vmc = Some (t2, vm2, out)"
    "initScratchpad E (rfc_blake2b 64 [] nextInput) vm' = Some (t2, vm2)"
    using hashAndFill_splits [OF assms(1) c(2), of "rfc_blake2b 64 [] nextInput"] by auto
  then show ?thesis using 1(1) c(1) b
    by (simp add: randomx_calculate_hash_first_def randomx_calculate_hash_next_def randomx_calculate_hash_def)
qed

text \<open>An environment with software AES on the tables of its initialiser, where the combined pass is the unrolled instance on the
  second form of the rounds.\<close>

definition sample_fpu :: fpu where
  "sample_fpu = \<lparr>fp_add = (\<lambda>_ x y. x), fp_sub = (\<lambda>_ x y. x), fp_mul = (\<lambda>_ x y. x), fp_div = (\<lambda>_ x y. x),
     fp_sqrt = (\<lambda>_ x. x), fp_cvt = (\<lambda>x. ucast x)\<rparr>"

definition soft_env :: "rx_config \<Rightarrow> rx_env" where
  "soft_env c = (let (lutEnc, lutDec) = the SAESInitializer in \<lparr>env_config = c, env_fpu = sample_fpu, env_variant = SoftAes 4,
     env_enc = aesenc1 lutEnc, env_dec = aesdec1 lutDec, env_hf_enc = aesenc2 lutEnc, env_hf_dec = aesdec2 lutDec,
     env_compress = rx_blake2b_compress_sse41\<rparr>)"

definition zero_vm :: "nat \<Rightarrow> randomx_vm" where
  "zero_vm n = \<lparr>vm_program = replicate 3200 0, vm_r = [], vm_f = [], vm_e = [], vm_a = [],
     vm_config = \<lparr>eMask = (0, 0), readReg0 = 0, readReg1 = 0, readReg2 = 0, readReg3 = 0\<rparr>, vm_mx = 0, vm_ma = 0,
     vm_scratchpad = replicate n 0, vm_datasetOffset = 0,
     vm_bytecode = replicate 384 \<lparr>bdst = IReg 0, bsrc = SrcZero, imm = 0, btype = T_NOP, target = 0, memMask = 0\<rparr>,
     vm_rounding = 0\<rparr>"

lemma soft_env_ok: "config_ok c \<Longrightarrow> 256 dvd unat (ScratchpadL3_Size c) \<Longrightarrow> env_ok (soft_env c)"
  using soft1.enc_lanes soft1.dec_lanes
  by (auto simp: env_ok_def soft_env_def split_beta Let_def ScratchpadSize_def aes_agree_def aes_forms_agree soft1.aes_lanes_axioms
    soft2.aes_lanes_axioms)

theorem randomx_pipeline_correct_witness:
  "\<exists>t1 vm1 t2 vm2 out vm'. randomx_calculate_hash_first (soft_env (Apply RandomX_ConfigurationMonero)) (zero_vm 2097152) [1] = Some (t1, vm1)
    \<and> randomx_calculate_hash_next (soft_env (Apply RandomX_ConfigurationMonero)) (datasetRead (replicate 2181038016 0)) t1 vm1 [2] = Some (t2, vm2, out)
    \<and> randomx_calculate_hash (soft_env (Apply RandomX_ConfigurationMonero)) (datasetRead (replicate 2181038016 0)) (zero_vm 2097152) [1] = Some (vm', out)
    \<and> length out = 32 \<and> randomx_calculate_hash_first (soft_env (Apply RandomX_ConfigurationMonero)) vm' [2] = Some (t2, vm2)"
proof -
  let ?c = "Apply RandomX_ConfigurationMonero"
  have size: "ScratchpadL3_Size ?c = 2097152" by (simp add: Apply_def configuration_defs Let_def)
  have "env_ok (soft_env ?c)" by (rule soft_env_ok [OF config_ok_all(1)]) (simp add: size)
  moreover have "vm_ok (soft_env ?c) (zero_vm 2097152)"
    by (simp add: vm_ok_def zero_vm_def ScratchpadSize_def soft_env_def split_beta Let_def size)
  moreover have "64 * randomx_dataset_item_count \<le> length (replicate 2181038016 (0 :: u8))"
    by (simp add: randomx_dataset_item_count_def DatasetBaseSize_def DatasetExtraSize_def)
  ultimately show ?thesis by (rule randomx_pipeline_correct)
qed

subsection \<open>Light and full memory\<close>

lemma execute_reader:
  assumes "offset_ok (vm_datasetOffset vm)" "\<And>a r. dataset_address a \<Longrightarrow> rd a r = rd' a r"
  shows "execute E rd vm = execute E rd' vm"
proof -
  have "rx_mix_dataset E rd cfg (vm_datasetOffset vm) s = rx_mix_dataset E rd' cfg (vm_datasetOffset vm) s" for cfg s
    unfolding rx_mix_dataset_def using assms(2) [OF read_address [OF assms(1)]] by simp
  then have "execute_turn E rd cfg (vm_datasetOffset vm) bc = execute_turn E rd' cfg (vm_datasetOffset vm) bc" for cfg bc
    by (simp add: execute_turn_def fun_eq_iff)
  then show ?thesis by (simp add: execute_def)
qed

lemma hash_reader:
  assumes "\<And>a r. dataset_address a \<Longrightarrow> rd a r = rd' a r"
  shows "randomx_calculate_hash E rd vm input = randomx_calculate_hash E rd' vm input"
proof -
  have "run E rd seed v = run E rd' seed v" for seed v
    unfolding run_def using execute_reader [OF initialize_offset assms] by simp
  then have "run_chain E rd t v = run_chain E rd' t v" for t v by (simp add: run_chain_def)
  then show ?thesis by (simp add: randomx_calculate_hash_def)
qed

lemma foldM_cong: "(\<And>x. x \<in> set xs \<Longrightarrow> f x = g x) \<Longrightarrow> foldM f xs s = foldM g xs s"
proof (induction xs arbitrary: s)
  case (Cons x xs)
  have "f x = g x" by (rule Cons.prems) simp
  moreover have "foldM f xs = foldM g xs" using Cons.IH Cons.prems by (intro ext) simp
  ultimately show ?case by simp
qed simp

lemma xor_words_cong: "(\<And>i. i < 8 \<Longrightarrow> w i = w' i) \<Longrightarrow> xor_words r w = xor_words r w'"
  unfolding xor_words_def by (rule foldM_cong) simp

lemma light_reads_item:
  assumes "\<And>i. i < randomx_dataset_item_count \<Longrightarrow> initDatasetItem cache (of_nat i) = Some (chunk 64 i ds)"
    "length ds = 64 * randomx_dataset_item_count" "dataset_address a"
  shows "datasetRead_light cache a r = datasetRead ds a r"
proof -
  define i where "i = unat a div 64"
  have a: "unat a = 64 * i" "Suc i \<le> randomx_dataset_item_count" using assms(3) by (auto simp: dataset_address_def i_def)
  have n: "randomx_dataset_item_count = 34078719"
    by (simp add: randomx_dataset_item_count_def DatasetBaseSize_def DatasetExtraSize_def)
  have "unat (a div 64) = i" by (simp add: i_def unat_div)
  then have "unat (ucast (ucast (a div 64) :: u32) :: u64) = i"
    using a(2) n by (simp add: unsigned_ucast_eq take_bit_eq_mod unat_mod)
  moreover have "x = of_nat (unat x)" for x :: u64 by simp
  ultimately have item: "ucast (ucast (a div 64) :: u32) = (of_nat i :: u64)" by metis
  have len: "64 * Suc i \<le> length ds" using a(2) assms(2) by simp
  have "load64_at (chunk 64 i ds) (8 * q) = load64_at ds (unat a + 8 * q)" if "q < 8" for q
  proof -
    have "length (chunk 64 i ds) = 64" using len by (rule length_chunk)
    moreover have "take 8 (drop (8 * q) (chunk 64 i ds)) = take 8 (drop (64 * i + 8 * q) ds)"
      using that by (simp add: chunk_def drop_take min_def add.commute)
    ultimately show ?thesis using that len a(1) by (simp add: load64_at_def load64_native_def)
  qed
  then have "xor_words r (\<lambda>q. load64_at (chunk 64 i ds) (8 * q)) = xor_words r (\<lambda>q. load64_at ds (unat a + 8 * q))"
    by (rule xor_words_cong)
  then show ?thesis using assms(1) [of i] a(2) item by (simp add: datasetRead_light_def datasetRead_def)
qed

lemma init_dataset_all:
  assumes "cache_ok cache" "length ds0 = 64 * randomx_dataset_item_count"
  shows "\<exists>ds. randomx_init_dataset cache ds0 0 randomx_dataset_item_count = Some ds \<and> length ds = 64 * randomx_dataset_item_count
    \<and> (\<forall>i < randomx_dataset_item_count. initDatasetItem cache (of_nat i) = Some (chunk 64 i ds))"
proof -
  have n: "0 < randomx_dataset_item_count"
    by (simp add: randomx_dataset_item_count_def DatasetBaseSize_def DatasetExtraSize_def)
  obtain ds where "initDataset cache ds0 0 randomx_dataset_item_count = Some ds" "length ds = length ds0"
    "\<forall>i < randomx_dataset_item_count. initDatasetItem cache (of_nat i) = Some (chunk 64 i ds)"
    using initDataset_ok [OF assms(1), of 0 randomx_dataset_item_count ds0] assms(2) by (auto simp: returns_def)
  then show ?thesis using n assms(2) by (simp add: randomx_init_dataset_def)
qed

text \<open>C6. A machine in light mode, which computes every dataset item it needs from the cache, computes the
  same hash and ends in the same state as a machine in full mode whose dataset was initialised from
  that cache by one call over all items: for every key, environment, machine state and input.\<close>

theorem light_mode_equals_full_mode:
  assumes "\<And>k. length (argon2 k) = ArgonMemory * ArgonBlockSize" "hash64 H" "fair H" "L \<le> MAX_LATENCY"
    and "length (programs c) = CACHE_MAX_ACCESSES" "list_all (\<lambda>p. length (programBuffer p) = SuperscalarMaxSize) (programs c)"
    and "length ds0 = 64 * randomx_dataset_item_count"
  shows "\<exists>cache ds. initCache argon2 H L c key = Some cache \<and> randomx_init_dataset cache ds0 0 randomx_dataset_item_count = Some ds
    \<and> randomx_calculate_hash E (datasetRead_light cache) = randomx_calculate_hash E (datasetRead ds)"
proof -
  obtain cache where cache: "initCache argon2 H L c key = Some cache" "cache_ok cache"
    using initCache_ok [of argon2 H L c key, OF assms(1-5)] assms(6) by (auto simp: returns_def list_all_iff)
  obtain ds where ds: "randomx_init_dataset cache ds0 0 randomx_dataset_item_count = Some ds"
    "length ds = 64 * randomx_dataset_item_count"
    "\<And>i. i < randomx_dataset_item_count \<Longrightarrow> initDatasetItem cache (of_nat i) = Some (chunk 64 i ds)"
    using init_dataset_all [OF cache(2) assms(7)] by blast
  have "randomx_calculate_hash E (datasetRead_light cache) vm input = randomx_calculate_hash E (datasetRead ds) vm input" for vm input
    by (rule hash_reader) (rule light_reads_item [OF ds(3,2)])
  then show ?thesis using cache(1) ds(1) by (auto simp: fun_eq_iff)
qed

theorem light_mode_equals_full_mode_witness:
  "\<exists>cache ds. initCache (\<lambda>k. replicate 268435456 9) threes 170 \<lparr>cache_memory = [], programs = replicate 16 empty_program\<rparr> [1, 2] = Some cache
    \<and> randomx_init_dataset cache (replicate 2181038016 0) 0 randomx_dataset_item_count = Some ds
    \<and> randomx_calculate_hash (soft_env (Apply RandomX_ConfigurationArqma)) (datasetRead_light cache)
      = randomx_calculate_hash (soft_env (Apply RandomX_ConfigurationArqma)) (datasetRead ds)"
  by (rule light_mode_equals_full_mode [OF _ hash64_threes fair_threes])
    (simp_all add: empty_program_def list_all_iff randomx_dataset_item_count_def DatasetBaseSize_def DatasetExtraSize_def)

end
