(* ===== verification/Rx_Capi.thy ===== *)
theory Rx_Capi
  imports Rx_Hash
begin

text \<open>
  The parallel initialisation of the dataset (\<^verbatim>\<open>randomx_capi.cpp\<close>): the items are divided among
  threads, each of which initialises its range, and the call returns when all have ended. A run is
  given by a schedule: the sequence of threads that initialise the next item of their range. The
  cache is the one whose dataset function is \<^verbatim>\<open>initDataset\<close>; the machine code that replaces it on a
  compiled cache is not modelled.
\<close>

subsection \<open>Ranges and threads\<close>

definition thread_count :: "nat \<Rightarrow> int \<Rightarrow> nat" where
  "thread_count n threads =
     (let threads = (if threads < 1 then 1 else threads)
      in if nat threads > n then n else nat threads)"

definition item_ranges :: "nat \<Rightarrow> int \<Rightarrow> (nat \<times> nat) list" where
  "item_ranges n threads =
     (let threads = thread_count n threads; per = n div threads
      in map (\<lambda>t. let start = per * t in (start, if t = threads - 1 then n - start else per)) [0..<threads])"

record par_state =
  par_memory :: "u8 list"
  par_count :: "nat list"

text \<open>One item of the call \<^verbatim>\<open>randomx_init_dataset(g_dataset, g_cache, start, count)\<close> of thread \<open>t\<close>; a thread
  that has returned does nothing.\<close>

definition init_step :: "randomx_cache \<Rightarrow> (nat \<times> nat) list \<Rightarrow> nat \<Rightarrow> par_state \<Rightarrow> par_state option" where
  "init_step cache ranges t s = do {
     (start, count) \<leftarrow> get ranges t;
     k \<leftarrow> get (par_count s) t;
     if k < count then do {
       b \<leftarrow> initDatasetItem cache (of_nat (start + k));
       let off = (start + k) * CacheLineSize;
       if off + CacheLineSize \<le> length (par_memory s)
       then Some (s\<lparr>par_memory := blit (par_memory s) off b, par_count := (par_count s)[t := Suc k]\<rparr>)
       else None
     }
     else Some s
   }"

definition all_joined :: "(nat \<times> nat) list \<Rightarrow> par_state \<Rightarrow> bool" where
  "all_joined ranges s \<longleftrightarrow> par_count s = map snd ranges"

text \<open>\<open>None\<close> also when the schedule stops before every thread has returned, that is, when a join does not
  return.\<close>

definition init_dataset_parallel :: "randomx_cache \<Rightarrow> int \<Rightarrow> nat list \<Rightarrow> u8 list \<Rightarrow> u8 list option" where
  "init_dataset_parallel cache threads sched ds =
     (let ranges = item_ranges randomx_dataset_item_count threads
      in do {
        s \<leftarrow> foldM (init_step cache ranges) sched \<lparr>par_memory = ds, par_count = replicate (length ranges) 0\<rparr>;
        if all_joined ranges s then Some (par_memory s) else None
      })"

subsection \<open>The ranges divide the items\<close>

definition range_items :: "nat \<times> nat \<Rightarrow> nat list" where
  "range_items = (\<lambda>(start, count). [start..<start + count])"

lemma thread_count_bounds: "0 < n \<Longrightarrow> 0 < thread_count n threads \<and> thread_count n threads \<le> n"
  by (auto simp: thread_count_def Let_def)

lemma item_ranges_partition:
  assumes "0 < n"
  shows "concat (map range_items (item_ranges n threads)) = [0..<n]"
proof -
  let ?t = "thread_count n threads"
  define per where "per = n div ?t"
  obtain m where m: "?t = Suc m" using thread_count_bounds [OF assms, of threads] by (cases ?t) auto
  have "per * m \<le> n div ?t * ?t" by (simp add: per_def m)
  then have le: "per * m \<le> n" using div_times_less_eq_dividend [of n ?t] by linarith
  have "concat (map (\<lambda>t. range_items (per * t, per)) [0..<j]) = [0..<per * j]" for j
  proof (induction j)
    case (Suc j)
    then show ?case using upt_add_eq_append [of 0 "per * j" per] by (simp add: range_items_def add.commute)
  qed simp
  moreover have "map range_items (item_ranges n threads)
      = map (\<lambda>t. range_items (per * t, per)) [0..<m] @ [range_items (per * m, n - per * m)]"
    by (simp add: item_ranges_def m per_def Let_def)
  ultimately show ?thesis using le upt_add_eq_append [of 0 "per * m" "n - per * m"] by (simp add: range_items_def)
qed

lemma item_in_range:
  assumes "0 < n" "i < n"
  obtains t start count where "t < length (item_ranges n threads)" "item_ranges n threads ! t = (start, count)"
    "start \<le> i" "i < start + count"
proof -
  have "i \<in> set (concat (map range_items (item_ranges n threads)))" using item_ranges_partition [OF assms(1)] assms(2) by simp
  then obtain r where r: "r \<in> set (item_ranges n threads)" "i \<in> set (range_items r)" by auto
  then obtain t where "t < length (item_ranges n threads)" "item_ranges n threads ! t = (fst r, snd r)"
    by (auto simp: in_set_conv_nth)
  then show thesis by (rule that) (use r(2) in \<open>auto simp: range_items_def\<close>)
qed

lemma range_bound:
  assumes "0 < n" "t < length (item_ranges n threads)" "item_ranges n threads ! t = (start, count)" "k < count"
  shows "start + k < n"
proof -
  have "start + k \<in> set (range_items (item_ranges n threads ! t))" using assms(3,4) by (simp add: range_items_def)
  then have "start + k \<in> set (concat (map range_items (item_ranges n threads)))" using assms(2) by (auto intro: nth_mem)
  then show ?thesis using item_ranges_partition [OF assms(1)] by simp
qed

subsection \<open>Runs\<close>

definition written :: "randomx_cache \<Rightarrow> u8 list \<Rightarrow> nat \<Rightarrow> bool" where
  "written cache mem i \<longleftrightarrow> initDatasetItem cache (of_nat i) = Some (chunk 64 i mem)"

text \<open>Each thread has written the items it has counted.\<close>

definition par_inv :: "randomx_cache \<Rightarrow> nat \<Rightarrow> (nat \<times> nat) list \<Rightarrow> par_state \<Rightarrow> bool" where
  "par_inv cache n ranges s \<longleftrightarrow> length (par_memory s) = 64 * n \<and> length (par_count s) = length ranges
     \<and> (\<forall>t < length ranges. \<forall>k < par_count s ! t. written cache (par_memory s) (fst (ranges ! t) + k))
     \<and> (\<forall>t < length ranges. par_count s ! t \<le> snd (ranges ! t))"

lemma written_blit:
  assumes "initDatasetItem cache (of_nat j) = Some b" "length b = 64" "j < n" "i < n" "length mem = 64 * n"
  shows "written cache (blit mem (64 * j) b) i \<longleftrightarrow> i = j \<or> written cache mem i"
proof -
  have "64 * Suc j \<le> length mem" "64 * Suc i \<le> length mem" using assms(3-5) by simp_all
  then show ?thesis using assms(1,2) chunk_blit [of b j mem i] by (auto simp: written_def)
qed

lemma init_step_ok:
  assumes c: "cache_ok cache" and n: "0 < n" and ranges: "ranges = item_ranges n threads"
    and t: "t < length ranges" and s: "par_inv cache n ranges s"
  shows "\<exists>s'. init_step cache ranges t s = Some s' \<and> par_inv cache n ranges s'
    \<and> par_count s' = (par_count s)[t := min (Suc (par_count s ! t)) (snd (ranges ! t))]"
proof -
  obtain start count where r: "ranges ! t = (start, count)" by fastforce
  let ?k = "par_count s ! t"
  have len: "length (par_count s) = length ranges" "length (par_memory s) = 64 * n" "?k \<le> count"
    using s t r by (auto simp: par_inv_def)
  show ?thesis
  proof (cases "?k < count")
    case False
    then have "(par_count s)[t := min (Suc ?k) count] = par_count s"
      using len(3) by (simp add: min_def list_update_same_conv len(1) t)
    then show ?thesis using False s t r len(1) by (simp add: init_step_def)
  next
    case True
    have j: "start + ?k < n" using range_bound [OF n _ _ True] t r ranges by blast
    obtain b where b: "initDatasetItem cache (of_nat (start + ?k)) = Some b" "length b = 64"
      using initDatasetItem_ok [OF c, of "of_nat (start + ?k)"] by (auto simp: returns_def)
    let ?s = "s\<lparr>par_memory := blit (par_memory s) (64 * (start + ?k)) b, par_count := (par_count s)[t := Suc ?k]\<rparr>"
    have fit: "64 * (start + ?k) + 64 \<le> length (par_memory s)" using j len(2) by simp
    have step: "init_step cache ranges t s = Some ?s"
      using t r len(1) True b(1) fit by (simp add: init_step_def Let_def algebra_simps)
    have "written cache (par_memory ?s) (fst (ranges ! u) + k)" if "u < length ranges" "k < par_count ?s ! u" for u k
    proof -
      have k: "k < par_count s ! u \<or> u = t \<and> k = ?k"
        using that len(1) by (cases "u = t") auto
      then have "k < snd (ranges ! u)" using s that(1) True r by (auto simp: par_inv_def intro: less_le_trans)
      then have "fst (ranges ! u) + k < n"
        using range_bound [OF n, of u threads "fst (ranges ! u)" "snd (ranges ! u)" k] that(1) ranges by simp
      moreover have "fst (ranges ! u) + k = start + ?k \<or> written cache (par_memory s) (fst (ranges ! u) + k)"
        using k s that(1) r by (auto simp: par_inv_def)
      ultimately show ?thesis using written_blit [OF b j _ len(2)] by simp
    qed
    moreover have "par_count ?s ! u \<le> snd (ranges ! u)" if "u < length ranges" for u
      using that s True r len(1) by (cases "u = t") (auto simp: par_inv_def)
    ultimately have "par_inv cache n ranges ?s" using len b(2) fit by (simp add: par_inv_def)
    then show ?thesis using step True r by simp
  qed
qed

lemma init_run_ok:
  assumes "cache_ok cache" "0 < n" "ranges = item_ranges n threads" "set sched \<subseteq> {..<length ranges}" "par_inv cache n ranges s"
  shows "\<exists>s'. foldM (init_step cache ranges) sched s = Some s' \<and> par_inv cache n ranges s'
    \<and> (\<forall>t < length ranges. par_count s' ! t = min (par_count s ! t + count_list sched t) (snd (ranges ! t)))"
  using assms(4,5)
proof (induction sched arbitrary: s)
  case Nil
  then show ?case by (auto simp: par_inv_def)
next
  case (Cons t sched)
  obtain s1 where s1: "init_step cache ranges t s = Some s1" "par_inv cache n ranges s1"
    "par_count s1 = (par_count s)[t := min (Suc (par_count s ! t)) (snd (ranges ! t))]"
    using init_step_ok [OF assms(1-3) _ Cons.prems(2), of t] Cons.prems(1) by auto
  obtain s' where s': "foldM (init_step cache ranges) sched s1 = Some s'" "par_inv cache n ranges s'"
    "\<forall>u < length ranges. par_count s' ! u = min (par_count s1 ! u + count_list sched u) (snd (ranges ! u))"
    using Cons.IH [OF _ s1(2)] Cons.prems(1) by auto
  have "length (par_count s) = length ranges" using Cons.prems(2) by (simp add: par_inv_def)
  then have "par_count s' ! u = min (par_count s ! u + count_list (t # sched) u) (snd (ranges ! u))" if "u < length ranges" for u
    using s'(3) s1(3) that by (cases "u = t") auto
  then show ?case using s1(1) s'(1,2) by simp
qed

lemma written_all_eq:
  assumes "length a = 64 * n" "length b = 64 * n" "\<And>i. i < n \<Longrightarrow> written cache a i" "\<And>i. i < n \<Longrightarrow> written cache b i"
  shows "a = b"
proof -
  have "map (\<lambda>i. chunk 64 i a) [0..<n] = map (\<lambda>i. chunk 64 i b) [0..<n]"
    using assms(3,4) by (auto simp: written_def)
  then show ?thesis using concat_chunks [OF assms(1)] concat_chunks [OF assms(2)] by metis
qed

text \<open>C7. Initialising the dataset with any number of threads, in any order of their steps in which every
  thread gets to its end, gives the memory that one call over all items gives; the ranges of the
  threads divide the items without gap or overlap, so that no two threads write the same item.\<close>

theorem init_dataset_parallel_correct:
  assumes "cache_ok cache" "length ds = 64 * randomx_dataset_item_count"
    and "ranges = item_ranges randomx_dataset_item_count threads"
    and "set sched \<subseteq> {..<length ranges}" "list_all (\<lambda>t. snd (ranges ! t) \<le> count_list sched t) [0..<length ranges]"
  shows "concat (map range_items ranges) = [0..<randomx_dataset_item_count]
    \<and> (\<exists>ds'. init_dataset_parallel cache threads sched ds = Some ds'
        \<and> randomx_init_dataset cache ds 0 randomx_dataset_item_count = Some ds')"
proof -
  let ?n = randomx_dataset_item_count
  have n: "0 < ?n" by (simp add: randomx_dataset_item_count_def DatasetBaseSize_def DatasetExtraSize_def)
  let ?s = "\<lparr>par_memory = ds, par_count = replicate (length ranges) 0\<rparr>"
  have "par_inv cache ?n ranges ?s" using assms(2) by (simp add: par_inv_def)
  then obtain s where s: "foldM (init_step cache ranges) sched ?s = Some s" "par_inv cache ?n ranges s"
    "\<forall>t < length ranges. par_count s ! t = min (count_list sched t) (snd (ranges ! t))"
    using init_run_ok [OF assms(1) n assms(3,4)] by fastforce
  have len: "length (par_count s) = length ranges" "length (par_memory s) = 64 * ?n" using s(2) by (simp_all add: par_inv_def)
  have full: "par_count s ! t = snd (ranges ! t)" if "t < length ranges" for t
    using s(3) assms(5) that by (simp add: list_all_iff)
  then have joined: "all_joined ranges s" using len(1) by (auto simp: all_joined_def intro: nth_equalityI)
  have "written cache (par_memory s) i" if i: "i < ?n" for i
  proof -
    obtain t start count where t: "t < length ranges" "ranges ! t = (start, count)" "start \<le> i" "i < start + count"
      using item_in_range [OF n i, of threads] assms(3) by metis
    then have "i - start < par_count s ! t" using full by simp
    then have "written cache (par_memory s) (fst (ranges ! t) + (i - start))"
      using s(2) t(1) unfolding par_inv_def by blast
    then show ?thesis using t(2,3) by simp
  qed
  moreover obtain ds' where ds': "randomx_init_dataset cache ds 0 ?n = Some ds'" "length ds' = 64 * ?n"
    "\<And>i. i < ?n \<Longrightarrow> written cache ds' i"
    using init_dataset_all [OF assms(1,2)] by (auto simp: written_def)
  ultimately have "par_memory s = ds'" using written_all_eq [OF len(2)] by blast
  then show ?thesis
    using s(1) joined ds'(1) item_ranges_partition [OF n] assms(3) by (simp add: init_dataset_parallel_def Let_def)
qed

text \<open>Two threads that take turns; the first has one item less and ends one turn earlier.\<close>

lemma count_list_turns: "count_list (concat (replicate n xs)) t = n * count_list xs t"
  by (induction n) (simp_all add: count_list_append)

theorem init_dataset_parallel_correct_witness:
  "\<exists>ds'. init_dataset_parallel \<lparr>cache_memory = replicate 268435456 5, programs = replicate 16 empty_program\<rparr> 2
       (concat (replicate 17039360 [0, 1])) (replicate 2181038016 0) = Some ds'
     \<and> randomx_init_dataset \<lparr>cache_memory = replicate 268435456 5, programs = replicate 16 empty_program\<rparr>
       (replicate 2181038016 0) 0 randomx_dataset_item_count = Some ds'"
proof -
  let ?c = "\<lparr>cache_memory = replicate 268435456 5, programs = replicate 16 empty_program\<rparr>"
  have n: "randomx_dataset_item_count = 34078719"
    by (simp add: randomx_dataset_item_count_def DatasetBaseSize_def DatasetExtraSize_def)
  have r: "item_ranges randomx_dataset_item_count 2 = [(0, 17039359), (17039359, 17039360)]"
    by (simp add: item_ranges_def thread_count_def n Let_def upt_rec [of 0 2] upt_rec [of "Suc 0" 2])
  have "cache_ok ?c"
    by (simp add: cache_ok_def ArgonMemory_def ArgonBlockSize_def CacheAccesses_def valid_program_def empty_program_def)
  moreover have "length (replicate 2181038016 (0 :: u8)) = 64 * randomx_dataset_item_count" by (simp add: n)
  moreover have "set (concat (replicate 17039360 [0, 1])) \<subseteq> {..<length [(0 :: nat, 17039359 :: nat), (17039359, 17039360)]}"
    by (simp add: set_replicate_conv_if)
  moreover have "list_all (\<lambda>t. snd ([(0 :: nat, 17039359 :: nat), (17039359, 17039360)] ! t) \<le> count_list (concat (replicate 17039360 [0, 1])) t)
      [0..<length [(0 :: nat, 17039359 :: nat), (17039359, 17039360)]]"
    by (simp add: count_list_turns)
  ultimately show ?thesis using init_dataset_parallel_correct [OF _ _ r [symmetric]] by blast
qed

end
