(* ===== verification/Spec2Isabelle.thy ===== *)
theory Spec2Isabelle
  imports Sha3t Nm_Capi Rx_Capi
begin

text \<open>
  \<^bold>\<open>The native hashing code of ARC-miner.\<close> The miner is a host program (\<^verbatim>\<open>src/src\<close>, C#) that gets jobs
  from a pool and has native libraries (\<^verbatim>\<open>src/native\<close>, C and C++) search for nonces. This development
  models those libraries: the GPU searches for CSD (\<^verbatim>\<open>csd-sha256d\<close>, double SHA-256) and SHA3-256t
  (\<^verbatim>\<open>sha3t-keccak\<close>, three passes of SHA3-256), the CPU hash NeuroMorph (\<^verbatim>\<open>randomx-xmrig/crypto/nm\<close>)
  and the CPU hash RandomX (\<^verbatim>\<open>randomx-xmrig/crypto/randomx\<close>). A library consists of hash routines, the
  machinery around them (kernel launch, dataset, virtual machine) and C functions for the host.

  \<^bold>\<open>Conventions.\<close> An unsigned integer of \<open>n\<close> bits is a word of that length, so that arithmetic wraps as
  in C; a C array is a list and its length part of the invariant of its owner; a struct is a record,
  an enumeration a datatype. A function that changes memory takes the old contents and returns the
  new ones. Array accesses in the NeuroMorph and RandomX models go through \<open>get\<close> and \<open>put\<close> of the
  prelude: the result \<open>None\<close> is an access outside an array, an \<^verbatim>\<open>UNREACHABLE\<close> branch or a loop that does
  not end, and theorems of the form \<open>\<exists>y. f x = Some y\<close> show that none of these happens. What lies
  outside the sources is an argument: the SYCL runtime (which of its calls throw, which allocations
  return a null pointer), the order in which concurrent work-items and threads step, the success of
  allocations, the contents of uninitialised memory, and processor instructions (AES, floating point
  of RandomX). Argon2, a third-party library whose sources are vendored under \<^verbatim>\<open>randomx-xmrig/3rdparty\<close>,
  is not modelled but an argument too: the function that fills the cache. Hypotheses on such an
  argument state documented behaviour only, and each has a concrete instance in the witness of the
  theorem that uses it.

  \<^bold>\<open>References.\<close> A routine that implements a standard is compared with a definition that shares none
  of its tables where the standard has a rule for them: Keccak-f with round constants from the shift
  register and offsets from the walk over the lanes, the AES round over \<open>GF(2^8)\<close> with the S-box from
  the inverse, BLAKE2b with initial values from square roots of primes. The message permutations of
  BLAKE2b have no rule; there the reference reads the table of the code. SHA-256 is compared with the
  second implementation the sources have.

  \<^bold>\<open>Theories.\<close>

  \<^item> \<open>Prelude\<close>: word types, byte order, \<^verbatim>\<open>memcpy\<close>, and lemmas on lists, folds and words.
  \<^item> \<open>Stream_Hash\<close>: the interface of a block hash fed in pieces (locales \<open>block_stream\<close> and
    \<open>lazy_stream\<close>); SHA-256 and BLAKE2b are instances.
  \<^item> \<open>Sha256\<close>: \<^verbatim>\<open>nm_sha256.h\<close> and the reference hash of \<^verbatim>\<open>csd_fused_check.cpp\<close>. The streaming hash equals
    the reference on every message, however the message is cut.
  \<^item> \<open>Search\<close>: the kernel launch both GPU miners share. For every order of the work-items' atomic steps
    the search ends and reports exactly the winners, up to the capacity of the result array; a count
    near \<open>2 ^ 32\<close> makes the number of work-items wrap to zero.
  \<^item> \<open>Csd\<close>, \<open>Gpu_Capi\<close>: \<^verbatim>\<open>csd_sha256d.hpp\<close> and \<^verbatim>\<open>csd_capi.cpp\<close>. The kernel's rolling schedule from a midstate
    equals the reference double hash; a search on an open device reports the nonces whose hash meets
    the target; error codes, device choice, and which allocations are released: all of them, also
    when runtime calls throw, except after a null pointer or a second open, and an exception between
    the two allocations of a context makes the next search access a null pointer.
  \<^item> \<open>Sha3t\<close>: \<^verbatim>\<open>sha3t_keccak.hpp\<close> and \<^verbatim>\<open>sha3t_capi.cpp\<close>. The in-place permutation equals Keccak-f lane by
    lane, the fused passes equal three sponges on bytes, and the search reports the winners.
  \<^item> \<open>Nm_Aes\<close>, \<open>Nm_Params\<close>, \<open>Soft_Double\<close>, \<open>Nm_Vm\<close>: \<^verbatim>\<open>nm_aes.h\<close>, \<^verbatim>\<open>nm_params.c\<close>, \<^verbatim>\<open>nm_neuromorph.c\<close>. Portable
    and instruction-based AES agree and are injective, parameters are in range, the dataset and
    scratchpad are AES in counter mode whatever uninitialised memory held, and a hash never accesses
    memory outside its arrays.
    Doubles are bit patterns with rounding to nearest.
  \<^item> \<open>Nm_Ctx\<close>, \<open>Nm_Capi\<close>: \<^verbatim>\<open>neuromorph_capi.cpp\<close> with the memory of \<^verbatim>\<open>VirtualMemory.cpp\<close>. A context hashes
    with the dataset of its seed, contexts release what they own, and the self-test is consistent.
  \<^item> \<open>Rx_Prims\<close>, \<open>Rx_Blake2b\<close>, \<open>Rx_Generator\<close>: byte order, high products, reciprocal; BLAKE2b in its
    portable and SSE4.1 forms (locale \<open>full_block_compression\<close>, with both as instances) against
    RFC 7693; the random generator of the superscalar programs.
  \<^item> \<open>Rx_Superscalar\<close>, \<open>Rx_Program\<close>, \<open>Rx_Dataset\<close>: \<^verbatim>\<open>superscalar.cpp\<close> and \<^verbatim>\<open>dataset.cpp\<close>. Program generation
    ends with a well-formed program, its execution is total, and cache and dataset initialisation
    computes every item of the range.
  \<^item> \<open>Rx_Config\<close>: the configurations of \<^verbatim>\<open>randomx.h\<close> and \<^verbatim>\<open>randomx.cpp\<close>, the masks and the dispatch table of
    \<^verbatim>\<open>Apply\<close>, and that the table agrees with the decoder of the interpreter.
  \<^item> \<open>Rx_Bytecode\<close>, \<open>Rx_Bytecode_Run\<close>: \<^verbatim>\<open>bytecode_machine.cpp\<close> and \<^verbatim>\<open>bytecode_machine.hpp\<close>. Every program
    compiles to bytecode with operands in range, and its execution ends although branches jump back.
  \<^item> \<open>Rx_SoftAes\<close>, \<open>Rx_AesRound\<close>, \<open>Rx_AesHash\<close>: \<^verbatim>\<open>soft_aes.cpp\<close>, \<^verbatim>\<open>soft_aes.h\<close>, \<^verbatim>\<open>aes_hash.cpp\<close>. The computed
    tables make both software rounds the AES round; the combined pass equals hashing, then filling,
    in each of its forms (locale \<open>aes_lanes\<close>, with both software rounds as instances).
  \<^item> \<open>Rx_Vm\<close>, \<open>Rx_Hash\<close>: \<^verbatim>\<open>virtual_machine.cpp\<close>, \<^verbatim>\<open>vm_interpreted.cpp\<close>, \<^verbatim>\<open>vm_interpreted_light.cpp\<close> and the
    hash functions of \<^verbatim>\<open>randomx.cpp\<close>. Every hash returns without an access outside its memory, the
    pipelined functions give the hashes of the direct one, and a machine on the cache computes the
    hashes of a machine on the dataset.
  \<^item> \<open>Rx_Capi\<close>: the parallel dataset initialisation of \<^verbatim>\<open>randomx_capi.cpp\<close>. The threads' ranges divide the
    items, and every order of the threads' steps gives the memory of one call over all items.

  \<^bold>\<open>Bounds and fuel.\<close> No model takes fuel as an argument. Loops over a counter are folds over its range.
  The other loops are functions with a termination proof, or partial functions whose value \<open>None\<close> is
  a run without end, for which the theorems above prove that a value is returned: the S-box loop and
  the bytecode loop always return; the rejection loops of the superscalar generator return for a
  hash that is fair (every register and instruction choice comes up), the hypothesis \<open>fair\<close>. The
  configurations bound the program size by 384 instructions, the length of the bytecode array.

  \<^bold>\<open>Not modelled, and why.\<close> The just-in-time compilers and the compiled machine of RandomX emit machine
  code of three processors; the AVX2, VAES, RISC-V vector forms of BLAKE2b and AES and the CryptoNight
  code are written in processor intrinsics and assembly; GhostRider combines third-party hashes with
  CryptoNight; the Pearl kernels (\<^verbatim>\<open>pearl-gemm\<close>) are SYCL joint-matrix code that depends on the device
  runtime, and the Rust crates wrap libraries that are not in the sources. The allocators, processor
  detection, timing and the C# host are system calls, threads and input/output around the modelled
  functions. The rest of \<^verbatim>\<open>randomx_capi.cpp\<close> owns the cache, the dataset and the machines, and creates
  compiled machines only.
\<close>

end
